(* ===== verification/Dsync_Prelude.thy ===== *)
theory Dsync_Prelude
  imports Main
begin

section \<open>Prelude: shared types, collections and list lemmas\<close>

text \<open>
  What every component of the development shares: the names of the basic types, the
  collections of simplification rules the component proofs draw on, and the generic lemmas
  on lists, sums and cardinalities that the quorum and token-counting arguments need.

  Objects that the Go program reaches through pointers (the lock clients behind the
  \<^verbatim>\<open>NetLocker\<close> interface values) live in an explicit store: a \<open>ref\<close> is the pointer and
  a \<open>'c store\<close> gives the object at every reference.
\<close>

type_synonym ref = nat
type_synonym 'c store = "ref \<Rightarrow> 'c"
type_synonym duration = int
type_synonym time = int

named_theorems handler_defs \<open>definitions of the request handlers of the lock servers\<close>
named_theorems step_defs \<open>definitions of the actions of a lock attempt\<close>

subsection \<open>Counting entries of a list\<close>

text \<open>\<open>idx_where\<close> collects the positions of the entries that satisfy a predicate.\<close>

abbreviation idx_where :: "('a \<Rightarrow> bool) \<Rightarrow> 'a list \<Rightarrow> nat set" where
  "idx_where P xs \<equiv> {k. k < length xs \<and> P (xs ! k)}"

lemma card_idx_where: "card (idx_where P xs) = length (filter P xs)"
  by (simp add: length_filter_conv_card)

lemma finite_idx_where [simp]: "finite (idx_where P xs)"
  by simp

lemma card_idx_where_le: "card (idx_where P xs) \<le> length xs"
  by (simp add: card_idx_where)

text \<open>Two subsets of \<open>{..<n}\<close> whose sizes add up to more than \<open>n\<close> plus a set of excluded
  elements share an element that is not excluded.\<close>

lemma subsets_meet:
  assumes "A \<subseteq> {..<n}" and "B \<subseteq> {..<n}"
    and "finite E" and "n + card E < card A + card B"
  shows "\<exists>k \<in> A \<inter> B. k \<notin> E"
proof (rule ccontr)
  assume "\<not> ?thesis"
  then have sub: "A \<inter> B \<subseteq> E" by blast
  have fin: "finite A" "finite B" using assms(1,2) by (auto intro: finite_subset)
  have "card (A \<union> B) \<le> n"
    using card_mono[of "{..<n}" "A \<union> B"] assms(1,2) by simp
  moreover have "card (A \<inter> B) \<le> card E"
    using sub assms(3) by (rule card_mono[rotated])
  moreover have "card A + card B = card (A \<union> B) + card (A \<inter> B)"
    using fin by (rule card_Un_Int)
  ultimately show False using assms(4) by simp
qed

subsection \<open>Sums over a list when one element changes\<close>

lemma sum_list_map_update:
  fixes f :: "'a \<Rightarrow> nat"
  assumes "j < length xs"
  shows "(\<Sum>x\<leftarrow>xs[j := y]. f x) + f (xs ! j) = (\<Sum>x\<leftarrow>xs. f x) + f y"
  using assms
proof (induction xs arbitrary: j)
  case Nil
  then show ?case by simp
next
  case (Cons x xs)
  then show ?case by (cases j) (auto simp: algebra_simps)
qed

lemma sum_list_map_ge_elem:
  fixes f :: "'a \<Rightarrow> nat"
  assumes "j < length xs"
  shows "f (xs ! j) \<le> (\<Sum>x\<leftarrow>xs. f x)"
  using member_le_sum_list[of "f (xs ! j)" "map f xs"] assms by simp

lemma sum_list_map_ge_two:
  fixes f :: "'a \<Rightarrow> nat"
  assumes "i < length xs" and "j < length xs" and "i \<noteq> j"
  shows "f (xs ! i) + f (xs ! j) \<le> (\<Sum>x\<leftarrow>xs. f x)"
  using assms
proof (induction xs arbitrary: i j)
  case Nil
  then show ?case by simp
next
  case (Cons x xs)
  show ?case
  proof (cases i)
    case 0
    with Cons.prems obtain j' where "j = Suc j'" "j' < length xs" by (cases j) auto
    with 0 show ?thesis using sum_list_map_ge_elem[of j' xs f] by simp
  next
    case i: (Suc i')
    show ?thesis
    proof (cases j)
      case 0
      with i Cons.prems show ?thesis using sum_list_map_ge_elem[of i' xs f] by simp
    next
      case (Suc j')
      with i Cons.prems Cons.IH[of i' j'] show ?thesis by simp
    qed
  qed
qed

lemma length_filter_update:
  assumes "j < length xs"
  shows "length (filter P (xs[j := y])) + (if P (xs ! j) then 1 else 0) =
    length (filter P xs) + (if P y then 1 else 0)"
proof -
  have "length (filter P ys) = (\<Sum>x\<leftarrow>ys. if P x then 1 else 0)" for ys
    by (induction ys) auto
  then show ?thesis using sum_list_map_update[OF assms, of "\<lambda>x. if P x then 1 else 0" y] by simp
qed

lemma sum_list_map_concat: "(\<Sum>x\<leftarrow>concat (map g xs). f x) = (\<Sum>x\<leftarrow>xs. (\<Sum>y\<leftarrow>g x. f y))"
  by (induction xs) auto

lemma ball_set_update: "\<forall>x \<in> set xs. P x \<Longrightarrow> P y \<Longrightarrow> \<forall>x \<in> set (xs[j := y]). P x"
  using set_update_subset_insert[of xs j y] by blast

subsection \<open>Removing one occurrence\<close>

text \<open>Go's removal by index, \<^verbatim>\<open>append(xs[:i], xs[i+1:]...)\<close>.\<close>

definition remove_at :: "nat \<Rightarrow> 'a list \<Rightarrow> 'a list" where
  "remove_at i xs = take i xs @ drop (Suc i) xs"

lemma remove_at_length: "i < length xs \<Longrightarrow> length (remove_at i xs) = length xs - 1"
  by (simp add: remove_at_def)

lemma filter_remove_at:
  assumes "i < length xs"
  shows "length (filter P xs) = length (filter P (remove_at i xs)) + (if P (xs ! i) then 1 else 0)"
proof -
  have "xs = take i xs @ xs ! i # drop (Suc i) xs"
    using assms by (rule id_take_nth_drop)
  then have "filter P xs = filter P (take i xs) @ filter P (xs ! i # drop (Suc i) xs)"
    by (metis filter_append)
  then show ?thesis by (simp add: remove_at_def)
qed

lemma set_remove_at: "set (remove_at i xs) \<subseteq> set xs"
  by (auto simp: remove_at_def dest: in_set_takeD in_set_dropD)

end
