(* ===== verification/Rpc_Interface.thy ===== *)
theory Rpc_Interface
  imports Dsync_Prelude
begin

section \<open>The NetLocker interface (rpc-client-interface.go) and the contract of a lock server\<close>

text \<open>
  \<^verbatim>\<open>LockArgs\<close> and the four locking methods of the \<^verbatim>\<open>NetLocker\<close> interface, the error
  values the repository's code creates, and the contract a lock server has to satisfy for
  the quorum protocol to be safe.

  An interface value of Go is a method table and a pointer to the object. Here the method
  table is a function from the method to its behaviour on the object's state, and the object
  is found in the store under its reference. The methods \<^verbatim>\<open>String\<close> and \<^verbatim>\<open>Close\<close> of the
  interface are never called by the package and are left to the client models.
\<close>

record LockArgs =
  UID :: string
  Resource :: string
  Source :: string

text \<open>Errors by the place that creates them; the arguments are those of the format string.\<close>

datatype error =
    UnlockUnlocked string        \<comment> \<open>Unlock attempted on an unlocked entity: resource\<close>
  | UnlockReadLocked string int  \<comment> \<open>Unlock attempted on a read locked entity: resource, count\<close>
  | UnlockNoUID string           \<comment> \<open>Unlock unable to find corresponding lock for uid\<close>
  | RUnlockUnlocked string       \<comment> \<open>RUnlock attempted on an unlocked entity: resource\<close>
  | RUnlockWriteLocked string    \<comment> \<open>RUnlock attempted on a write locked entity: resource\<close>
  | RUnlockNoUID string          \<comment> \<open>RUnlock unable to find corresponding read lock for uid\<close>
  | ErrShutdown                  \<comment> \<open>rpc.ErrShutdown\<close>
  | NetError string              \<comment> \<open>any other transport error\<close>
  | NewError string              \<comment> \<open>errors.New with a fixed text\<close>

text \<open>The locking methods of the \<^verbatim>\<open>NetLocker\<close> interface.\<close>

datatype NetLocker_method = RLock | Lock | RUnlock | Unlock

type_synonym result = "bool \<times> error option"
type_synonym 'c NetLocker = "NetLocker_method \<Rightarrow> LockArgs \<Rightarrow> 'c \<Rightarrow> result \<times> 'c"

text \<open>A method call through an interface value: the object is read from and written back to
  the store.\<close>

definition invoke :: "'c NetLocker \<Rightarrow> NetLocker_method \<Rightarrow> LockArgs \<Rightarrow> ref \<Rightarrow> 'c store \<Rightarrow> result \<times> 'c store" where
  "invoke nl m args c st = (let (r, x) = nl m args (st c) in (r, st(c := x)))"

lemma fst_invoke [simp]: "fst (invoke nl m args c st) = fst (nl m args (st c))"
  by (simp add: invoke_def split: prod.splits)

lemma snd_invoke [simp]: "snd (invoke nl m args c st) = st(c := snd (nl m args (st c)))"
  by (simp add: invoke_def split: prod.splits)

subsection \<open>The contract of a lock server\<close>

text \<open>
  A lock server keeps, for every resource, the locks it has granted and not yet taken back.
  The contract counts them as tokens: \<open>tok s r rd u\<close> is the number of read (\<open>rd\<close>) or write
  locks on resource \<open>r\<close> that state \<open>s\<close> records for the requester class \<open>u\<close>. The class of a
  request is \<open>cls\<close> of its UID: a server that tells requests apart by UID takes the UID itself,
  one that only counts takes a single class. \<open>'e\<close> is what a handler reads of its environment
  (the clock).
\<close>

type_synonym ('e, 's) server = "'e \<Rightarrow> NetLocker_method \<Rightarrow> LockArgs \<Rightarrow> 's \<Rightarrow> result \<times> 's"

definition is_read :: "NetLocker_method \<Rightarrow> bool" where
  "is_read m \<longleftrightarrow> m = RLock \<or> m = RUnlock"

text \<open>A sequence of requests handled by one server.\<close>

fun serve_all :: "('e, 's) server \<Rightarrow> ('e \<times> NetLocker_method \<times> LockArgs) list \<Rightarrow> 's \<Rightarrow> 's" where
  "serve_all srv [] s = s"
| "serve_all srv ((e, m, args) # calls) s = serve_all srv calls (snd (srv e m args s))"

locale lock_server =
  fixes srv :: "('e, 's) server"
    and inv :: "'s \<Rightarrow> bool"
    and tok :: "'s \<Rightarrow> string \<Rightarrow> bool \<Rightarrow> 'u \<Rightarrow> nat"
    and cls :: "string \<Rightarrow> 'u"
    and init :: "'s"
  assumes inv_init: "inv init"
    and tok_init: "tok init r rd u = 0"
    and inv_step: "inv s \<Longrightarrow> inv (snd (srv e m args s))"
    and excl: "inv s \<Longrightarrow> 0 < tok s r False u \<Longrightarrow>
      tok s r False u = 1 \<and> (\<forall>u'. u' \<noteq> u \<longrightarrow> tok s r False u' = 0) \<and> (\<forall>u'. tok s r True u' = 0)"
    and grant: "inv s \<Longrightarrow> m = Lock \<or> m = RLock \<Longrightarrow> fst (fst (srv e m args s)) \<Longrightarrow>
      tok (snd (srv e m args s)) r rd u =
        tok s r rd u + (if r = Resource args \<and> rd = is_read m \<and> u = cls (UID args) then 1 else 0)"
    and deny: "inv s \<Longrightarrow> m = Lock \<or> m = RLock \<Longrightarrow> \<not> fst (fst (srv e m args s)) \<Longrightarrow>
      tok (snd (srv e m args s)) r rd u = tok s r rd u"
    and release: "inv s \<Longrightarrow> m = Unlock \<or> m = RUnlock \<Longrightarrow>
      tok s r rd u \<le> tok (snd (srv e m args s)) r rd u
        + (if r = Resource args \<and> rd = is_read m \<and> u = cls (UID args) then 1 else 0)"
    and release_le: "inv s \<Longrightarrow> m = Unlock \<or> m = RUnlock \<Longrightarrow>
      tok (snd (srv e m args s)) r rd u \<le> tok s r rd u"
begin

lemma serve_all_inv: "inv s \<Longrightarrow> inv (serve_all srv calls s)"
proof (induction calls arbitrary: s)
  case Nil
  then show ?case by simp
next
  case (Cons c calls)
  then show ?case by (cases c) (simp add: inv_step)
qed

text \<open>A request that takes a lock never lowers a count.\<close>

lemma tok_mono:
  assumes "inv s" and "m = Lock \<or> m = RLock"
  shows "tok s r rd u \<le> tok (snd (srv e m args s)) r rd u"
  using grant[OF assms, of e args r rd u] deny[OF assms, of e args r rd u]
  by (cases "fst (fst (srv e m args s))") auto

text \<open>Two tokens on one resource, one of them a write token, cannot be recorded together.\<close>

lemma no_two_tokens:
  assumes "inv s"
    and "0 < tok s r False u" and "0 < tok s r rd u'"
  shows "u' = u \<and> \<not> rd \<and> tok s r rd u' = 1"
  using excl[OF assms(1,2)] assms(3) by (cases rd; cases "u' = u") auto

end

text \<open>The liveness half of the contract: a free resource is granted, a lock that is recorded
  can be taken back.\<close>

locale lock_server_live = lock_server +
  assumes grant_free: "inv s \<Longrightarrow> (\<And>rd u. tok s (Resource args) rd u = 0) \<Longrightarrow>
      m = Lock \<or> m = RLock \<Longrightarrow> fst (srv e m args s) = (True, None)"
    and grant_shared: "inv s \<Longrightarrow> (\<And>u. tok s (Resource args) False u = 0) \<Longrightarrow>
      fst (srv e RLock args s) = (True, None)"
    and release_held: "inv s \<Longrightarrow> m = Unlock \<or> m = RUnlock \<Longrightarrow>
      0 < tok s (Resource args) (is_read m) (cls (UID args)) \<Longrightarrow>
      fst (srv e m args s) = (True, None) \<and>
      tok (snd (srv e m args s)) (Resource args) (is_read m) (cls (UID args))
        = tok s (Resource args) (is_read m) (cls (UID args)) - 1"
begin

text \<open>A lock taken on a free resource and given back leaves the resource free.\<close>

lemma lock_unlock_free:
  assumes "inv s" and free: "\<And>rd u. tok s (Resource args) rd u = 0"
  shows "tok (snd (srv e' Unlock args (snd (srv e Lock args s)))) (Resource args) rd u = 0"
proof -
  let ?s1 = "snd (srv e Lock args s)"
  have g: "fst (fst (srv e Lock args s))"
    using grant_free[OF assms(1) free, of Lock e] by simp
  have t1: "tok ?s1 (Resource args) rd u = (if \<not> rd \<and> u = cls (UID args) then 1 else 0)" for rd u
    using grant[OF assms(1) _ g, of "Resource args" rd u] free by (auto simp: is_read_def)
  have i1: "inv ?s1" using assms(1) by (rule inv_step)
  have held: "tok (snd (srv e' Unlock args ?s1)) (Resource args) False (cls (UID args)) = 0"
    using release_held[OF i1, of Unlock args e'] t1 by (simp add: is_read_def)
  show ?thesis
  proof (cases "\<not> rd \<and> u = cls (UID args)")
    case True
    with held show ?thesis by simp
  next
    case False
    with release_le[OF i1, of Unlock e' args "Resource args" rd u] t1 show ?thesis by auto
  qed
qed

end

end
