(* ===== verification/Go_Float.thy ===== *)
theory Go_Float
  imports Complex_Main "HOL-Library.Log_Nat"
begin

section \<open>Go's float64 arithmetic\<close>

text \<open>
  \<^verbatim>\<open>dsync.go\<close> computes the read quorum and \<^verbatim>\<open>retry.go\<close> the jitter in \<^verbatim>\<open>float64\<close>. A
  float64 is modelled by the rational number it denotes and every operation by the exact
  result rounded to a 53-bit significand, to nearest and ties to even (IEEE 754). The exponent
  is not bounded: every value the code computes lies between \<open>2 ^ -117\<close> (the product of two
  positive floats of at least \<open>2 ^ -53\<close>, with room to spare) and \<open>2 ^ 64\<close>, far from overflow
  and from the subnormal numbers.
\<close>

text \<open>The exponent of a positive rational: \<open>2 ^ e \<le> x\<close>.\<close>

definition ilog2 :: "rat \<Rightarrow> int" where
  "ilog2 x = (case quotient_of x of (p, q) \<Rightarrow>
     let k = bitlen p - bitlen q in if 2 powi k \<le> x then k else k - 1)"

text \<open>Round to the nearest integer, ties to even.\<close>

definition rne :: "rat \<Rightarrow> int" where
  "rne x = (let f = \<lfloor>x\<rfloor>; d = x - of_int f
     in if d < 1 / 2 then f else if d > 1 / 2 then f + 1 else if even f then f else f + 1)"

definition f64 :: "rat \<Rightarrow> rat" where
  "f64 x = (if x = 0 then 0
     else let u = 2 powi (ilog2 \<bar>x\<bar> - 52) in sgn x * (of_int (rne (\<bar>x\<bar> / u)) * u))"

text \<open>The conversion \<^verbatim>\<open>int64(x)\<close> of a float truncates towards zero.\<close>

definition trunc :: "rat \<Rightarrow> int" where
  "trunc x = (if 0 \<le> x then \<lfloor>x\<rfloor> else \<lceil>x\<rceil>)"

lemma rne_of_int [simp]: "rne (of_int n) = n"
  by (simp add: rne_def)

lemma rne_le: "x \<le> of_int n \<Longrightarrow> rne x \<le> n"
proof -
  assume x: "x \<le> of_int n"
  then have f: "\<lfloor>x\<rfloor> \<le> n" by (simp add: floor_le_iff le_less_trans)
  show ?thesis
  proof (cases "\<lfloor>x\<rfloor> = n")
    case True
    with x have "x - of_int \<lfloor>x\<rfloor> \<le> 0" by simp
    then show ?thesis using True by (simp add: rne_def Let_def)
  next
    case False
    with f have "\<lfloor>x\<rfloor> + 1 \<le> n" by simp
    then show ?thesis using f by (simp add: rne_def Let_def)
  qed
qed

lemma le_rne: "of_int n \<le> x \<Longrightarrow> n \<le> rne x"
proof -
  assume "of_int n \<le> x"
  then have "n \<le> \<lfloor>x\<rfloor>" by (simp add: le_floor_iff)
  then show ?thesis by (simp add: rne_def Let_def)
qed

lemma ilog2_lower:
  assumes "0 < x"
  shows "2 powi ilog2 x \<le> x"
proof -
  obtain p q where pq: "quotient_of x = (p, q)" by force
  then have q: "0 < q" and x: "x = of_int p / of_int q"
    by (auto dest: quotient_of_denom_pos quotient_of_div)
  with assms have p: "0 < p" by (simp add: zero_less_divide_iff)
  have lp: "2 ^ nat (bitlen p - 1) \<le> p" and uq: "q < 2 ^ nat (bitlen q)"
    using bitlen_bounds[OF p] bitlen_bounds[OF q] by auto
  have bp: "1 \<le> bitlen p" "0 \<le> bitlen q"
    using p q by (simp_all add: bitlen_nonneg bitlen_ge_iff_power)
  have "(2::rat) powi (bitlen p - 1) \<le> of_int p"
  proof -
    have "(2::rat) powi (bitlen p - 1) = of_int (2 ^ nat (bitlen p - 1))"
      using bp by (simp add: power_int_def)
    also have "\<dots> \<le> of_int p" using lp by (simp only: of_int_le_iff)
    finally show ?thesis .
  qed
  moreover have "of_int q \<le> (2::rat) powi (bitlen q)"
  proof -
    have "of_int q \<le> (of_int (2 ^ nat (bitlen q)) :: rat)" using uq by (simp only: of_int_le_iff)
    also have "\<dots> = 2 powi (bitlen q)" using bp by (simp add: power_int_def)
    finally show ?thesis .
  qed
  ultimately have "(2::rat) powi (bitlen p - 1) / 2 powi (bitlen q) \<le> of_int p / of_int q"
    using p q by (intro frac_le) simp_all
  then have "(2::rat) powi (bitlen p - bitlen q - 1) \<le> x"
    by (simp add: x power_int_diff[symmetric] algebra_simps)
  then show ?thesis by (auto simp: ilog2_def pq Let_def)
qed

lemma ilog2_less:
  assumes "0 < x" and "x < 2 ^ m"
  shows "ilog2 x < int m"
proof (rule ccontr)
  assume "\<not> ?thesis"
  then have "(2::rat) powi int m \<le> 2 powi ilog2 x" by (intro power_int_increasing) auto
  with ilog2_lower[OF assms(1)] assms(2) show False by simp
qed

text \<open>The unit in the last place for an exponent of at most 52 is the inverse of a power of two.\<close>

lemma ulp_small: "e \<le> 52 \<Longrightarrow> x / (2 powi (e - 52) :: rat) = x * 2 ^ nat (52 - e)"
  by (simp add: power_int_def field_simps split: if_splits)

lemma f64_pos: "0 < x \<Longrightarrow> f64 x = of_int (rne (x / 2 powi (ilog2 x - 52))) * 2 powi (ilog2 x - 52)"
  by (simp add: f64_def Let_def)

text \<open>A multiple of the unit in the last place is representable.\<close>

lemma f64_exact:
  assumes "0 < x" and "x = of_int m * 2 powi (ilog2 x - 52)"
  shows "f64 x = x"
proof -
  have "x / 2 powi (ilog2 x - 52) = of_int m"
    using assms(2) by (metis nonzero_mult_div_cancel_right power_int_eq_0_iff zero_neq_numeral)
  then show ?thesis using assms by (simp add: f64_pos)
qed

lemma f64_half_int:
  assumes "0 \<le> m" and "m < 2 ^ 52"
  shows "f64 (of_int m / 2) = of_int m / 2"
proof (cases "m = 0")
  case True
  then show ?thesis by (simp add: f64_def)
next
  case False
  let ?x = "of_int m / 2 :: rat"
  have pos: "0 < ?x" using False assms(1) by simp
  have "?x < 2 ^ 51"
  proof -
    have "(of_int m :: rat) < of_int (2 ^ 52)" using assms(2) by (simp only: of_int_less_iff)
    then show ?thesis by simp
  qed
  then have e: "ilog2 ?x < 51" using ilog2_less[OF pos, of 51] by simp
  have "?x / 2 powi (ilog2 ?x - 52) = ?x * 2 ^ nat (52 - ilog2 ?x)"
    using e by (intro ulp_small) simp
  also have "nat (52 - ilog2 ?x) = Suc (nat (51 - ilog2 ?x))" using e by simp
  finally have "?x / 2 powi (ilog2 ?x - 52) = of_int (m * 2 ^ nat (51 - ilog2 ?x))" by simp
  then have "?x = of_int (m * 2 ^ nat (51 - ilog2 ?x)) * 2 powi (ilog2 ?x - 52)"
    by (metis nonzero_divide_eq_eq power_int_eq_0_iff zero_neq_numeral)
  with pos show ?thesis by (rule f64_exact)
qed

lemma f64_int: "0 \<le> m \<Longrightarrow> m < 2 ^ 51 \<Longrightarrow> f64 (of_int m) = of_int m"
  using f64_half_int[of "2 * m"] by simp

text \<open>Rounding does not cross an integer of at most 53 bits.\<close>

lemma f64_nonneg: "0 \<le> x \<Longrightarrow> 0 \<le> f64 x"
proof (cases "x = 0")
  case False
  moreover assume "0 \<le> x"
  ultimately have x: "0 < x" by simp
  then have "0 \<le> rne (x / 2 powi (ilog2 x - 52))" by (intro le_rne) simp
  then show ?thesis using x by (simp add: f64_pos)
qed (simp add: f64_def)

lemma f64_le_int:
  assumes "0 \<le> x" and "x \<le> of_int n" and "n < 2 ^ 53"
  shows "f64 x \<le> of_int n"
proof (cases "x = 0")
  case True
  with assms show ?thesis by (simp add: f64_def)
next
  case False
  with assms(1) have x: "0 < x" by simp
  let ?e = "ilog2 x"
  have "(of_int n :: rat) < of_int (2 ^ 53)" using assms(3) by (simp only: of_int_less_iff)
  then have "x < 2 ^ 53" using assms(2) by simp
  then have e: "?e \<le> 52" using ilog2_less[OF x, of 53] by simp
  have "x / 2 powi (?e - 52) \<le> of_int (n * 2 ^ nat (52 - ?e))"
    using assms(2) by (simp add: ulp_small[OF e])
  then have "rne (x / 2 powi (?e - 52)) \<le> n * 2 ^ nat (52 - ?e)" by (rule rne_le)
  then have "(of_int (rne (x / 2 powi (?e - 52))) :: rat) \<le> of_int (n * 2 ^ nat (52 - ?e))"
    by (simp only: of_int_le_iff)
  also have "\<dots> = of_int n / 2 powi (?e - 52)"
    by (simp add: ulp_small[OF e])
  finally show ?thesis using x by (simp add: f64_pos pos_le_divide_eq)
qed

text \<open>Nor does it cross a power of two.\<close>

lemma f64_le_pow2:
  assumes "0 \<le> x" and "x \<le> 2 ^ k"
  shows "f64 x \<le> 2 ^ k"
proof (cases "x = 0 \<or> x = 2 ^ k")
  case True
  have "f64 (2 ^ k) = 2 ^ k"
  proof (rule f64_exact)
    have lo: "2 powi ilog2 (2 ^ k) \<le> (2 ^ k :: rat)" and hi: "\<And>j. (2 ^ k :: rat) < 2 ^ j \<Longrightarrow> ilog2 (2 ^ k) < int j"
      using ilog2_lower[of "2 ^ k"] ilog2_less[of "2 ^ k"] by auto
    have "ilog2 (2 ^ k) \<le> int k" using hi[of "Suc k"] by simp
    moreover define d where "d = nat (int k - (ilog2 (2 ^ k) - 52))"
    ultimately have "int k = int d + (ilog2 (2 ^ k) - 52)" by simp
    then have "(2 :: rat) powi int k = 2 powi int d * 2 powi (ilog2 (2 ^ k) - 52)"
      by (metis power_int_add zero_neq_numeral)
    then show "2 ^ k = of_int (2 ^ d) * (2 :: rat) powi (ilog2 (2 ^ k) - 52)" by simp
  qed simp
  with True show ?thesis by (auto simp: f64_def)
next
  case False
  with assms have x: "0 < x" "x < 2 ^ k" by auto
  let ?e = "ilog2 x"
  have e: "?e < int k" using ilog2_less[OF x(1), of k] x(2) by simp
  define d where "d = nat (int k - (?e - 52))"
  have "int k = int d + (?e - 52)" using e by (simp add: d_def)
  then have "(2 :: rat) powi int k = 2 powi int d * 2 powi (?e - 52)" by (metis power_int_add zero_neq_numeral)
  then have k: "(2 :: rat) ^ k = of_int (2 ^ d) * 2 powi (?e - 52)" by simp
  have "x / 2 powi (?e - 52) \<le> of_int (2 ^ d)" using x(2) by (simp add: k pos_divide_le_eq)
  then have "rne (x / 2 powi (?e - 52)) \<le> 2 ^ d" by (rule rne_le)
  then have "(of_int (rne (x / 2 powi (?e - 52))) :: rat) \<le> of_int (2 ^ d)" by (simp only: of_int_le_iff)
  then show ?thesis using x(1) by (simp add: f64_pos k)
qed

end
