(* ===== verification/Dsync_Core.thy ===== *)
theory Dsync_Core
  imports Rpc_Interface Go_Float
begin

section \<open>The Dsync object and its quorums (dsync.go)\<close>

text \<open>
  The client object of the package: the lock clients of the cluster (their references) and the
  two quorums computed from their number. \<open>New\<close> is the constructor with its two error
  returns. All numbers are at most 33, so Go's \<^verbatim>\<open>int\<close> is an \<open>int\<close>.
\<close>

record Dsync =
  dNodeCount :: int
  restClnts :: "ref list"
  dquorum :: int
  dquorumReads :: int

definition New :: "ref list \<Rightarrow> error + Dsync" where
  "New clnts =
     (if length clnts < 2 then Inl (NewError ''Dsync is not designed for less than 2 nodes'')
      else if length clnts > 32 then Inl (NewError ''Dsync is not designed for more than 32 nodes'')
      else let n = int (length clnts)
           in Inr \<lparr>dNodeCount = n, restClnts = clnts,
                   dquorum = n div 2 + 1,
                   dquorumReads = \<lceil>f64 (f64 (of_int n) / 2)\<rceil>\<rparr>)"

text \<open>A \<open>Dsync\<close> value as \<open>New\<close> returns it for distinct clients, one per lock server.\<close>

definition dsync_ok :: "Dsync \<Rightarrow> bool" where
  "dsync_ok ds \<longleftrightarrow> New (restClnts ds) = Inr ds \<and> distinct (restClnts ds)"

definition quorum_of :: "Dsync \<Rightarrow> bool \<Rightarrow> int" where
  "quorum_of ds isReadLock = (if isReadLock then dquorumReads ds else dquorum ds)"

lemma read_quorum_exact:
  assumes "0 \<le> n" and "n \<le> 32"
  shows "\<lceil>f64 (f64 (of_int n) / 2)\<rceil> = (n + 1) div 2"
proof -
  have "f64 (f64 (of_int n) / 2) = of_int n / 2"
    using assms f64_int[of n] f64_half_int[of n] by simp
  moreover have "\<lceil>(of_int n / 2 :: rat)\<rceil> = (n + 1) div 2"
  proof (cases "even n")
    case True
    then obtain k where "n = 2 * k" by (rule evenE)
    then show ?thesis by simp
  next
    case False
    then obtain k where n: "n = 2 * k + 1" by (rule oddE)
    have "\<lceil>(of_int (2 * k + 1) / 2 :: rat)\<rceil> = k + 1"
      by (rule ceiling_unique) simp_all
    with n show ?thesis by simp
  qed
  ultimately show ?thesis by metis
qed

lemma New_Inr_iff:
  "New clnts = Inr ds \<longleftrightarrow> 2 \<le> length clnts \<and> length clnts \<le> 32 \<and>
    ds = \<lparr>dNodeCount = int (length clnts), restClnts = clnts,
          dquorum = int (length clnts) div 2 + 1, dquorumReads = (int (length clnts) + 1) div 2\<rparr>"
  using read_quorum_exact[of "int (length clnts)"] by (auto simp: New_def Let_def)

lemma dsync_okD:
  assumes "dsync_ok ds"
  shows "dNodeCount ds = int (length (restClnts ds))" "2 \<le> length (restClnts ds)"
    "length (restClnts ds) \<le> 32" "dquorum ds = dNodeCount ds div 2 + 1"
    "dquorumReads ds = (dNodeCount ds + 1) div 2" "distinct (restClnts ds)"
  using assms unfolding dsync_ok_def New_Inr_iff by (auto elim: ssubst)

lemma quorum_of_pos: "dsync_ok ds \<Longrightarrow> 1 \<le> quorum_of ds rd"
  and quorum_of_le: "dsync_ok ds \<Longrightarrow> quorum_of ds rd \<le> dNodeCount ds"
  using dsync_okD[of ds] by (auto simp: quorum_of_def)

text \<open>(C24) \<open>New\<close> accepts exactly 2 to 32 clients, and then the write quorum is a strict majority of
  the nodes and the read quorum is half of them rounded up, so the two together exceed the number
  of nodes.\<close>

theorem New_quorums:
  "(case New clnts of
      Inl e \<Rightarrow> length clnts < 2 \<or> 32 < length clnts
    | Inr ds \<Rightarrow> 2 \<le> length clnts \<and> length clnts \<le> 32 \<and> restClnts ds = clnts \<and>
        dNodeCount ds = int (length clnts) \<and>
        dNodeCount ds < 2 * dquorum ds \<and> 2 * dquorum ds \<le> dNodeCount ds + 2 \<and>
        dNodeCount ds \<le> 2 * dquorumReads ds \<and> 2 * dquorumReads ds \<le> dNodeCount ds + 1 \<and>
        dNodeCount ds < dquorum ds + dquorumReads ds)"
proof (cases "New clnts")
  case (Inl e)
  then show ?thesis by (auto simp: New_def Let_def split: if_splits)
next
  case (Inr ds)
  then have "2 \<le> length clnts" "length clnts \<le> 32"
    and "ds = \<lparr>dNodeCount = int (length clnts), restClnts = clnts,
          dquorum = int (length clnts) div 2 + 1, dquorumReads = (int (length clnts) + 1) div 2\<rparr>"
    by (simp_all add: New_Inr_iff)
  with Inr show ?thesis by (simp; presburger)
qed

subsection \<open>Two clusters used in examples\<close>

definition ds_four :: Dsync where
  "ds_four = \<lparr>dNodeCount = 4, restClnts = [0, 1, 2, 3], dquorum = 3, dquorumReads = 2\<rparr>"

definition ds_two :: Dsync where
  "ds_two = \<lparr>dNodeCount = 2, restClnts = [0, 1], dquorum = 2, dquorumReads = 1\<rparr>"

lemma ds_four_ok: "dsync_ok ds_four"
  and ds_two_ok: "dsync_ok ds_two"
  by (simp_all add: dsync_ok_def New_Inr_iff ds_four_def ds_two_def)

end
