(* ===== verification/Go_Text.thy ===== *)
theory Go_Text
  imports Dsync_Prelude
begin

section \<open>Text: numbers, paths and the description of a caller\<close>

text \<open>
  The small part of \<^verbatim>\<open>strconv\<close>, \<^verbatim>\<open>path\<close> and \<^verbatim>\<open>fmt\<close> that the package uses to name resources and to describe the caller
  of a lock operation. What \<^verbatim>\<open>runtime.Caller\<close> finds on the stack is an argument: \<open>None\<close> where it reports failure,
  otherwise the file, the line and the name of the function.
\<close>

text \<open>\<^verbatim>\<open>strconv.Itoa\<close> and the verb \<^verbatim>\<open>%d\<close> on a natural number.\<close>

definition digit :: "nat \<Rightarrow> char" where
  "digit d = ''0123456789'' ! d"

fun Itoa :: "nat \<Rightarrow> string" where
  "Itoa n = (if n < 10 then [digit n] else Itoa (n div 10) @ [digit (n mod 10)])"

declare Itoa.simps [simp del]

text \<open>\<^verbatim>\<open>path.Base\<close>: strip trailing slashes, then take what follows the last slash.\<close>

definition path_Base :: "string \<Rightarrow> string" where
  "path_Base p =
     (if p = [] then ''.''
      else let q = rev (dropWhile (\<lambda>c. c = CHR ''/'') (rev p));
               b = rev (takeWhile (\<lambda>c. c \<noteq> CHR ''/'') (rev q))
           in if b = [] then ''/'' else b)"

type_synonym caller = "(string \<times> nat \<times> string) option"

definition getSource :: "caller \<Rightarrow> string" where
  "getSource c =
     (let (filename, lineNum, funcName) =
            (case c of
               Some (filename, lineNum, funcName) \<Rightarrow> (path_Base filename, lineNum, funcName)
             | None \<Rightarrow> (''<unknown>'', 0, []))
      in ''['' @ filename @ '':'' @ Itoa lineNum @ '':'' @ funcName @ ''()]'')"

subsection \<open>Facts\<close>

lemma digit_inj: "d < 10 \<Longrightarrow> d' < 10 \<Longrightarrow> digit d = digit d' \<Longrightarrow> d = d'"
  using nth_eq_iff_index_eq[of "''0123456789''" d d'] by (simp add: digit_def)

lemma Itoa_not_Nil: "Itoa n \<noteq> []"
  by (subst Itoa.simps) simp

text \<open>Different numbers have different names.\<close>

lemma Itoa_inj: "Itoa m = Itoa n \<Longrightarrow> m = n"
proof (induction m arbitrary: n rule: less_induct)
  case (less m)
  consider "m < 10" "n < 10" | "m < 10" "10 \<le> n" | "10 \<le> m" "n < 10" | "10 \<le> m" "10 \<le> n" by linarith
  then show ?case
  proof cases
    case 1
    with less.prems show ?thesis by (simp add: Itoa.simps[of m] Itoa.simps[of n] digit_inj)
  next
    case 2
    with less.prems Itoa_not_Nil[of "n div 10"] show ?thesis by (simp add: Itoa.simps[of m] Itoa.simps[of n] Cons_eq_append_conv)
  next
    case 3
    with less.prems Itoa_not_Nil[of "m div 10"] show ?thesis by (simp add: Itoa.simps[of m] Itoa.simps[of n] append_eq_Cons_conv)
  next
    case 4
    with less.prems have "Itoa (m div 10) = Itoa (n div 10)" "digit (m mod 10) = digit (n mod 10)"
      by (simp_all add: Itoa.simps[of m] Itoa.simps[of n])
    with less.IH[of "m div 10" "n div 10"] digit_inj[of "m mod 10" "n mod 10"] 4(1) have "m div 10 = n div 10" "m mod 10 = n mod 10"
      by simp_all
    then show ?thesis by (metis div_mult_mod_eq)
  qed
qed

text \<open>The name of a file in a source description never contains a directory.\<close>

lemma path_Base_no_slash: "CHR ''/'' \<in> set (path_Base p) \<Longrightarrow> path_Base p = ''/''"
  by (auto simp: path_Base_def Let_def dest: set_takeWhileD)

lemma path_Base_append: "CHR ''/'' \<notin> set b \<Longrightarrow> b \<noteq> [] \<Longrightarrow> path_Base (d @ ''/'' @ b) = b"
  by (cases "rev b") (auto simp: path_Base_def Let_def takeWhile_append takeWhile_eq_all_conv)

lemma getSource_examples:
  "getSource (Some (''/go/src/dsync/chaos.go'', 120, ''main.main'')) = ''[chaos.go:120:main.main()]''"
  "getSource None = ''[<unknown>:0:()]''"
  by code_simp+

end
