(* ===== verification/DRWMutex.thy ===== *)
theory DRWMutex
  imports Dsync_Core Go_Text
begin

section \<open>The distributed mutex (drwmutex.go)\<close>

text \<open>
  One definition per function of \<^verbatim>\<open>drwmutex.go\<close>. The functions that call lock clients take
  the method table \<open>nl\<close> of the clients and thread the store through. A critical section under
  \<^verbatim>\<open>dm.m\<close> is one function of the mutex record.

  \<open>lock\<close> spawns one goroutine per node and one collector. Its scheduling is an argument:
  \<open>arrivals\<close> is the order in which the goroutines finish their call and send their
  \<^verbatim>\<open>Granted\<close> to the channel, \<open>timer\<close> the number of grants the collector has received when
  the one-second timer fires first in its \<^verbatim>\<open>select\<close> (\<open>None\<close>: not before the channel is
  empty). The theorems hold for every order and every timer. The grants that are left in the
  channel are drained before \<open>lock\<close> returns here; the interleaving with other threads, in which
  the drain runs concurrently, is the subject of \<^verbatim>\<open>Lock_System\<close>. Logging is left out.
\<close>

subsection \<open>Granted, isLocked, quorumMet\<close>

record Granted =
  index :: nat
  lockUID :: string

definition isLocked :: "string \<Rightarrow> bool" where
  "isLocked u \<longleftrightarrow> length u > 0"

definition Granted_isLocked :: "Granted \<Rightarrow> bool" where
  "Granted_isLocked g = isLocked (lockUID g)"

fun count_locked :: "string list \<Rightarrow> int \<Rightarrow> int" where
  "count_locked [] count = count"
| "count_locked (u # us) count = count_locked us (if isLocked u then count + 1 else count)"

definition quorumMet :: "string list \<Rightarrow> bool \<Rightarrow> int \<Rightarrow> int \<Rightarrow> bool" where
  "quorumMet locks isReadLock quorum quorumReads =
     (let count = count_locked locks 0
      in if isReadLock then count \<ge> quorumReads else count \<ge> quorum)"

subsection \<open>Releasing\<close>

definition release_method :: "bool \<Rightarrow> NetLocker_method" where
  "release_method isReadLock = (if isReadLock then RUnlock else Unlock)"

definition sendRelease :: "'c NetLocker \<Rightarrow> ref \<Rightarrow> string \<Rightarrow> string \<Rightarrow> bool \<Rightarrow> 'c store \<Rightarrow> 'c store" where
  "sendRelease nl c nm u isReadLock st =
     (let args = \<lparr>UID = u, Resource = nm, Source = []\<rparr>
      in snd (invoke nl (release_method isReadLock) args c st))"

definition releaseAll_body :: "'c NetLocker \<Rightarrow> Dsync \<Rightarrow> string \<Rightarrow> bool \<Rightarrow> nat
    \<Rightarrow> string list \<times> 'c store \<Rightarrow> string list \<times> 'c store" where
  "releaseAll_body nl ds lockName isReadLock k p =
     (case p of (locks, st) \<Rightarrow>
        if isLocked (locks ! k)
        then (locks[k := []], sendRelease nl (restClnts ds ! k) lockName (locks ! k) isReadLock st)
        else (locks, st))"

definition releaseAll :: "'c NetLocker \<Rightarrow> Dsync \<Rightarrow> string list \<Rightarrow> string \<Rightarrow> bool
    \<Rightarrow> 'c store \<Rightarrow> string list \<times> 'c store" where
  "releaseAll nl ds locks lockName isReadLock st =
     fold (releaseAll_body nl ds lockName isReadLock) [0..<nat (dNodeCount ds)] (locks, st)"

definition unlock_body :: "'c NetLocker \<Rightarrow> string list \<Rightarrow> string \<Rightarrow> bool \<Rightarrow> nat \<times> ref
    \<Rightarrow> 'c store \<Rightarrow> 'c store" where
  "unlock_body nl locks nm isReadLock ic st =
     (if isLocked (locks ! fst ic) then sendRelease nl (snd ic) nm (locks ! fst ic) isReadLock st else st)"

definition unlock :: "'c NetLocker \<Rightarrow> Dsync \<Rightarrow> string list \<Rightarrow> string \<Rightarrow> bool \<Rightarrow> 'c store \<Rightarrow> 'c store" where
  "unlock nl ds locks nm isReadLock st =
     fold (unlock_body nl locks nm isReadLock) (enumerate 0 (restClnts ds)) st"

subsection \<open>lock: broadcast, collect, drain\<close>

definition lock_method :: "bool \<Rightarrow> NetLocker_method" where
  "lock_method isReadLock = (if isReadLock then RLock else Lock)"

text \<open>The goroutine of one node: call the node and build the grant. An error is only logged.\<close>

definition lock_goroutine :: "'c NetLocker \<Rightarrow> Dsync \<Rightarrow> string \<Rightarrow> string \<Rightarrow> string \<Rightarrow> bool \<Rightarrow> nat
    \<Rightarrow> 'c store \<Rightarrow> Granted \<times> 'c store" where
  "lock_goroutine nl ds lockName ident source isReadLock idx st =
     (let args = \<lparr>UID = ident, Resource = lockName, Source = source\<rparr>
      in case invoke nl (lock_method isReadLock) args (restClnts ds ! idx) st of
           ((locked, err), st') \<Rightarrow>
             (\<lparr>index = idx, lockUID = (if locked then UID args else [])\<rparr>, st'))"

text \<open>All goroutines, in the order in which they finish; the grants are the contents of the channel.\<close>

fun broadcast :: "'c NetLocker \<Rightarrow> Dsync \<Rightarrow> string \<Rightarrow> string \<Rightarrow> string \<Rightarrow> bool \<Rightarrow> nat list
    \<Rightarrow> 'c store \<Rightarrow> Granted list \<times> 'c store" where
  "broadcast nl ds lockName ident source isReadLock [] st = ([], st)"
| "broadcast nl ds lockName ident source isReadLock (k # arrivals) st =
     (case lock_goroutine nl ds lockName ident source isReadLock k st of
        (g, st') \<Rightarrow>
          (case broadcast nl ds lockName ident source isReadLock arrivals st' of
             (ch, st'') \<Rightarrow> (g # ch, st'')))"

text \<open>The test that ends the collection early: too many refusals for the quorum to be reached.\<close>

definition too_many_failed :: "Dsync \<Rightarrow> bool \<Rightarrow> int \<Rightarrow> bool" where
  "too_many_failed ds isReadLock locksFailed \<longleftrightarrow>
     \<not> isReadLock \<and> locksFailed > dNodeCount ds - dquorum ds \<or>
     isReadLock \<and> locksFailed > dNodeCount ds - dquorumReads ds"

text \<open>The timeout case of the \<^verbatim>\<open>select\<close>.\<close>

definition collect_timeout :: "'c NetLocker \<Rightarrow> Dsync \<Rightarrow> string \<Rightarrow> bool \<Rightarrow> string list
    \<Rightarrow> 'c store \<Rightarrow> string list \<times> 'c store" where
  "collect_timeout nl ds lockName isReadLock locks st =
     (if \<not> quorumMet locks isReadLock (dquorum ds) (dquorumReads ds)
      then releaseAll nl ds locks lockName isReadLock st else (locks, st))"

text \<open>The loop of the collector goroutine. Its result: the number of grants received, what is
  left in the channel, the lock array and the store.\<close>

fun collect_loop :: "'c NetLocker \<Rightarrow> Dsync \<Rightarrow> string \<Rightarrow> bool \<Rightarrow> nat option \<Rightarrow> Granted list
    \<Rightarrow> int \<Rightarrow> int \<Rightarrow> string list \<Rightarrow> 'c store \<Rightarrow> int \<times> Granted list \<times> string list \<times> 'c store" where
  "collect_loop nl ds lockName isReadLock timer [] i locksFailed locks st =
     (if i < dNodeCount ds
      then (i, [], collect_timeout nl ds lockName isReadLock locks st)
      else (i, [], locks, st))"
| "collect_loop nl ds lockName isReadLock timer (grant # ch) i locksFailed locks st =
     (if i < dNodeCount ds
      then if timer = Some 0
           then (i, grant # ch, collect_timeout nl ds lockName isReadLock locks st)
           else if Granted_isLocked grant
           then collect_loop nl ds lockName isReadLock (map_option (\<lambda>t. t - 1) timer) ch (i + 1)
                  locksFailed (locks[index grant := lockUID grant]) st
           else if too_many_failed ds isReadLock (locksFailed + 1)
           then (i + 1, ch, releaseAll nl ds locks lockName isReadLock st)
           else collect_loop nl ds lockName isReadLock (map_option (\<lambda>t. t - 1) timer) ch (i + 1)
                  (locksFailed + 1) locks st
      else (i, grant # ch, locks, st))"

text \<open>The second loop of the collector: late grants are released at once.\<close>

fun drain_loop :: "'c NetLocker \<Rightarrow> Dsync \<Rightarrow> string \<Rightarrow> bool \<Rightarrow> Granted list \<Rightarrow> int \<Rightarrow> 'c store \<Rightarrow> 'c store" where
  "drain_loop nl ds lockName isReadLock [] i st = st"
| "drain_loop nl ds lockName isReadLock (g # ch) i st =
     (if i < dNodeCount ds
      then drain_loop nl ds lockName isReadLock ch (i + 1)
             (if Granted_isLocked g
              then sendRelease nl (restClnts ds ! index g) lockName (lockUID g) isReadLock st else st)
      else st)"

definition lock :: "'c NetLocker \<Rightarrow> Dsync \<Rightarrow> string list \<Rightarrow> string \<Rightarrow> string \<Rightarrow> string \<Rightarrow> bool
    \<Rightarrow> nat list \<Rightarrow> nat option \<Rightarrow> 'c store \<Rightarrow> bool \<times> string list \<times> 'c store" where
  "lock nl ds locks lockName ident source isReadLock arrivals timer st =
     (case broadcast nl ds lockName ident source isReadLock arrivals st of
        (ch, st1) \<Rightarrow>
          (case collect_loop nl ds lockName isReadLock timer ch 0 0 locks st1 of
             (i, ch', locks', st2) \<Rightarrow>
               (let quorum = quorumMet locks' isReadLock (dquorum ds) (dquorumReads ds)
                in (quorum, locks', drain_loop nl ds lockName isReadLock ch' i st2))))"

subsection \<open>The mutex object\<close>

record DRWMutex =
  Name :: string
  writeLocks :: "string list"
  readersLocks :: "string list list"
  clnt :: Dsync

definition NewDRWMutex :: "string \<Rightarrow> Dsync \<Rightarrow> DRWMutex" where
  "NewDRWMutex nm ds =
     \<lparr>Name = nm, writeLocks = replicate (nat (dNodeCount ds)) [], readersLocks = [], clnt = ds\<rparr>"

text \<open>Go's built-in \<^verbatim>\<open>copy(dst, src)\<close>.\<close>

definition go_copy :: "'a list \<Rightarrow> 'a list \<Rightarrow> 'a list" where
  "go_copy dst src = take (length dst) src @ drop (length src) dst"

definition drwMutexInfinite :: duration where
  "drwMutexInfinite = 2 ^ 63 - 1"

text \<open>The critical section of \<open>lockBlocking\<close> after a successful attempt.\<close>

definition store_locks :: "bool \<Rightarrow> string list \<Rightarrow> DRWMutex \<Rightarrow> DRWMutex" where
  "store_locks isReadLock locks dm =
     (if isReadLock
      then dm\<lparr>readersLocks := readersLocks dm @
              [go_copy (replicate (nat (dNodeCount (clnt dm))) []) locks]\<rparr>
      else dm\<lparr>writeLocks := go_copy (writeLocks dm) locks\<rparr>)"

text \<open>
  What one round of the loop in \<open>lockBlocking\<close> meets: whether the context is cancelled, the
  scheduling of the attempt, and the time since the start when the attempt has failed. The list
  of rounds is what the retry timer provides; the result is \<open>None\<close> where the list ends before
  the call returns.
\<close>

record attempt =
  ctxDone :: bool
  att_arrivals :: "nat list"
  att_timer :: "nat option"
  att_elapsed :: duration

fun lockBlocking :: "'c NetLocker \<Rightarrow> duration \<Rightarrow> string \<Rightarrow> string \<Rightarrow> bool \<Rightarrow> attempt list
    \<Rightarrow> DRWMutex \<Rightarrow> 'c store \<Rightarrow> bool option \<times> DRWMutex \<times> 'c store" where
  "lockBlocking nl timeout ident source isReadLock [] dm st = (None, dm, st)"
| "lockBlocking nl timeout ident source isReadLock (a # rounds) dm st =
     (let go_on = (if ctxDone a then () else ());
          locks = replicate (nat (dNodeCount (clnt dm))) []
      in case lock nl (clnt dm) locks (Name dm) ident source isReadLock (att_arrivals a) (att_timer a) st of
           (success, locks', st') \<Rightarrow>
             if success then (Some True, store_locks isReadLock locks' dm, st')
             else if att_elapsed a \<ge> timeout then (Some False, dm, st')
             else lockBlocking nl timeout ident source isReadLock rounds dm st')"

definition DRWMutex_Lock :: "'c NetLocker \<Rightarrow> string \<Rightarrow> string \<Rightarrow> attempt list \<Rightarrow> DRWMutex
    \<Rightarrow> 'c store \<Rightarrow> bool option \<times> DRWMutex \<times> 'c store" where
  "DRWMutex_Lock nl ident source rounds dm st =
     lockBlocking nl drwMutexInfinite ident source False rounds dm st"

definition GetLock :: "'c NetLocker \<Rightarrow> string \<Rightarrow> string \<Rightarrow> duration \<Rightarrow> attempt list \<Rightarrow> DRWMutex
    \<Rightarrow> 'c store \<Rightarrow> bool option \<times> DRWMutex \<times> 'c store" where
  "GetLock nl ident source timeout rounds dm st =
     lockBlocking nl timeout ident source False rounds dm st"

definition DRWMutex_RLock :: "'c NetLocker \<Rightarrow> string \<Rightarrow> string \<Rightarrow> attempt list \<Rightarrow> DRWMutex
    \<Rightarrow> 'c store \<Rightarrow> bool option \<times> DRWMutex \<times> 'c store" where
  "DRWMutex_RLock nl ident source rounds dm st =
     lockBlocking nl drwMutexInfinite ident source True rounds dm st"

definition GetRLock :: "'c NetLocker \<Rightarrow> string \<Rightarrow> string \<Rightarrow> duration \<Rightarrow> attempt list \<Rightarrow> DRWMutex
    \<Rightarrow> 'c store \<Rightarrow> bool option \<times> DRWMutex \<times> 'c store" where
  "GetRLock nl ident source timeout rounds dm st =
     lockBlocking nl timeout ident source True rounds dm st"

subsection \<open>Unlocking, with its panics\<close>

datatype panic = Panic string

text \<open>The critical sections: the array to release, and the mutex without it.\<close>

definition take_write_locks :: "DRWMutex \<Rightarrow> panic + (string list \<times> DRWMutex)" where
  "take_write_locks dm =
     (let n = nat (dNodeCount (clnt dm)); lockFound = (\<exists>u \<in> set (writeLocks dm). isLocked u)
      in if \<not> lockFound then Inl (Panic ''Trying to Unlock() while no Lock() is active'')
         else Inr (go_copy (replicate n []) (writeLocks dm), dm\<lparr>writeLocks := replicate n []\<rparr>))"

definition take_reader_locks :: "DRWMutex \<Rightarrow> panic + (string list \<times> DRWMutex)" where
  "take_reader_locks dm =
     (let n = nat (dNodeCount (clnt dm))
      in case readersLocks dm of
           [] \<Rightarrow> Inl (Panic ''Trying to RUnlock() while no RLock() is active'')
         | ls # rest \<Rightarrow> Inr (go_copy (replicate n []) ls, dm\<lparr>readersLocks := rest\<rparr>))"

definition DRWMutex_Unlock :: "'c NetLocker \<Rightarrow> DRWMutex \<Rightarrow> 'c store \<Rightarrow> panic + (DRWMutex \<times> 'c store)" where
  "DRWMutex_Unlock nl dm st =
     (case take_write_locks dm of
        Inl p \<Rightarrow> Inl p
      | Inr (locks, dm') \<Rightarrow> Inr (dm', unlock nl (clnt dm) locks (Name dm) False st))"

definition DRWMutex_RUnlock :: "'c NetLocker \<Rightarrow> DRWMutex \<Rightarrow> 'c store \<Rightarrow> panic + (DRWMutex \<times> 'c store)" where
  "DRWMutex_RUnlock nl dm st =
     (case take_reader_locks dm of
        Inl p \<Rightarrow> Inl p
      | Inr (locks, dm') \<Rightarrow> Inr (dm', unlock nl (clnt dm) locks (Name dm) True st))"

subsection \<open>The sync.Locker view of the read lock\<close>

definition letterRunes :: string where
  "letterRunes = ''abcdefghijklmnopqrstuvwxyzABCDEFGHIJKLMNOPQRSTUVWXYZ''"

text \<open>\<open>rnd k\<close> is the \<open>k\<close>-th result of \<^verbatim>\<open>rand.Intn(len(letterRunes))\<close>.\<close>

definition randString :: "(nat \<Rightarrow> nat) \<Rightarrow> nat \<Rightarrow> string" where
  "randString rnd n = map (\<lambda>i. letterRunes ! rnd i) [0..<n]"

text \<open>\<open>DRLocker\<close> casts the pointer to the mutex; the object is the same. A read lock taken through it is
  described by the caller of its \<open>Lock\<close>.\<close>

definition DRLocker :: "DRWMutex \<Rightarrow> DRWMutex" where
  "DRLocker dm = dm"

definition drlocker_Lock :: "'c NetLocker \<Rightarrow> (nat \<Rightarrow> nat) \<Rightarrow> caller \<Rightarrow> attempt list \<Rightarrow> DRWMutex
    \<Rightarrow> 'c store \<Rightarrow> bool option \<times> DRWMutex \<times> 'c store" where
  "drlocker_Lock nl rnd site rounds dr st = DRWMutex_RLock nl (randString rnd 16) (getSource site) rounds dr st"

definition drlocker_Unlock :: "'c NetLocker \<Rightarrow> DRWMutex \<Rightarrow> 'c store \<Rightarrow> panic + (DRWMutex \<times> 'c store)" where
  "drlocker_Unlock nl dr st = DRWMutex_RUnlock nl dr st"

end
