(* ===== verification/Lock_Attempt.thy ===== *)
theory Lock_Attempt
  imports DRWMutex
begin

section \<open>What one lock attempt does\<close>

text \<open>
  Facts about the functions of \<^verbatim>\<open>DRWMutex\<close>, for every method table of the clients, every
  order of the replies and every firing of the timer: the exact effect of the release loops,
  the two ways in which the collector ends, and the resulting contract of \<open>lock\<close>: it succeeds
  exactly when a quorum of the replies it waited for were grants, and every node that granted a
  lock is either recorded in the lock array or has been sent a release.
\<close>

subsection \<open>Counting locked entries\<close>

lemma isLocked_iff [simp]: "isLocked u \<longleftrightarrow> u \<noteq> []"
  by (simp add: isLocked_def)

lemma Granted_isLocked_iff [simp]: "Granted_isLocked g \<longleftrightarrow> lockUID g \<noteq> []"
  by (simp add: Granted_isLocked_def)

lemma count_locked_filter: "count_locked us c = c + int (length (filter isLocked us))"
  by (induction us arbitrary: c) auto

lemma quorumMet_iff:
  "quorumMet locks rd (dquorum ds) (dquorumReads ds) \<longleftrightarrow>
    quorum_of ds rd \<le> int (length (filter isLocked locks))"
  by (simp add: quorumMet_def count_locked_filter quorum_of_def)

lemma quorumMet_card:
  "quorumMet locks rd (dquorum ds) (dquorumReads ds) \<longleftrightarrow>
    quorum_of ds rd \<le> int (card (idx_where (\<lambda>u. u \<noteq> []) locks))"
  by (simp add: quorumMet_iff length_filter_conv_card)

text \<open>The nodes two lock arrays both have a lock at.\<close>

definition shared_nodes :: "string list \<Rightarrow> string list \<Rightarrow> nat set" where
  "shared_nodes locks locks' = {k. k < length locks \<and> isLocked (locks ! k) \<and> isLocked (locks' ! k)}"

lemma quorums_share:
  assumes "length locks = n" and "length locks' = n"
    and "quorumMet locks False (dquorum ds) (dquorumReads ds)" and "quorumMet locks' rd (dquorum ds) (dquorumReads ds)"
  shows "quorum_of ds False + quorum_of ds rd - int n \<le> int (card (shared_nodes locks locks'))"
proof -
  let ?A = "idx_where (\<lambda>u. u \<noteq> []) locks" and ?B = "idx_where (\<lambda>u. u \<noteq> []) locks'"
  have "?A \<inter> ?B = shared_nodes locks locks'" using assms(1,2) by (auto simp: shared_nodes_def)
  moreover have "card ?A + card ?B = card (?A \<union> ?B) + card (?A \<inter> ?B)" by (intro card_Un_Int) simp_all
  moreover have "card (?A \<union> ?B) \<le> card {..<n}" using assms(1,2) by (intro card_mono) auto
  ultimately have "card ?A + card ?B \<le> n + card (shared_nodes locks locks')" by simp
  then show ?thesis using assms(3,4) unfolding quorumMet_card by linarith
qed

lemma quorums_share_exactly:
  assumes "1 \<le> quorum_of ds False" and "quorum_of ds False \<le> int n" and "1 \<le> quorum_of ds rd" and "quorum_of ds rd \<le> int n"
    and "int n \<le> quorum_of ds False + quorum_of ds rd"
  shows "\<exists>locks locks'. length locks = n \<and> length locks' = n \<and> quorumMet locks False (dquorum ds) (dquorumReads ds) \<and>
    quorumMet locks' rd (dquorum ds) (dquorumReads ds) \<and>
    int (card (shared_nodes locks locks')) = quorum_of ds False + quorum_of ds rd - int n"
proof -
  define p where "p = nat (quorum_of ds False)"
  define q where "q = nat (quorum_of ds rd)"
  have p: "quorum_of ds False = int p" "p \<le> n" and q: "quorum_of ds rd = int q" "q \<le> n" "n \<le> p + q"
    using assms by (simp_all add: p_def q_def)
  define locks where "locks = map (\<lambda>k. if k < p then ''x'' else []) [0..<n]"
  define locks' where "locks' = map (\<lambda>k. if n - q \<le> k then ''x'' else []) [0..<n]"
  have "idx_where (\<lambda>u. u \<noteq> []) locks = {..<p}" "idx_where (\<lambda>u. u \<noteq> []) locks' = {n - q..<n}"
    "shared_nodes locks locks' = {n - q..<p}"
    using p(2) q by (auto simp: locks_def locks'_def shared_nodes_def split: if_splits)
  moreover have "length locks = n" "length locks' = n" by (simp_all add: locks_def locks'_def)
  ultimately show ?thesis using p q by (intro exI[of _ locks] exI[of _ locks']) (simp add: quorumMet_card of_nat_diff)
qed

text \<open>(C6) The quorums of \<open>New\<close> intersect, for every number of nodes it accepts: a lock array that meets the write quorum
  and one that meets the quorum of either kind of lock have a node in common, and two write quorums of an even number
  of nodes have two. The bound is attained: there are arrays that meet the quorums and share no more.\<close>

theorem quorums_intersect:
  assumes "New clnts = Inr ds" and "common = (if \<not> rd \<and> even (length clnts) then 2 else 1)"
  shows "(\<forall>locks locks'. length locks = length clnts \<and> length locks' = length clnts \<and>
      quorumMet locks False (dquorum ds) (dquorumReads ds) \<and> quorumMet locks' rd (dquorum ds) (dquorumReads ds) \<longrightarrow>
      common \<le> card (shared_nodes locks locks')) \<and>
    (\<exists>locks locks'. length locks = length clnts \<and> length locks' = length clnts \<and>
      quorumMet locks False (dquorum ds) (dquorumReads ds) \<and> quorumMet locks' rd (dquorum ds) (dquorumReads ds) \<and>
      card (shared_nodes locks locks') = common)"
proof -
  let ?n = "length clnts"
  have q: "2 \<le> ?n" "quorum_of ds False = int ?n div 2 + 1" "quorum_of ds True = (int ?n + 1) div 2"
    using assms(1) unfolding New_Inr_iff by (auto simp: quorum_of_def)
  have common: "quorum_of ds False + quorum_of ds rd - int ?n = int common"
    using q(2,3) assms(2) by (cases rd) (auto elim!: evenE oddE)
  have "1 \<le> quorum_of ds False" "quorum_of ds False \<le> int ?n" "1 \<le> quorum_of ds rd" "quorum_of ds rd \<le> int ?n"
    using q by (cases rd; simp; presburger)+
  from quorums_share_exactly[OF this] common show ?thesis
    using quorums_share[where ds = ds and rd = rd and n = ?n] by (intro conjI allI impI) (force, auto)
qed

theorem quorums_intersect_witness:
  "\<exists>ds. New [10, 11, 12, 13] = Inr ds \<and> 2 \<le> card (shared_nodes [''a'', ''a'', ''a'', []] [[], ''b'', ''b'', ''b''])"
proof -
  let ?ds = "\<lparr>dNodeCount = 4, restClnts = [10, 11, 12, 13], dquorum = 3, dquorumReads = 2\<rparr>"
  have n: "New [10, 11, 12, 13] = Inr ?ds" by (simp add: New_Inr_iff)
  have "quorumMet [''a'', ''a'', ''a'', []] False 3 2" "quorumMet [[], ''b'', ''b'', ''b''] False 3 2"
    by (simp_all add: quorumMet_def)
  with quorums_intersect[OF n, of 2 False] n show ?thesis by auto
qed

lemma quorumMet_empty:
  "dsync_ok ds \<Longrightarrow> \<not> quorumMet (replicate n []) rd (dquorum ds) (dquorumReads ds)"
  using quorum_of_pos[of ds rd] by (simp add: quorumMet_iff)

lemma too_many_failed_iff:
  "too_many_failed ds rd f \<longleftrightarrow> dNodeCount ds - quorum_of ds rd < f"
  by (auto simp: too_many_failed_def quorum_of_def)

subsection \<open>Release loops\<close>

definition rel_node :: "'c NetLocker \<Rightarrow> string \<Rightarrow> bool \<Rightarrow> string \<Rightarrow> 'c \<Rightarrow> 'c" where
  "rel_node nl nm rd u c = snd (nl (release_method rd) \<lparr>UID = u, Resource = nm, Source = []\<rparr> c)"

lemma sendRelease_eq: "sendRelease nl c nm u rd st = st(c := rel_node nl nm rd u (st c))"
  by (simp add: sendRelease_def rel_node_def)

text \<open>A loop that updates the object behind one reference of a list of distinct references after
  the other updates each object once.\<close>

definition node_step :: "ref list \<Rightarrow> (nat \<Rightarrow> 'c \<Rightarrow> 'c) \<Rightarrow> nat \<Rightarrow> 'c store \<Rightarrow> 'c store" where
  "node_step refs f k st = st(refs ! k := f k (st (refs ! k)))"

lemma fold_node_step_at:
  assumes "distinct refs" and "distinct ks" and "set ks \<subseteq> {..<length refs}" and "j < length refs"
  shows "fold (node_step refs f) ks st (refs ! j) = (if j \<in> set ks then f j (st (refs ! j)) else st (refs ! j))"
  using assms(2,3)
proof (induction ks arbitrary: st)
  case Nil
  then show ?case by simp
next
  case (Cons k ks)
  then show ?case
    using assms(1,4) by (auto simp: node_step_def nth_eq_iff_index_eq)
qed

lemma fold_node_step_other:
  assumes "set ks \<subseteq> {..<length refs}" and "r \<notin> set refs"
  shows "fold (node_step refs f) ks st r = st r"
  using assms(1)
proof (induction ks arbitrary: st)
  case Nil
  then show ?case by simp
next
  case (Cons k ks)
  then have "refs ! k \<noteq> r" using assms(2) by force
  with Cons show ?case by (simp add: node_step_def)
qed

definition rel_entry :: "'c NetLocker \<Rightarrow> string \<Rightarrow> bool \<Rightarrow> string list \<Rightarrow> nat \<Rightarrow> 'c \<Rightarrow> 'c" where
  "rel_entry nl nm rd locks k c = (if locks ! k \<noteq> [] then rel_node nl nm rd (locks ! k) c else c)"

definition rel_all :: "'c NetLocker \<Rightarrow> Dsync \<Rightarrow> string \<Rightarrow> bool \<Rightarrow> string list \<Rightarrow> 'c store \<Rightarrow> 'c store" where
  "rel_all nl ds nm rd locks =
     fold (node_step (restClnts ds) (rel_entry nl nm rd locks)) [0..<length (restClnts ds)]"

lemma rel_all_at:
  "distinct (restClnts ds) \<Longrightarrow> k < length (restClnts ds) \<Longrightarrow>
    rel_all nl ds nm rd locks st (restClnts ds ! k) = rel_entry nl nm rd locks k (st (restClnts ds ! k))"
  unfolding rel_all_def by (subst fold_node_step_at) auto

lemma rel_all_other: "r \<notin> set (restClnts ds) \<Longrightarrow> rel_all nl ds nm rd locks st r = st r"
  unfolding rel_all_def by (rule fold_node_step_other) auto

lemma sendRelease_node_step:
  "(if locks ! k \<noteq> [] then sendRelease nl (restClnts ds ! k) nm (locks ! k) rd st else st) =
    node_step (restClnts ds) (rel_entry nl nm rd locks) k st"
  by (simp add: sendRelease_eq node_step_def rel_entry_def)

lemma releaseAll_prefix:
  assumes "m \<le> length locks"
  shows "fold (releaseAll_body nl ds nm rd) [0..<m] (locks, st) =
    (replicate m [] @ drop m locks,
     fold (node_step (restClnts ds) (rel_entry nl nm rd locks)) [0..<m] st)"
  using assms
proof (induction m)
  case 0
  then show ?case by simp
next
  case (Suc m)
  then have drop: "drop m locks = locks ! m # drop (Suc m) locks" by (simp add: Cons_nth_drop_Suc)
  let ?st = "fold (node_step (restClnts ds) (rel_entry nl nm rd locks)) [0..<m] st"
  have "releaseAll_body nl ds nm rd m (replicate m [] @ drop m locks, ?st) =
    (replicate (Suc m) [] @ drop (Suc m) locks,
     node_step (restClnts ds) (rel_entry nl nm rd locks) m ?st)"
    by (cases "locks ! m = []")
       (simp_all add: releaseAll_body_def drop nth_append list_update_append
          replicate_append_same[symmetric] flip: sendRelease_node_step)
  with Suc show ?case by simp
qed

lemma releaseAll_eq:
  assumes "dNodeCount ds = int (length (restClnts ds))" and "length locks = length (restClnts ds)"
  shows "releaseAll nl ds locks nm rd st =
    (replicate (length (restClnts ds)) [], rel_all nl ds nm rd locks st)"
  using assms releaseAll_prefix[of "length (restClnts ds)" locks nl ds nm rd st]
  by (simp add: releaseAll_def rel_all_def)

lemma unlock_eq: "unlock nl ds locks nm rd st = rel_all nl ds nm rd locks st"
proof -
  have "fold (unlock_body nl locks nm rd) (enumerate 0 (take m (restClnts ds))) st =
    fold (node_step (restClnts ds) (rel_entry nl nm rd locks)) [0..<m] st"
    if "m \<le> length (restClnts ds)" for m
    using that
    by (induction m)
       (simp_all add: take_Suc_conv_app_nth enumerate_append_eq unlock_body_def
          flip: sendRelease_node_step)
  from this[of "length (restClnts ds)"] show ?thesis
    by (simp add: unlock_def rel_all_def)
qed

subsection \<open>The collector\<close>

text \<open>The effect of received grants on the lock array, and the number of refusals among them.\<close>

definition apply_grants :: "Granted list \<Rightarrow> string list \<Rightarrow> string list" where
  "apply_grants ch locks =
     fold (\<lambda>g ls. if Granted_isLocked g then ls[index g := lockUID g] else ls) ch locks"

definition fails :: "Granted list \<Rightarrow> int" where
  "fails ch = int (length (filter (\<lambda>g. lockUID g = []) ch))"

lemma apply_grants_simps [simp]:
  "apply_grants [] locks = locks"
  "apply_grants (g # ch) locks =
     apply_grants ch (if lockUID g \<noteq> [] then locks[index g := lockUID g] else locks)"
  by (simp_all add: apply_grants_def)

lemma fails_simps [simp]:
  "fails [] = 0"
  "fails (g # ch) = (if lockUID g = [] then 1 else 0) + fails ch"
  by (simp_all add: fails_def)

lemma length_apply_grants [simp]: "length (apply_grants ch locks) = length locks"
  by (induction ch arbitrary: locks) auto

text \<open>How the collector ends: it has received a prefix of the channel; either it keeps what that
  prefix granted, and then the timer fired with a quorum or the channel is exhausted; or it
  releases everything, and then the timer fired without a quorum or too many nodes refused.\<close>

definition keeps :: "Dsync \<Rightarrow> bool \<Rightarrow> nat option \<Rightarrow> Granted list \<Rightarrow> Granted list \<Rightarrow> string list \<Rightarrow> int \<Rightarrow> bool" where
  "keeps ds rd timer pre rest locks f \<longleftrightarrow>
     (rest = [] \<and> (\<forall>t. timer = Some t \<longrightarrow> length pre \<le> t) \<or>
      timer = Some (length pre) \<and> quorumMet (apply_grants pre locks) rd (dquorum ds) (dquorumReads ds))
     \<and> \<not> too_many_failed ds rd (f + fails pre)"

definition gives_up :: "Dsync \<Rightarrow> bool \<Rightarrow> nat option \<Rightarrow> Granted list \<Rightarrow> string list \<Rightarrow> int \<Rightarrow> bool" where
  "gives_up ds rd timer pre locks f \<longleftrightarrow>
     timer = Some (length pre) \<and> \<not> quorumMet (apply_grants pre locks) rd (dquorum ds) (dquorumReads ds)
     \<or> too_many_failed ds rd (f + fails pre) \<and> (\<forall>t. timer = Some t \<longrightarrow> length pre \<le> t)"

lemma collect_loop_ends:
  assumes "i + int (length ch) = dNodeCount ds" and "\<not> too_many_failed ds rd f"
  shows "\<exists>pre rest. ch = pre @ rest \<and>
    (keeps ds rd timer pre rest locks f \<and>
       collect_loop nl ds nm rd timer ch i f locks st = (i + int (length pre), rest, apply_grants pre locks, st)
     \<or> gives_up ds rd timer pre locks f \<and>
       collect_loop nl ds nm rd timer ch i f locks st =
         (i + int (length pre), rest, releaseAll nl ds (apply_grants pre locks) nm rd st))"
  using assms
proof (induction ch arbitrary: i f locks timer)
  case Nil
  then show ?case by (simp add: keeps_def)
next
  case (Cons g ch)
  have lt: "i < dNodeCount ds" using Cons.prems(1) by simp
  let ?timer = "map_option (\<lambda>t. t - 1) timer"
  let ?locks = "if lockUID g \<noteq> [] then locks[index g := lockUID g] else locks"
  let ?f = "if lockUID g = [] then f + 1 else f"
  consider (fires) "timer = Some 0" | (refused) "timer \<noteq> Some 0" "too_many_failed ds rd ?f"
    | (goes_on) "timer \<noteq> Some 0" "\<not> too_many_failed ds rd ?f" by blast
  then show ?case
  proof cases
    case fires
    then show ?thesis
      using lt Cons.prems(2)
      by (intro exI[of _ "[]"] exI[of _ "g # ch"])
         (auto simp: keeps_def gives_up_def collect_timeout_def)
  next
    case refused
    with Cons.prems(2) have "lockUID g = []" by (auto split: if_splits)
    with refused lt show ?thesis
      by (intro exI[of _ "[g]"] exI[of _ ch])
         (auto simp: gives_up_def Suc_le_eq add.commute)
  next
    case goes_on
    have t: "(timer = Some (Suc m)) = (?timer = Some m)" for m
      using goes_on(1) by (cases timer) auto
    have le: "(\<forall>t. timer = Some t \<longrightarrow> Suc m \<le> t) = (\<forall>t. ?timer = Some t \<longrightarrow> m \<le> t)" for m
      using goes_on(1) by (cases timer) auto
    have step: "collect_loop nl ds nm rd timer (g # ch) i f locks st =
        collect_loop nl ds nm rd ?timer ch (i + 1) ?f ?locks st"
      using goes_on lt by (cases "lockUID g = []") simp_all
    obtain pre rest where IH: "ch = pre @ rest"
      "keeps ds rd ?timer pre rest ?locks ?f \<and>
         collect_loop nl ds nm rd ?timer ch (i + 1) ?f ?locks st =
           (i + 1 + int (length pre), rest, apply_grants pre ?locks, st)
       \<or> gives_up ds rd ?timer pre ?locks ?f \<and>
         collect_loop nl ds nm rd ?timer ch (i + 1) ?f ?locks st =
           (i + 1 + int (length pre), rest, releaseAll nl ds (apply_grants pre ?locks) nm rd st)"
      using Cons.IH[of "i + 1" ?f ?timer ?locks] goes_on(2) Cons.prems(1) by auto
    have f: "?f + fails pre = f + fails (g # pre)" by simp
    show ?thesis
      by (rule exI[of _ "g # pre"], rule exI[of _ rest])
         (use IH step f in \<open>auto simp: keeps_def gives_up_def t le simp del: fails_simps collect_loop.simps\<close>)
  qed
qed

subsection \<open>The broadcast and the drain\<close>

text \<open>What node \<open>k\<close> answers to the request and the state it is in afterwards.\<close>

definition grants :: "'c NetLocker \<Rightarrow> Dsync \<Rightarrow> string \<Rightarrow> string \<Rightarrow> string \<Rightarrow> bool \<Rightarrow> 'c store \<Rightarrow> nat \<Rightarrow> bool" where
  "grants nl ds nm ident source rd st k \<longleftrightarrow>
     fst (fst (nl (lock_method rd) \<lparr>UID = ident, Resource = nm, Source = source\<rparr> (st (restClnts ds ! k))))"

definition after_lock :: "'c NetLocker \<Rightarrow> string \<Rightarrow> string \<Rightarrow> string \<Rightarrow> bool \<Rightarrow> nat \<Rightarrow> 'c \<Rightarrow> 'c" where
  "after_lock nl nm ident source rd k c =
     snd (nl (lock_method rd) \<lparr>UID = ident, Resource = nm, Source = source\<rparr> c)"

abbreviation grant_msg :: "(nat \<Rightarrow> bool) \<Rightarrow> string \<Rightarrow> nat \<Rightarrow> Granted" where
  "grant_msg G u k \<equiv> \<lparr>index = k, lockUID = (if G k then u else [])\<rparr>"

lemma lock_goroutine_eq:
  "lock_goroutine nl ds nm ident source rd k st =
    (grant_msg (grants nl ds nm ident source rd st) ident k,
     node_step (restClnts ds) (after_lock nl nm ident source rd) k st)"
  by (simp add: lock_goroutine_def grants_def after_lock_def node_step_def invoke_def Let_def
      case_prod_unfold)

lemma broadcast_eq:
  assumes "distinct (restClnts ds)" and "distinct ks" and "set ks \<subseteq> {..<length (restClnts ds)}"
  shows "broadcast nl ds nm ident source rd ks st =
    (map (grant_msg (grants nl ds nm ident source rd st) ident) ks,
     fold (node_step (restClnts ds) (after_lock nl nm ident source rd)) ks st)"
  using assms(2,3)
proof (induction ks arbitrary: st)
  case Nil
  then show ?case by simp
next
  case (Cons k ks)
  let ?st = "node_step (restClnts ds) (after_lock nl nm ident source rd) k st"
  have same: "grants nl ds nm ident source rd ?st j = grants nl ds nm ident source rd st j"
    if "j \<in> set ks" for j
    using that Cons.prems assms(1) by (auto simp: grants_def node_step_def nth_eq_iff_index_eq)
  show ?case
    using Cons.IH[of ?st] Cons.prems by (simp add: lock_goroutine_eq same cong: map_cong)
qed

lemma apply_grants_nth:
  assumes "distinct ks" and "set ks \<subseteq> {..<length locks}" and "k < length locks"
  shows "apply_grants (map (grant_msg G u) ks) locks ! k =
    (if k \<in> set ks \<and> G k then if u = [] then locks ! k else u else locks ! k)"
  using assms(1,2,3)
  by (induction ks arbitrary: locks) (auto simp: nth_list_update)

lemma drain_loop_eq:
  assumes "i + int (length ks) = dNodeCount ds" and "u \<noteq> []"
  shows "drain_loop nl ds nm rd (map (grant_msg G u) ks) i st =
    fold (node_step (restClnts ds) (\<lambda>k c. if G k then rel_node nl nm rd u c else c)) ks st"
  using assms(1)
proof (induction ks arbitrary: i st)
  case Nil
  then show ?case by simp
next
  case (Cons k ks)
  let ?f = "\<lambda>k c. if G k then rel_node nl nm rd u c else c"
  have "G k \<Longrightarrow> node_step (restClnts ds) ?f k st = sendRelease nl (restClnts ds ! k) nm u rd st"
    and "\<not> G k \<Longrightarrow> node_step (restClnts ds) ?f k st = st"
    by (simp_all add: sendRelease_eq node_step_def)
  with Cons assms(2) show ?case by (cases "G k") simp_all
qed

lemma count_granted:
  assumes "distinct ks" and "set ks \<subseteq> {..<n}" and "u \<noteq> []"
  shows "length (filter isLocked (apply_grants (map (grant_msg G u) ks) (replicate n []))) =
    length (filter G ks)"
proof -
  let ?L = "apply_grants (map (grant_msg G u) ks) (replicate n [])"
  have nth: "?L ! k = (if k \<in> set ks \<and> G k then u else [])" if "k < n" for k
    using apply_grants_nth[of ks "replicate n []" k G u] assms that by auto
  have "k < n" if "k \<in> set ks" for k using that assms(2) by auto
  then have "{k. k < length ?L \<and> isLocked (?L ! k)} = set (filter G ks)"
    using assms(3) by (auto simp: nth split: if_splits)
  then have "length (filter isLocked ?L) = card (set (filter G ks))"
    by (simp only: length_filter_conv_card)
  also have "\<dots> = length (filter G ks)" using assms(1) by (intro distinct_card) simp
  finally show ?thesis .
qed

lemma fails_granted: "u \<noteq> [] \<Longrightarrow> fails (map (grant_msg G u) ks) = int (length ks) - int (length (filter G ks))"
  by (induction ks) auto

subsection \<open>The contract of lock\<close>

text \<open>The replies the collector waits for: all of them, or those before the timer fires.\<close>

definition waited :: "nat option \<Rightarrow> nat list \<Rightarrow> nat list" where
  "waited timer ks = (case timer of None \<Rightarrow> ks | Some t \<Rightarrow> take t ks)"

text \<open>The collector over the replies of a broadcast keeps the grants of a prefix or gives up.\<close>

abbreviation all_replies :: "Dsync \<Rightarrow> nat list \<Rightarrow> bool" where
  "all_replies ds ks \<equiv> distinct ks \<and> set ks = {..<length (restClnts ds)}"

lemma waited_prefix: "timer = Some (length pre) \<Longrightarrow> waited timer (pre @ rest) = pre"
  and waited_all: "\<forall>t. timer = Some t \<longrightarrow> length ks \<le> t \<Longrightarrow> waited timer ks = ks"
  by (auto simp: waited_def split: option.splits)

lemma filter_waited_le: "length (filter G (waited timer ks)) \<le> length (filter G ks)"
proof (cases timer)
  case (Some t)
  have "length (filter G ks) = length (filter G (take t ks)) + length (filter G (drop t ks))"
    by (metis append_take_drop_id filter_append length_append)
  with Some show ?thesis by (simp add: waited_def)
qed (simp add: waited_def)

lemma fails_append: "fails (xs @ ys) = fails xs + fails ys"
  by (simp add: fails_def)

lemma fails_nonneg: "0 \<le> fails xs"
  by (simp add: fails_def)

lemma collect_outcome:
  assumes ok: "dsync_ok ds" and u: "u \<noteq> []" and ks: "all_replies ds ks"
  defines "n \<equiv> length (restClnts ds)"
  shows "\<exists>pre rest. ks = pre @ rest \<and>
    (let L = apply_grants (map (grant_msg G u) pre) (replicate n []);
         b = (quorum_of ds rd \<le> int (length (filter G (waited timer ks))))
     in (b \<longrightarrow> pre = waited timer ks \<and> quorumMet L rd (dquorum ds) (dquorumReads ds)) \<and>
        collect_loop nl ds nm rd timer (map (grant_msg G u) ks) 0 0 (replicate n []) st =
          (int (length pre), map (grant_msg G u) rest, if b then (L, st) else releaseAll nl ds L nm rd st))"
proof -
  have n: "dNodeCount ds = int n" using dsync_okD(1)[OF ok] by (simp add: n_def)
  have len: "length ks = n" using ks distinct_card[of ks] by (simp add: n_def)
  have nofail: "\<not> too_many_failed ds rd 0"
    using quorum_of_le[OF ok, of rd] by (simp add: too_many_failed_iff)
  obtain gpre grest where g: "map (grant_msg G u) ks = gpre @ grest"
    and ends: "keeps ds rd timer gpre grest (replicate n []) 0 \<and>
       collect_loop nl ds nm rd timer (map (grant_msg G u) ks) 0 0 (replicate n []) st =
         (int (length gpre), grest, apply_grants gpre (replicate n []), st)
     \<or> gives_up ds rd timer gpre (replicate n []) 0 \<and>
       collect_loop nl ds nm rd timer (map (grant_msg G u) ks) 0 0 (replicate n []) st =
         (int (length gpre), grest, releaseAll nl ds (apply_grants gpre (replicate n [])) nm rd st)"
    using collect_loop_ends[of 0 "map (grant_msg G u) ks" ds rd 0 timer "replicate n []" nl nm st]
      n len nofail by auto
  obtain pre rest where pr: "ks = pre @ rest" "gpre = map (grant_msg G u) pre" "grest = map (grant_msg G u) rest"
    using g by (auto simp: map_eq_append_conv)
  have cnt: "length (filter isLocked (apply_grants gpre (replicate n []))) = length (filter G pre)"
    unfolding pr(2) using ks u pr(1) by (intro count_granted) (auto simp: n_def)
  have fl: "fails gpre = int (length pre) - int (length (filter G pre))"
    unfolding pr(2) using u by (rule fails_granted)
  have le: "length (filter G (waited timer ks)) \<le> length (filter G ks)"
    by (rule filter_waited_le)
  have all: "int (length (filter G ks)) \<le> int n - fails gpre"
  proof -
    have "n = length pre + length rest" using len by (simp add: pr(1))
    moreover have "length (filter G ks) = length (filter G pre) + length (filter G rest)"
      by (simp add: pr(1))
    ultimately show ?thesis using fl length_filter_le[of G rest] by linarith
  qed
  have qm: "quorumMet (apply_grants gpre (replicate n [])) rd (dquorum ds) (dquorumReads ds) =
      (quorum_of ds rd \<le> int (length (filter G pre)))"
    by (simp add: quorumMet_iff cnt)
  have lg: "length gpre = length pre" "grest = [] \<longleftrightarrow> rest = []" by (simp_all add: pr(2,3))
  have whole: "rest = [] \<Longrightarrow> pre = ks" by (simp add: pr(1))
  from ends show ?thesis
  proof (elim disjE conjE)
    assume k: "keeps ds rd timer gpre grest (replicate n []) 0"
      and run: "collect_loop nl ds nm rd timer (map (grant_msg G u) ks) 0 0 (replicate n []) st =
         (int (length gpre), grest, apply_grants gpre (replicate n []), st)"
    have w: "pre = waited timer ks" and b: "quorum_of ds rd \<le> int (length (filter G pre))"
      using k len fl whole waited_prefix[of timer pre rest, folded pr(1)] waited_all[of timer ks]
      by (auto simp: keeps_def qm lg too_many_failed_iff n)
    show ?thesis
      using run b
      by (intro exI[of _ pre] exI[of _ rest])
         (simp add: Let_def pr[symmetric] w[symmetric] lg qm)
  next
    assume k: "gives_up ds rd timer gpre (replicate n []) 0"
      and run: "collect_loop nl ds nm rd timer (map (grant_msg G u) ks) 0 0 (replicate n []) st =
         (int (length gpre), grest, releaseAll nl ds (apply_grants gpre (replicate n [])) nm rd st)"
    have b: "\<not> quorum_of ds rd \<le> int (length (filter G (waited timer ks)))"
      using k le all waited_prefix[of timer pre rest, folded pr(1)]
      by (auto simp: gives_up_def qm lg too_many_failed_iff n)
    show ?thesis
      using run b
      by (intro exI[of _ pre] exI[of _ rest]) (simp add: Let_def pr[symmetric] lg)
  qed
qed

lemma lock_eq:
  fixes nl :: "'c NetLocker" and nm source :: string and rd :: bool and st :: "'c store"
  assumes ok: "dsync_ok ds" and u: "ident \<noteq> []" and ks: "all_replies ds ks"
  defines "G \<equiv> grants nl ds nm ident source rd st" and "n \<equiv> length (restClnts ds)"
  obtains pre rest where "ks = pre @ rest"
    "quorum_of ds rd \<le> int (length (filter G (waited timer ks))) \<longrightarrow> pre = waited timer ks"
    "lock nl ds (replicate n []) nm ident source rd ks timer st =
      (let L = apply_grants (map (grant_msg G ident) pre) (replicate n []);
           st1 = fold (node_step (restClnts ds) (after_lock nl nm ident source rd)) ks st;
           late = fold (node_step (restClnts ds) (\<lambda>k c. if G k then rel_node nl nm rd ident c else c)) rest
       in if quorum_of ds rd \<le> int (length (filter G (waited timer ks)))
          then (True, L, late st1)
          else (False, replicate n [], late (rel_all nl ds nm rd L st1)))"
proof -
  have n: "dNodeCount ds = int n" using dsync_okD(1)[OF ok] by (simp add: n_def)
  have len: "length ks = n" using ks distinct_card[of ks] by (simp add: n_def)
  have b: "broadcast nl ds nm ident source rd ks st =
    (map (grant_msg G ident) ks, fold (node_step (restClnts ds) (after_lock nl nm ident source rd)) ks st)"
    unfolding G_def using dsync_okD(6)[OF ok] ks by (intro broadcast_eq) auto
  obtain pre rest where pr: "ks = pre @ rest"
    and out: "let L = apply_grants (map (grant_msg G ident) pre) (replicate n []);
         b = (quorum_of ds rd \<le> int (length (filter G (waited timer ks))))
     in (b \<longrightarrow> pre = waited timer ks \<and> quorumMet L rd (dquorum ds) (dquorumReads ds)) \<and>
        collect_loop nl ds nm rd timer (map (grant_msg G ident) ks) 0 0 (replicate n [])
            (fold (node_step (restClnts ds) (after_lock nl nm ident source rd)) ks st) =
          (int (length pre), map (grant_msg G ident) rest,
           if b then (L, fold (node_step (restClnts ds) (after_lock nl nm ident source rd)) ks st)
           else releaseAll nl ds L nm rd (fold (node_step (restClnts ds) (after_lock nl nm ident source rd)) ks st))"
    using collect_outcome[OF ok u ks, of G rd timer nl nm
        "fold (node_step (restClnts ds) (after_lock nl nm ident source rd)) ks st"]
    unfolding n_def by blast
  have drain: "drain_loop nl ds nm rd (map (grant_msg G ident) rest) (int (length pre)) s =
      fold (node_step (restClnts ds) (\<lambda>k c. if G k then rel_node nl nm rd ident c else c)) rest s" for s
    using len n u by (intro drain_loop_eq) (simp_all add: pr)
  have rel: "releaseAll nl ds (apply_grants (map (grant_msg G ident) pre) (replicate n [])) nm rd s =
    (replicate n [], rel_all nl ds nm rd (apply_grants (map (grant_msg G ident) pre) (replicate n [])) s)" for s
    using releaseAll_eq[of ds "apply_grants (map (grant_msg G ident) pre) (replicate n [])" nl nm rd s] n
    by (simp add: n_def)
  show ?thesis
    by (rule that[OF pr])
       (use out b drain rel quorumMet_empty[OF ok, of n rd] in \<open>auto simp: lock_def Let_def split: if_splits\<close>)
qed

end
