(* ===== verification/Lock_System.thy ===== *)
theory Lock_System
  imports Lock_Attempt
begin

section \<open>The concurrent system: many mutexes, many attempts, lock servers that fail\<close>

text \<open>
  The transition system in which any number of \<^verbatim>\<open>DRWMutex\<close> objects are used by any number of
  goroutines over one cluster. A step is one atomic action of the code: the start of an
  attempt, one RPC handled by a server, one channel operation, one round of a loop of the
  collector, the return of \<open>lock\<close> with the critical section that stores its array, the critical
  section of an unlock, one release RPC, the crash and restart of a server.

  An RPC may be delivered, may be handled while its reply is lost, or may be lost before it is
  handled; in the last two cases the client sees an error. A server that crashes restarts with
  an empty lock map, and \<open>crashed\<close> remembers that it did.
\<close>

subsection \<open>The state of one attempt\<close>

text \<open>A goroutine of the broadcast: in its RPC call, with a reply in hand, finished.\<close>

datatype goroutine = Calling | Replied Granted | Sent

text \<open>Where the collector goroutine is: in its loop, in \<open>releaseAll\<close> at an index, about to
  count the quorum, in the drain loop.\<close>

datatype phase = Collecting | Releasing nat | Deciding | Draining

record lock_run =
  run_dm :: nat
  run_name :: string
  run_id :: string
  run_source :: string
  run_read :: bool
  goroutines :: "goroutine list"
  chan :: "Granted list"
  run_i :: int
  run_failed :: int
  run_locks :: "string list"
  run_phase :: phase
  run_quorum :: "bool option"
  run_returned :: bool

text \<open>The loop of \<open>unlock\<close> over the nodes: \<open>rel_next\<close> is the next index.\<close>

record release_run =
  rel_name :: string
  rel_read :: bool
  rel_locks :: "string list"
  rel_next :: nat

record 's sys =
  servers :: "'s store"
  mutexes :: "DRWMutex list"
  runs :: "lock_run list"
  releases :: "release_run list"
  crashed :: "ref set"

subsection \<open>The network\<close>

datatype fault = Delivered | ReplyLost | RequestLost

definition rpc :: "('e, 's) server \<Rightarrow> fault \<Rightarrow> 'e \<Rightarrow> NetLocker_method \<Rightarrow> LockArgs \<Rightarrow> 's \<Rightarrow> result \<times> 's" where
  "rpc srv f e m args s =
     (case f of Delivered \<Rightarrow> srv e m args s
      | ReplyLost \<Rightarrow> ((False, Some (NetError [])), snd (srv e m args s))
      | RequestLost \<Rightarrow> ((False, Some (NetError [])), s))"

subsection \<open>The actions of one attempt\<close>

definition start_run :: "Dsync \<Rightarrow> nat \<Rightarrow> string \<Rightarrow> string \<Rightarrow> string \<Rightarrow> bool \<Rightarrow> lock_run" where
  "start_run ds j lockName ident source isReadLock =
     \<lparr>run_dm = j, run_name = lockName, run_id = ident, run_source = source, run_read = isReadLock,
      goroutines = replicate (length (restClnts ds)) Calling, chan = [], run_i = 0, run_failed = 0,
      run_locks = replicate (nat (dNodeCount ds)) [], run_phase = Collecting, run_quorum = None,
      run_returned = False\<rparr>"

text \<open>The request of a goroutine, and what it does with the reply.\<close>

definition run_args :: "lock_run \<Rightarrow> LockArgs" where
  "run_args r = \<lparr>UID = run_id r, Resource = run_name r, Source = run_source r\<rparr>"

definition got_reply :: "nat \<Rightarrow> bool \<Rightarrow> lock_run \<Rightarrow> lock_run" where
  "got_reply k locked r = r\<lparr>goroutines := (goroutines r)[k :=
     Replied \<lparr>index = k, lockUID = (if locked then run_id r else [])\<rparr>]\<rparr>"

definition send_grant :: "nat \<Rightarrow> Granted \<Rightarrow> lock_run \<Rightarrow> lock_run" where
  "send_grant k g r = r\<lparr>goroutines := (goroutines r)[k := Sent], chan := chan r @ [g]\<rparr>"

text \<open>One round of the collector's loop that receives a grant.\<close>

definition recv_grant :: "Dsync \<Rightarrow> Granted \<Rightarrow> Granted list \<Rightarrow> lock_run \<Rightarrow> lock_run" where
  "recv_grant ds grant ch r =
     (if Granted_isLocked grant
      then r\<lparr>chan := ch, run_i := run_i r + 1, run_locks := (run_locks r)[index grant := lockUID grant]\<rparr>
      else if too_many_failed ds (run_read r) (run_failed r + 1)
      then r\<lparr>chan := ch, run_i := run_i r + 1, run_failed := run_failed r + 1, run_phase := Releasing 0\<rparr>
      else r\<lparr>chan := ch, run_i := run_i r + 1, run_failed := run_failed r + 1\<rparr>)"

text \<open>The round in which the timer fires.\<close>

definition timer_fires :: "Dsync \<Rightarrow> lock_run \<Rightarrow> lock_run" where
  "timer_fires ds r =
     (if \<not> quorumMet (run_locks r) (run_read r) (dquorum ds) (dquorumReads ds)
      then r\<lparr>run_phase := Releasing 0\<rparr> else r\<lparr>run_phase := Deciding\<rparr>)"

definition release_args :: "string \<Rightarrow> string \<Rightarrow> LockArgs" where
  "release_args nm u = \<lparr>UID = u, Resource = nm, Source = []\<rparr>"

text \<open>Index \<open>k\<close> of \<open>releaseAll\<close> is done.\<close>

definition released_one :: "nat \<Rightarrow> lock_run \<Rightarrow> lock_run" where
  "released_one k r = r\<lparr>run_locks := (run_locks r)[k := []], run_phase := Releasing (Suc k)\<rparr>"

definition decide :: "Dsync \<Rightarrow> lock_run \<Rightarrow> lock_run" where
  "decide ds r = r\<lparr>run_quorum := Some (quorumMet (run_locks r) (run_read r) (dquorum ds) (dquorumReads ds)),
                   run_phase := Draining\<rparr>"

definition drained_one :: "Granted list \<Rightarrow> lock_run \<Rightarrow> lock_run" where
  "drained_one ch r = r\<lparr>chan := ch, run_i := run_i r + 1\<rparr>"

subsection \<open>The steps of the system\<close>

inductive sys_step :: "('e, 's) server \<Rightarrow> 's \<Rightarrow> Dsync \<Rightarrow> 's sys \<Rightarrow> 's sys \<Rightarrow> bool" for srv init ds where
  start: "j < length (mutexes S) \<Longrightarrow>
    sys_step srv init ds S
      (S\<lparr>runs := runs S @ [start_run ds j (Name (mutexes S ! j)) ident source rd]\<rparr>)"
| call: "p < length (runs S) \<Longrightarrow> r = runs S ! p \<Longrightarrow> k < length (restClnts ds) \<Longrightarrow>
    goroutines r ! k = Calling \<Longrightarrow> c = restClnts ds ! k \<Longrightarrow>
    rpc srv f e (lock_method (run_read r)) (run_args r) (servers S c) = ((locked, err), s') \<Longrightarrow>
    sys_step srv init ds S
      (S\<lparr>servers := (servers S)(c := s'), runs := (runs S)[p := got_reply k locked r]\<rparr>)"
| send: "p < length (runs S) \<Longrightarrow> r = runs S ! p \<Longrightarrow> k < length (restClnts ds) \<Longrightarrow>
    goroutines r ! k = Replied g \<Longrightarrow>
    sys_step srv init ds S (S\<lparr>runs := (runs S)[p := send_grant k g r]\<rparr>)"
| recv: "p < length (runs S) \<Longrightarrow> r = runs S ! p \<Longrightarrow> run_phase r = Collecting \<Longrightarrow>
    run_i r < dNodeCount ds \<Longrightarrow> chan r = g # ch \<Longrightarrow>
    sys_step srv init ds S (S\<lparr>runs := (runs S)[p := recv_grant ds g ch r]\<rparr>)"
| timeout: "p < length (runs S) \<Longrightarrow> r = runs S ! p \<Longrightarrow> run_phase r = Collecting \<Longrightarrow>
    run_i r < dNodeCount ds \<Longrightarrow>
    sys_step srv init ds S (S\<lparr>runs := (runs S)[p := timer_fires ds r]\<rparr>)"
| loop_end: "p < length (runs S) \<Longrightarrow> r = runs S ! p \<Longrightarrow> run_phase r = Collecting \<Longrightarrow>
    \<not> run_i r < dNodeCount ds \<Longrightarrow>
    sys_step srv init ds S (S\<lparr>runs := (runs S)[p := r\<lparr>run_phase := Deciding\<rparr>]\<rparr>)"
| rel_locked: "p < length (runs S) \<Longrightarrow> r = runs S ! p \<Longrightarrow> run_phase r = Releasing k \<Longrightarrow>
    k < nat (dNodeCount ds) \<Longrightarrow> isLocked (run_locks r ! k) \<Longrightarrow> c = restClnts ds ! k \<Longrightarrow>
    s' = snd (rpc srv f e (release_method (run_read r)) (release_args (run_name r) (run_locks r ! k)) (servers S c)) \<Longrightarrow>
    sys_step srv init ds S
      (S\<lparr>servers := (servers S)(c := s'), runs := (runs S)[p := released_one k r]\<rparr>)"
| rel_skip: "p < length (runs S) \<Longrightarrow> r = runs S ! p \<Longrightarrow> run_phase r = Releasing k \<Longrightarrow>
    k < nat (dNodeCount ds) \<Longrightarrow> \<not> isLocked (run_locks r ! k) \<Longrightarrow>
    sys_step srv init ds S (S\<lparr>runs := (runs S)[p := r\<lparr>run_phase := Releasing (Suc k)\<rparr>]\<rparr>)"
| rel_end: "p < length (runs S) \<Longrightarrow> r = runs S ! p \<Longrightarrow> run_phase r = Releasing k \<Longrightarrow>
    \<not> k < nat (dNodeCount ds) \<Longrightarrow>
    sys_step srv init ds S (S\<lparr>runs := (runs S)[p := r\<lparr>run_phase := Deciding\<rparr>]\<rparr>)"
| decided: "p < length (runs S) \<Longrightarrow> r = runs S ! p \<Longrightarrow> run_phase r = Deciding \<Longrightarrow>
    sys_step srv init ds S (S\<lparr>runs := (runs S)[p := decide ds r]\<rparr>)"
| drain_locked: "p < length (runs S) \<Longrightarrow> r = runs S ! p \<Longrightarrow> run_phase r = Draining \<Longrightarrow>
    run_i r < dNodeCount ds \<Longrightarrow> chan r = g # ch \<Longrightarrow> Granted_isLocked g \<Longrightarrow> c = restClnts ds ! index g \<Longrightarrow>
    s' = snd (rpc srv f e (release_method (run_read r)) (release_args (run_name r) (lockUID g)) (servers S c)) \<Longrightarrow>
    sys_step srv init ds S
      (S\<lparr>servers := (servers S)(c := s'), runs := (runs S)[p := drained_one ch r]\<rparr>)"
| drain_skip: "p < length (runs S) \<Longrightarrow> r = runs S ! p \<Longrightarrow> run_phase r = Draining \<Longrightarrow>
    run_i r < dNodeCount ds \<Longrightarrow> chan r = g # ch \<Longrightarrow> \<not> Granted_isLocked g \<Longrightarrow>
    sys_step srv init ds S (S\<lparr>runs := (runs S)[p := drained_one ch r]\<rparr>)"
| return: "p < length (runs S) \<Longrightarrow> r = runs S ! p \<Longrightarrow> run_quorum r = Some q \<Longrightarrow> \<not> run_returned r \<Longrightarrow>
    \<forall>x \<in> set (goroutines r). x = Sent \<Longrightarrow> j = run_dm r \<Longrightarrow>
    sys_step srv init ds S
      (S\<lparr>runs := (runs S)[p := r\<lparr>run_returned := True\<rparr>],
         mutexes := (if q then (mutexes S)[j := store_locks (run_read r) (run_locks r) (mutexes S ! j)]
                     else mutexes S)\<rparr>)"
| unlock_w: "j < length (mutexes S) \<Longrightarrow> take_write_locks (mutexes S ! j) = Inr (locks, dm') \<Longrightarrow>
    sys_step srv init ds S
      (S\<lparr>mutexes := (mutexes S)[j := dm'],
         releases := releases S @ [\<lparr>rel_name = Name (mutexes S ! j), rel_read = False, rel_locks = locks, rel_next = 0\<rparr>]\<rparr>)"
| unlock_r: "j < length (mutexes S) \<Longrightarrow> take_reader_locks (mutexes S ! j) = Inr (locks, dm') \<Longrightarrow>
    sys_step srv init ds S
      (S\<lparr>mutexes := (mutexes S)[j := dm'],
         releases := releases S @ [\<lparr>rel_name = Name (mutexes S ! j), rel_read = True, rel_locks = locks, rel_next = 0\<rparr>]\<rparr>)"
| unlock_send: "p < length (releases S) \<Longrightarrow> x = releases S ! p \<Longrightarrow> rel_next x < length (restClnts ds) \<Longrightarrow>
    isLocked (rel_locks x ! rel_next x) \<Longrightarrow> c = restClnts ds ! rel_next x \<Longrightarrow>
    s' = snd (rpc srv f e (release_method (rel_read x)) (release_args (rel_name x) (rel_locks x ! rel_next x)) (servers S c)) \<Longrightarrow>
    sys_step srv init ds S
      (S\<lparr>servers := (servers S)(c := s'), releases := (releases S)[p := x\<lparr>rel_next := Suc (rel_next x)\<rparr>]\<rparr>)"
| unlock_skip: "p < length (releases S) \<Longrightarrow> x = releases S ! p \<Longrightarrow> rel_next x < length (restClnts ds) \<Longrightarrow>
    \<not> isLocked (rel_locks x ! rel_next x) \<Longrightarrow>
    sys_step srv init ds S (S\<lparr>releases := (releases S)[p := x\<lparr>rel_next := Suc (rel_next x)\<rparr>]\<rparr>)"
| crash: "c \<in> set (restClnts ds) \<Longrightarrow>
    sys_step srv init ds S (S\<lparr>servers := (servers S)(c := init), crashed := insert c (crashed S)\<rparr>)"

text \<open>The start: every server is empty and the mutexes of the given names are new.\<close>

definition sys_init :: "'s \<Rightarrow> Dsync \<Rightarrow> string list \<Rightarrow> 's sys" where
  "sys_init init ds names =
     \<lparr>servers = (\<lambda>_. init), mutexes = map (\<lambda>nm. NewDRWMutex nm ds) names, runs = [], releases = [], crashed = {}\<rparr>"

inductive reachable :: "('e, 's) server \<Rightarrow> 's \<Rightarrow> Dsync \<Rightarrow> string list \<Rightarrow> 's sys \<Rightarrow> bool" for srv init ds names where
  initial: "reachable srv init ds names (sys_init init ds names)"
| step: "reachable srv init ds names S \<Longrightarrow> sys_step srv init ds S S' \<Longrightarrow> reachable srv init ds names S'"

lemmas run_step_defs [step_defs] = start_run_def got_reply_def send_grant_def recv_grant_def timer_fires_def
  released_one_def decide_def drained_one_def

subsection \<open>Who holds a lock\<close>

definition active :: "string list \<Rightarrow> bool" where
  "active locks \<longleftrightarrow> (\<exists>u \<in> set locks. u \<noteq> [])"

text \<open>The lock arrays that stand for a lock held on a resource: those of attempts that have met
  their quorum and have not stored the array yet, and those stored in the mutexes.\<close>

definition run_held :: "string \<Rightarrow> bool \<Rightarrow> lock_run \<Rightarrow> string list list" where
  "run_held nm rd r =
     (if run_name r = nm \<and> run_read r = rd \<and> run_quorum r = Some True \<and> \<not> run_returned r then [run_locks r] else [])"

definition dm_held :: "string \<Rightarrow> bool \<Rightarrow> DRWMutex \<Rightarrow> string list list" where
  "dm_held nm rd dm =
     (if Name dm = nm then (if rd then readersLocks dm else if active (writeLocks dm) then [writeLocks dm] else [])
      else [])"

definition held :: "'s sys \<Rightarrow> string \<Rightarrow> bool \<Rightarrow> string list list" where
  "held S nm rd = concat (map (run_held nm rd) (runs S)) @ concat (map (dm_held nm rd) (mutexes S))"

text \<open>The number of write and of read locks that clients hold on a resource.\<close>

definition writers :: "'s sys \<Rightarrow> string \<Rightarrow> nat" where
  "writers S nm = length (held S nm False)"

definition readers :: "'s sys \<Rightarrow> string \<Rightarrow> nat" where
  "readers S nm = length (held S nm True)"

end
