(* ===== verification/System_Invariant.thy ===== *)
theory System_Invariant
  imports Lock_System
begin

section \<open>Well-formedness of the concurrent system\<close>

text \<open>
  The part of the invariant that does not depend on the servers: the arrays have one entry per
  node, every grant is on its way exactly once (in a goroutine, in the channel or received), a
  decided quorum is the quorum of the array, and the arrays stored in a mutex meet the quorum of
  their kind.
\<close>

definition unsent :: "lock_run \<Rightarrow> nat" where
  "unsent r = length (filter (\<lambda>g. g \<noteq> Sent) (goroutines r))"

definition run_wf :: "Dsync \<Rightarrow> string list \<Rightarrow> lock_run \<Rightarrow> bool" where
  "run_wf ds names r \<longleftrightarrow>
     run_dm r < length names \<and> run_name r = names ! run_dm r \<and>
     length (goroutines r) = length (restClnts ds) \<and> length (run_locks r) = length (restClnts ds) \<and>
     (\<forall>k g. k < length (restClnts ds) \<longrightarrow> goroutines r ! k = Replied g \<longrightarrow> index g = k) \<and>
     (\<forall>g \<in> set (chan r). index g < length (restClnts ds)) \<and>
     0 \<le> run_i r \<and> run_i r + int (length (chan r)) + int (unsent r) = dNodeCount ds \<and>
     (run_quorum r = None \<longleftrightarrow> run_phase r \<noteq> Draining) \<and>
     (run_quorum r = Some True \<longrightarrow> quorumMet (run_locks r) (run_read r) (dquorum ds) (dquorumReads ds)) \<and>
     (run_returned r \<longrightarrow> run_quorum r \<noteq> None \<and> (\<forall>x \<in> set (goroutines r). x = Sent))"

definition dm_wf :: "Dsync \<Rightarrow> DRWMutex \<Rightarrow> bool" where
  "dm_wf ds dm \<longleftrightarrow> clnt dm = ds \<and> length (writeLocks dm) = length (restClnts ds) \<and>
     (active (writeLocks dm) \<longrightarrow> quorumMet (writeLocks dm) False (dquorum ds) (dquorumReads ds)) \<and>
     (\<forall>ls \<in> set (readersLocks dm). length ls = length (restClnts ds) \<and>
        quorumMet ls True (dquorum ds) (dquorumReads ds))"

definition sys_wf :: "Dsync \<Rightarrow> string list \<Rightarrow> 's sys \<Rightarrow> bool" where
  "sys_wf ds names S \<longleftrightarrow> map Name (mutexes S) = names \<and>
     (\<forall>dm \<in> set (mutexes S). dm_wf ds dm) \<and> (\<forall>r \<in> set (runs S). run_wf ds names r) \<and>
     (\<forall>x \<in> set (releases S). length (rel_locks x) = length (restClnts ds))"

subsection \<open>Every action of an attempt keeps it well formed\<close>

lemma unsent_update:
  "k < length (goroutines r) \<Longrightarrow>
    length (filter (\<lambda>g. g \<noteq> Sent) ((goroutines r)[k := y])) + (if goroutines r ! k \<noteq> Sent then 1 else 0) =
    unsent r + (if y \<noteq> Sent then 1 else 0)"
  unfolding unsent_def by (rule length_filter_update)

lemma start_run_wf:
  "dNodeCount ds = int (length (restClnts ds)) \<Longrightarrow> j < length names \<Longrightarrow>
    run_wf ds names (start_run ds j (names ! j) ident source rd)"
  by (auto simp: run_wf_def start_run_def unsent_def)

lemma returned_all_sent:
  assumes "run_wf ds names r" and "run_returned r" and "k < length (restClnts ds)"
  shows "goroutines r ! k = Sent"
proof -
  have "\<forall>x \<in> set (goroutines r). x = Sent" "k < length (goroutines r)"
    using assms unfolding run_wf_def by auto
  then show ?thesis using nth_mem by blast
qed

lemma got_reply_wf:
  assumes "run_wf ds names r" and "k < length (restClnts ds)" and "goroutines r ! k = Calling"
  shows "run_wf ds names (got_reply k locked r)"
proof -
  have k: "k < length (goroutines r)" using assms(1,2) by (simp add: run_wf_def)
  have "\<not> run_returned r" using returned_all_sent[OF assms(1) _ assms(2)] assms(3) by auto
  then show ?thesis
    using assms unsent_update[OF k, of "Replied g" for g]
    by (auto simp: run_wf_def got_reply_def unsent_def nth_list_update)
qed

lemma send_grant_wf:
  assumes "run_wf ds names r" and "k < length (restClnts ds)" and "goroutines r ! k = Replied g"
  shows "run_wf ds names (send_grant k g r)"
proof -
  have k: "k < length (goroutines r)" using assms(1,2) by (simp add: run_wf_def)
  have ret: "\<not> run_returned r" using returned_all_sent[OF assms(1) _ assms(2)] assms(3) by auto
  have u: "unsent (send_grant k g r) + 1 = unsent r"
    using unsent_update[OF k, of Sent] assms(3) by (simp add: unsent_def send_grant_def)
  have "index g = k" using assms by (auto simp: run_wf_def)
  then show ?thesis
    using assms(1,2) ret u by (auto simp: run_wf_def send_grant_def nth_list_update)
qed

lemma recv_grant_wf:
  "run_wf ds names r \<Longrightarrow> run_phase r = Collecting \<Longrightarrow> chan r = g # ch \<Longrightarrow> run_wf ds names (recv_grant ds g ch r)"
  by (auto simp: run_wf_def recv_grant_def unsent_def)

lemma timer_fires_wf:
  "run_wf ds names r \<Longrightarrow> run_phase r = Collecting \<Longrightarrow> run_wf ds names (timer_fires ds r)"
  by (auto simp: run_wf_def timer_fires_def unsent_def)

lemma phase_wf:
  "run_wf ds names r \<Longrightarrow> run_phase r \<noteq> Draining \<Longrightarrow> ph \<noteq> Draining \<Longrightarrow> run_wf ds names (r\<lparr>run_phase := ph\<rparr>)"
  by (auto simp: run_wf_def unsent_def)

lemma released_one_wf:
  "run_wf ds names r \<Longrightarrow> run_phase r = Releasing k \<Longrightarrow> run_wf ds names (released_one k r)"
  by (auto simp: run_wf_def released_one_def unsent_def)

lemma decide_wf:
  "run_wf ds names r \<Longrightarrow> run_phase r = Deciding \<Longrightarrow> run_wf ds names (decide ds r)"
  by (auto simp: run_wf_def decide_def unsent_def)

lemma drained_one_wf:
  "run_wf ds names r \<Longrightarrow> chan r = g # ch \<Longrightarrow> run_wf ds names (drained_one ch r)"
  by (auto simp: run_wf_def drained_one_def unsent_def)

lemma returned_wf:
  "run_wf ds names r \<Longrightarrow> run_quorum r = Some q \<Longrightarrow> \<forall>x \<in> set (goroutines r). x = Sent \<Longrightarrow>
    run_wf ds names (r\<lparr>run_returned := True\<rparr>)"
  by (auto simp: run_wf_def unsent_def)

subsection \<open>Every critical section keeps a mutex well formed\<close>

lemma go_copy_same: "length dst = length src \<Longrightarrow> go_copy dst src = src"
  by (simp add: go_copy_def)

lemma store_locks_wf:
  assumes "dm_wf ds dm" and "length locks = length (restClnts ds)"
    and "dNodeCount ds = int (length (restClnts ds))"
    and "quorumMet locks rd (dquorum ds) (dquorumReads ds)"
  shows "dm_wf ds (store_locks rd locks dm)"
  using assms by (auto simp: dm_wf_def store_locks_def go_copy_same)

lemma not_active_replicate [simp]: "\<not> active (replicate n [])"
  by (auto simp: active_def)

lemma take_write_locks_Inr:
  assumes "dm_wf ds dm" and "dNodeCount ds = int (length (restClnts ds))"
  shows "take_write_locks dm = Inr (locks, dm') \<longleftrightarrow>
    active (writeLocks dm) \<and> locks = writeLocks dm \<and>
    dm' = dm\<lparr>writeLocks := replicate (length (restClnts ds)) []\<rparr>"
  using assms
  by (auto simp: take_write_locks_def Let_def dm_wf_def active_def go_copy_same)

lemma take_reader_locks_Inr:
  assumes "dm_wf ds dm" and "dNodeCount ds = int (length (restClnts ds))"
  shows "take_reader_locks dm = Inr (locks, dm') \<longleftrightarrow>
    (\<exists>rest. readersLocks dm = locks # rest \<and> dm' = dm\<lparr>readersLocks := rest\<rparr>)"
  using assms
  by (auto simp: take_reader_locks_def Let_def dm_wf_def go_copy_same split: list.splits)

lemma take_locks_cases:
  assumes "dm_wf ds dm" and "dNodeCount ds = int (length (restClnts ds))"
    and "take_write_locks dm = Inr (locks, dm') \<and> \<not> isRead \<or> take_reader_locks dm = Inr (locks, dm') \<and> isRead"
  obtains (reader) rest where "isRead" and "readersLocks dm = locks # rest" and "dm' = dm\<lparr>readersLocks := rest\<rparr>"
    | (writer) "\<not> isRead" and "active (writeLocks dm)" and "locks = writeLocks dm"
        and "dm' = dm\<lparr>writeLocks := replicate (length (restClnts ds)) []\<rparr>"
  using assms(3) take_write_locks_Inr[OF assms(1,2)] take_reader_locks_Inr[OF assms(1,2)] by blast

lemma take_locks_wf:
  assumes "dm_wf ds dm" and "dNodeCount ds = int (length (restClnts ds))"
    and "take_write_locks dm = Inr (locks, dm') \<or> take_reader_locks dm = Inr (locks, dm')"
  shows "dm_wf ds dm' \<and> Name dm' = Name dm \<and> length locks = length (restClnts ds)"
  using assms(1,3)
  by (auto simp: take_write_locks_Inr[OF assms(1,2)] take_reader_locks_Inr[OF assms(1,2)] dm_wf_def)

lemma Name_store_locks [simp]: "Name (store_locks rd locks dm) = Name dm"
  by (simp add: store_locks_def)

lemma map_Name_update: "Name y = Name (xs ! j) \<Longrightarrow> map Name (xs[j := y]) = map Name xs"
  by (metis list_update_id map_update)

subsection \<open>Every step keeps the system well formed\<close>

lemma sys_wf_run: "sys_wf ds names S \<Longrightarrow> p < length (runs S) \<Longrightarrow> run_wf ds names (runs S ! p)"
  and sys_wf_dm: "sys_wf ds names S \<Longrightarrow> j < length (mutexes S) \<Longrightarrow> dm_wf ds (mutexes S ! j)"
  and sys_wf_rel: "sys_wf ds names S \<Longrightarrow> q < length (releases S) \<Longrightarrow>
    length (rel_locks (releases S ! q)) = length (restClnts ds)"
  by (auto simp: sys_wf_def)

lemma sys_wf_update_run:
  assumes "sys_wf ds names S" and "run_wf ds names r'"
  shows "sys_wf ds names (S\<lparr>runs := (runs S)[p := r']\<rparr>)"
    and "sys_wf ds names (S\<lparr>servers := sv, runs := (runs S)[p := r']\<rparr>)"
  using assms ball_set_update[of "runs S" "run_wf ds names" r' p] by (simp_all add: sys_wf_def)

lemma sys_wf_update_dm:
  assumes "sys_wf ds names S" and "dm_wf ds dm'" and "Name dm' = Name (mutexes S ! j)"
  shows "sys_wf ds names (S\<lparr>mutexes := (mutexes S)[j := dm']\<rparr>)"
  using assms ball_set_update[of "mutexes S" "dm_wf ds" dm' j] map_Name_update[of dm' "mutexes S" j]
  by (simp add: sys_wf_def)

lemma sys_wf_update_rel:
  assumes "sys_wf ds names S" and "length (rel_locks x) = length (restClnts ds)"
  shows "sys_wf ds names (S\<lparr>releases := (releases S)[p := x]\<rparr>)"
    and "sys_wf ds names (S\<lparr>servers := sv, releases := (releases S)[p := x]\<rparr>)"
    and "sys_wf ds names (S\<lparr>releases := releases S @ [x]\<rparr>)"
  using assms ball_set_update[of "releases S" "\<lambda>x. length (rel_locks x) = length (restClnts ds)" x p]
  by (auto simp: sys_wf_def)

lemma sys_wf_init: "dsync_ok ds \<Longrightarrow> sys_wf ds names (sys_init init ds names)"
  by (auto simp: sys_wf_def sys_init_def dm_wf_def NewDRWMutex_def dsync_okD(1) o_def)

lemma sys_wf_step:
  assumes "sys_step srv init ds S S'" and wf: "sys_wf ds names S" and ok: "dsync_ok ds"
  shows "sys_wf ds names S'"
proof -
  note n = dsync_okD(1)[OF ok]
  show ?thesis
    using assms(1)
  proof cases
    case (start j ident source rd)
    have "run_wf ds names (start_run ds j (Name (mutexes S ! j)) ident source rd)"
      using start_run_wf[OF n, of j names ident source rd] start(2) wf by (auto simp: sys_wf_def)
    then show ?thesis using wf start(1) by (auto simp: sys_wf_def)
  next
    case (call p r k c f e locked err s')
    then show ?thesis using got_reply_wf[of ds names r k locked] wf
      by (auto intro!: sys_wf_update_run simp: sys_wf_run)
  next
    case (send p r k g)
    then show ?thesis using send_grant_wf[of ds names r k g] wf
      by (auto intro!: sys_wf_update_run simp: sys_wf_run)
  next
    case (recv p r g ch)
    then show ?thesis using recv_grant_wf[of ds names r g ch] wf
      by (auto intro!: sys_wf_update_run simp: sys_wf_run)
  next
    case (timeout p r)
    then show ?thesis using timer_fires_wf[of ds names r] wf
      by (auto intro!: sys_wf_update_run simp: sys_wf_run)
  next
    case (loop_end p r)
    then show ?thesis using phase_wf[of ds names r Deciding] wf
      by (auto intro!: sys_wf_update_run simp: sys_wf_run)
  next
    case (rel_locked p r k c s' f e)
    then show ?thesis using released_one_wf[of ds names r k] wf
      by (auto intro!: sys_wf_update_run simp: sys_wf_run)
  next
    case (rel_skip p r k)
    then show ?thesis using phase_wf[of ds names r "Releasing (Suc k)"] wf
      by (auto intro!: sys_wf_update_run simp: sys_wf_run)
  next
    case (rel_end p r k)
    then show ?thesis using phase_wf[of ds names r Deciding] wf
      by (auto intro!: sys_wf_update_run simp: sys_wf_run)
  next
    case (decided p r)
    then show ?thesis using decide_wf[of ds names r] wf
      by (auto intro!: sys_wf_update_run simp: sys_wf_run)
  next
    case (drain_locked p r g ch c s' f e)
    then show ?thesis using drained_one_wf[of ds names r g ch] wf
      by (auto intro!: sys_wf_update_run simp: sys_wf_run)
  next
    case (drain_skip p r g ch)
    then show ?thesis using drained_one_wf[of ds names r g ch] wf
      by (auto intro!: sys_wf_update_run simp: sys_wf_run)
  next
    case (return p r q j)
    have r: "run_wf ds names r" using return wf by (simp add: sys_wf_run)
    have S1: "sys_wf ds names (S\<lparr>runs := (runs S)[p := r\<lparr>run_returned := True\<rparr>]\<rparr>)"
      using returned_wf[OF r return(4,6)] wf by (rule sys_wf_update_run(1)[rotated])
    have "j < length (mutexes S)" using r return(7) wf by (auto simp: run_wf_def sys_wf_def)
    then have "dm_wf ds (store_locks (run_read r) (run_locks r) (mutexes S ! j))" if q
      using that r return(4) wf n by (auto intro!: store_locks_wf simp: run_wf_def sys_wf_dm)
    with sys_wf_update_dm[OF S1, of "store_locks (run_read r) (run_locks r) (mutexes S ! j)" j] S1
    show ?thesis by (cases q) (simp_all add: return(1))
  next
    case (unlock_w j locks dm')
    have d: "dm_wf ds dm'" "Name dm' = Name (mutexes S ! j)" "length locks = length (restClnts ds)"
      using take_locks_wf[OF sys_wf_dm[OF wf unlock_w(2)] n, of locks dm'] unlock_w(3) by simp_all
    show ?thesis
      using sys_wf_update_rel(3)[OF sys_wf_update_dm[OF wf d(1,2)],
          of "\<lparr>rel_name = Name (mutexes S ! j), rel_read = False, rel_locks = locks, rel_next = 0\<rparr>"] d(3)
      by (simp add: unlock_w(1))
  next
    case (unlock_r j locks dm')
    have d: "dm_wf ds dm'" "Name dm' = Name (mutexes S ! j)" "length locks = length (restClnts ds)"
      using take_locks_wf[OF sys_wf_dm[OF wf unlock_r(2)] n, of locks dm'] unlock_r(3) by simp_all
    show ?thesis
      using sys_wf_update_rel(3)[OF sys_wf_update_dm[OF wf d(1,2)],
          of "\<lparr>rel_name = Name (mutexes S ! j), rel_read = True, rel_locks = locks, rel_next = 0\<rparr>"] d(3)
      by (simp add: unlock_r(1))
  next
    case (unlock_send p x c s' f e)
    then show ?thesis using wf by (auto intro!: sys_wf_update_rel simp: sys_wf_rel)
  next
    case (unlock_skip p x)
    then show ?thesis using wf by (auto intro!: sys_wf_update_rel simp: sys_wf_rel)
  next
    case (crash c)
    then show ?thesis using wf by (simp add: sys_wf_def)
  qed
qed

lemma reachable_wf: "reachable srv init ds names S \<Longrightarrow> dsync_ok ds \<Longrightarrow> sys_wf ds names S"
  by (induction rule: reachable.induct) (auto intro: sys_wf_init sys_wf_step)

end
