(* ===== verification/Chaos_Server.thy ===== *)
theory Chaos_Server
  imports Rpc_Interface
begin

section \<open>The lock server of the chaos test (chaos/lock-rpc-server.go)\<close>

text \<open>
  The server that records every granted lock with the UID of its request. One definition per
  handler; each handler runs under the server's mutex, so it is one atomic function of the
  server state. \<open>now k\<close> is the value of the \<open>k\<close>-th reading of the clock the handler makes.
  Go iterates over a map in an unspecified order: \<open>getLongLivedLocks\<close> takes the order of the
  names as an argument.
\<close>

type_synonym clock = "nat \<Rightarrow> time"

record lockRequesterInfo =
  writer :: bool
  serverAddr :: string
  rpcPath :: string
  uid :: string
  timestamp :: time
  timeLastCheck :: time

record chaos_lockServer =
  lockMap :: "string \<rightharpoonup> lockRequesterInfo list"
  srv_timestamp :: time

record nameLockRequesterInfoPair =
  name :: string
  lri :: lockRequesterInfo

definition isWriteLock :: "lockRequesterInfo list \<Rightarrow> bool" where
  "isWriteLock ls \<longleftrightarrow> length ls = 1 \<and> writer (ls ! 0)"

definition chaos_Lock :: "clock \<Rightarrow> LockArgs \<Rightarrow> chaos_lockServer \<Rightarrow> result \<times> chaos_lockServer" where
  "chaos_Lock now args l =
     (let reply = (lockMap l (Resource args) \<noteq> None);
          l' = (if \<not> reply
                then l\<lparr>lockMap := (lockMap l)(Resource args \<mapsto>
                       [\<lparr>writer = True, serverAddr = [], rpcPath = [], uid = UID args,
                         timestamp = now 0, timeLastCheck = now 1\<rparr>])\<rparr>
                else l)
      in ((\<not> reply, None), l'))"

text \<open>The loop of \<^verbatim>\<open>removeEntry\<close>: \<open>index\<close> and the entries from that index on.\<close>

fun removeEntry_loop :: "string \<Rightarrow> string \<Rightarrow> lockRequesterInfo list \<Rightarrow> nat \<Rightarrow> lockRequesterInfo list
    \<Rightarrow> chaos_lockServer \<Rightarrow> bool \<times> chaos_lockServer" where
  "removeEntry_loop nm u ls index [] l = (False, l)"
| "removeEntry_loop nm u ls index (entry # rest) l =
     (if uid entry = u
      then if length ls = 1
           then (True, l\<lparr>lockMap := (lockMap l)(nm := None)\<rparr>)
           else (True, l\<lparr>lockMap := (lockMap l)(nm \<mapsto> remove_at index ls)\<rparr>)
      else removeEntry_loop nm u ls (Suc index) rest l)"

definition removeEntry :: "string \<Rightarrow> string \<Rightarrow> lockRequesterInfo list
    \<Rightarrow> chaos_lockServer \<Rightarrow> bool \<times> chaos_lockServer" where
  "removeEntry nm u ls l = removeEntry_loop nm u ls 0 ls l"

definition chaos_Unlock :: "LockArgs \<Rightarrow> chaos_lockServer \<Rightarrow> result \<times> chaos_lockServer" where
  "chaos_Unlock args l =
     (case lockMap l (Resource args) of
        None \<Rightarrow> ((False, Some (UnlockUnlocked (Resource args))), l)
      | Some ls \<Rightarrow>
          if \<not> isWriteLock ls
          then ((False, Some (UnlockReadLocked (Resource args) (int (length ls)))), l)
          else (case removeEntry (Resource args) (UID args) ls l of
                  (removed, l') \<Rightarrow>
                    if \<not> removed then ((True, Some (UnlockNoUID (UID args))), l')
                    else ((True, None), l')))"

definition chaos_RLock :: "clock \<Rightarrow> LockArgs \<Rightarrow> chaos_lockServer \<Rightarrow> result \<times> chaos_lockServer" where
  "chaos_RLock now args l =
     (let lrInfo = \<lparr>writer = False, serverAddr = [], rpcPath = [], uid = UID args,
                    timestamp = now 0, timeLastCheck = now 1\<rparr>
      in case lockMap l (Resource args) of
           Some ls \<Rightarrow>
             if \<not> isWriteLock ls
             then ((True, None), l\<lparr>lockMap := (lockMap l)(Resource args \<mapsto> ls @ [lrInfo])\<rparr>)
             else ((False, None), l)
         | None \<Rightarrow> ((True, None), l\<lparr>lockMap := (lockMap l)(Resource args \<mapsto> [lrInfo])\<rparr>))"

definition chaos_RUnlock :: "LockArgs \<Rightarrow> chaos_lockServer \<Rightarrow> result \<times> chaos_lockServer" where
  "chaos_RUnlock args l =
     (case lockMap l (Resource args) of
        None \<Rightarrow> ((False, Some (RUnlockUnlocked (Resource args))), l)
      | Some ls \<Rightarrow>
          if isWriteLock ls
          then ((False, Some (RUnlockWriteLocked (Resource args))), l)
          else (case removeEntry (Resource args) (UID args) ls l of
                  (removed, l') \<Rightarrow>
                    if \<not> removed then ((True, Some (RUnlockNoUID (UID args))), l')
                    else ((True, None), l')))"

text \<open>A failed removal is only logged, and only for a writer.\<close>

definition removeEntryIfExists :: "nameLockRequesterInfoPair \<Rightarrow> chaos_lockServer \<Rightarrow> chaos_lockServer" where
  "removeEntryIfExists nlrip l =
     (case lockMap l (name nlrip) of
        Some ls \<Rightarrow> snd (removeEntry (name nlrip) (uid (lri nlrip)) ls l)
      | None \<Rightarrow> l)"

text \<open>The inner loop of \<^verbatim>\<open>getLongLivedLocks\<close> over one entry array: it collects a copy of every
  entry whose last check is at least \<open>interval\<close> ago and updates the entry in place; \<open>k\<close>
  counts the readings of the clock made so far.\<close>

fun longLived_loop :: "clock \<Rightarrow> duration \<Rightarrow> string \<Rightarrow> lockRequesterInfo list \<Rightarrow> nat
    \<Rightarrow> nameLockRequesterInfoPair list \<times> lockRequesterInfo list \<times> nat" where
  "longLived_loop now interval nm [] k = ([], [], k)"
| "longLived_loop now interval nm (e # es) k =
     (if now k - timeLastCheck e \<ge> interval
      then (case longLived_loop now interval nm es (Suc (Suc k)) of
              (rslt, es', k') \<Rightarrow>
                (\<lparr>name = nm, lri = e\<rparr> # rslt, e\<lparr>timeLastCheck := now (Suc k)\<rparr> # es', k'))
      else (case longLived_loop now interval nm es (Suc k) of
              (rslt, es', k') \<Rightarrow> (rslt, e # es', k')))"

fun getLongLivedLocks_loop :: "clock \<Rightarrow> duration \<Rightarrow> string list \<Rightarrow> (string \<rightharpoonup> lockRequesterInfo list) \<Rightarrow> nat
    \<Rightarrow> nameLockRequesterInfoPair list \<times> (string \<rightharpoonup> lockRequesterInfo list)" where
  "getLongLivedLocks_loop now interval [] m k = ([], m)"
| "getLongLivedLocks_loop now interval (nm # names) m k =
     (case m nm of
        None \<Rightarrow> getLongLivedLocks_loop now interval names m k
      | Some lriArray \<Rightarrow>
          (case longLived_loop now interval nm lriArray k of
             (rslt, lriArray', k') \<Rightarrow>
               (case getLongLivedLocks_loop now interval names (m(nm \<mapsto> lriArray')) k' of
                  (rslt', m') \<Rightarrow> (rslt @ rslt', m'))))"

definition getLongLivedLocks :: "clock \<Rightarrow> string list \<Rightarrow> (string \<rightharpoonup> lockRequesterInfo list) \<Rightarrow> duration
    \<Rightarrow> nameLockRequesterInfoPair list \<times> (string \<rightharpoonup> lockRequesterInfo list)" where
  "getLongLivedLocks now names m interval = getLongLivedLocks_loop now interval names m 0"

text \<open>The handlers under the names the RPC server registers them (\<^verbatim>\<open>startRPCServer\<close>), and the
  state it starts with.\<close>

definition chaos_server :: "(clock, chaos_lockServer) server" where
  "chaos_server now m args l =
     (case m of RLock \<Rightarrow> chaos_RLock now args l
      | Lock \<Rightarrow> chaos_Lock now args l
      | RUnlock \<Rightarrow> chaos_RUnlock args l
      | Unlock \<Rightarrow> chaos_Unlock args l)"

definition chaos_init :: chaos_lockServer where
  "chaos_init = \<lparr>lockMap = Map.empty, srv_timestamp = 0\<rparr>"

subsection \<open>Invariant and tokens\<close>

definition entries_ok :: "lockRequesterInfo list \<Rightarrow> bool" where
  "entries_ok ls \<longleftrightarrow> ls \<noteq> [] \<and> (isWriteLock ls \<or> (\<forall>e \<in> set ls. \<not> writer e))"

definition chaos_inv :: "chaos_lockServer \<Rightarrow> bool" where
  "chaos_inv l \<longleftrightarrow> (\<forall>nm ls. lockMap l nm = Some ls \<longrightarrow> entries_ok ls)"

definition entries :: "chaos_lockServer \<Rightarrow> string \<Rightarrow> lockRequesterInfo list" where
  "entries l nm = (case lockMap l nm of None \<Rightarrow> [] | Some ls \<Rightarrow> ls)"

definition chaos_tok :: "chaos_lockServer \<Rightarrow> string \<Rightarrow> bool \<Rightarrow> string \<Rightarrow> nat" where
  "chaos_tok l nm rd u = length (filter (\<lambda>e. writer e = (\<not> rd) \<and> uid e = u) (entries l nm))"

lemma isWriteLock_iff: "isWriteLock ls \<longleftrightarrow> (\<exists>e. ls = [e] \<and> writer e)"
  by (auto simp: isWriteLock_def length_Suc_conv)

subsection \<open>removeEntry removes the first entry of the UID\<close>

lemma removeEntry_loop_none:
  "\<forall>e \<in> set rest. uid e \<noteq> u \<Longrightarrow> removeEntry_loop nm u ls index rest l = (False, l)"
  by (induction rest arbitrary: index) auto

lemma removeEntry_loop_some:
  assumes "\<exists>e \<in> set rest. uid e = u"
  shows "\<exists>j < length rest. uid (rest ! j) = u \<and> (\<forall>i < j. uid (rest ! i) \<noteq> u) \<and>
    removeEntry_loop nm u ls index rest l =
      (True, if length ls = 1 then l\<lparr>lockMap := (lockMap l)(nm := None)\<rparr>
             else l\<lparr>lockMap := (lockMap l)(nm \<mapsto> remove_at (index + j) ls)\<rparr>)"
  using assms
proof (induction rest arbitrary: index)
  case Nil
  then show ?case by simp
next
  case (Cons e rest)
  show ?case
  proof (cases "uid e = u")
    case True
    then show ?thesis by (intro exI[of _ 0]) simp
  next
    case False
    with Cons obtain j where "j < length rest" "uid (rest ! j) = u" "\<forall>i < j. uid (rest ! i) \<noteq> u"
      "removeEntry_loop nm u ls (Suc index) rest l =
        (True, if length ls = 1 then l\<lparr>lockMap := (lockMap l)(nm := None)\<rparr>
               else l\<lparr>lockMap := (lockMap l)(nm \<mapsto> remove_at (Suc index + j) ls)\<rparr>)"
      by (metis set_ConsD)
    with False show ?thesis
      by (intro exI[of _ "Suc j"]) (auto simp: less_Suc_eq_0_disj)
  qed
qed

lemma removeEntry_cases:
  obtains (absent) "\<forall>e \<in> set ls. uid e \<noteq> u" "removeEntry nm u ls l = (False, l)"
  | (removed) j where "j < length ls" "uid (ls ! j) = u" "\<forall>i < j. uid (ls ! i) \<noteq> u"
      "removeEntry nm u ls l =
        (True, if length ls = 1 then l\<lparr>lockMap := (lockMap l)(nm := None)\<rparr>
               else l\<lparr>lockMap := (lockMap l)(nm \<mapsto> remove_at j ls)\<rparr>)"
  using removeEntry_loop_none[of ls u nm ls 0 l] removeEntry_loop_some[of ls u nm ls 0 l]
  unfolding removeEntry_def by (metis add_0)

lemma entries_ok_remove_at:
  assumes "entries_ok ls" and "j < length ls" and "length ls \<noteq> 1"
  shows "entries_ok (remove_at j ls)"
proof -
  have "\<not> isWriteLock ls" using assms(3) by (auto simp: isWriteLock_def)
  with assms(1) have "\<forall>e \<in> set (remove_at j ls). \<not> writer e"
    using set_remove_at[of j ls] by (auto simp: entries_ok_def)
  moreover have "remove_at j ls \<noteq> []"
    using remove_at_length[OF assms(2)] assms(2,3) by force
  ultimately show ?thesis by (simp add: entries_ok_def)
qed

text \<open>One removal takes one token of the UID and leaves every other count as it is.\<close>

lemma removeEntry_tok:
  assumes ls: "lockMap l nm = Some ls" and rm: "removeEntry nm u ls l = (True, l')"
  obtains e where "e \<in> set ls" "uid e = u"
    "\<And>r rd v. chaos_tok l r rd v =
      chaos_tok l' r rd v + (if r = nm \<and> writer e = (\<not> rd) \<and> v = u then 1 else 0)"
proof (cases rule: removeEntry_cases[of ls u nm l])
  case absent
  with rm show ?thesis by simp
next
  case (removed j)
  let ?e = "ls ! j"
  have l': "l' = (if length ls = 1 then l\<lparr>lockMap := (lockMap l)(nm := None)\<rparr>
               else l\<lparr>lockMap := (lockMap l)(nm \<mapsto> remove_at j ls)\<rparr>)"
    using rm removed(4) by simp
  have ent: "entries l' r = (if r = nm then (if length ls = 1 then [] else remove_at j ls) else entries l r)" for r
    by (simp add: l' entries_def)
  have entls: "entries l nm = ls" by (simp add: entries_def ls)
  have one: "length ls = 1 \<Longrightarrow> remove_at j ls = []"
    using removed(1) by (simp add: remove_at_def)
  have "chaos_tok l r rd v =
      chaos_tok l' r rd v + (if r = nm \<and> writer ?e = (\<not> rd) \<and> v = u then 1 else 0)" for r rd v
    using filter_remove_at[OF removed(1), of "\<lambda>e. writer e = (\<not> rd) \<and> uid e = v"] removed(2) one entls
    by (auto simp: chaos_tok_def ent)
  moreover have "?e \<in> set ls" using removed(1) by simp
  ultimately show ?thesis using removed(2) that by blast
qed

lemma removeEntry_unchanged: "removeEntry nm u ls l = (False, l') \<Longrightarrow> l' = l"
  by (cases rule: removeEntry_cases[of ls u nm l]) auto

lemma removeEntry_inv:
  assumes "chaos_inv l" and "lockMap l nm = Some ls"
  shows "chaos_inv (snd (removeEntry nm u ls l))"
proof (cases rule: removeEntry_cases[of ls u nm l])
  case absent
  with assms show ?thesis by simp
next
  case (removed j)
  have ok: "entries_ok ls" using assms by (simp add: chaos_inv_def)
  show ?thesis
    using assms(1) entries_ok_remove_at[OF ok removed(1)]
    by (auto simp: removed(4) chaos_inv_def)
qed

subsection \<open>The handlers satisfy the contract of a lock server\<close>

lemmas chaos_handler_defs [handler_defs] = chaos_server_def chaos_Lock_def chaos_RLock_def chaos_Unlock_def
  chaos_RUnlock_def

lemma chaos_inv_init: "chaos_inv chaos_init"
  by (simp add: chaos_inv_def chaos_init_def)

lemma chaos_inv_step:
  assumes "chaos_inv l"
  shows "chaos_inv (snd (chaos_server now m args l))"
proof (cases m)
  case Lock
  with assms show ?thesis
    by (auto simp: chaos_handler_defs chaos_inv_def entries_ok_def isWriteLock_def)
next
  case RLock
  show ?thesis
  proof (cases "lockMap l (Resource args)")
    case None
    with RLock assms show ?thesis
      by (auto simp: chaos_handler_defs chaos_inv_def entries_ok_def)
  next
    case (Some ls)
    with assms have "entries_ok ls" by (simp add: chaos_inv_def)
    with RLock Some assms show ?thesis
      by (auto simp: chaos_handler_defs chaos_inv_def entries_ok_def)
  qed
next
  case RUnlock
  with assms removeEntry_inv[OF assms, of "Resource args"] show ?thesis
    by (auto simp: chaos_handler_defs split: option.splits prod.splits)
       (metis snd_conv)+
next
  case Unlock
  with assms removeEntry_inv[OF assms, of "Resource args"] show ?thesis
    by (auto simp: chaos_handler_defs split: option.splits prod.splits)
       (metis snd_conv)+
qed

lemma chaos_tok_pos:
  "0 < chaos_tok l r rd u \<longleftrightarrow> (\<exists>e \<in> set (entries l r). writer e = (\<not> rd) \<and> uid e = u)"
  by (auto simp: chaos_tok_def filter_empty_conv)

lemma chaos_tok_zero_iff:
  "(\<forall>rd u. chaos_tok l r rd u = 0) \<longleftrightarrow> entries l r = []"
  by (auto simp: chaos_tok_def filter_empty_conv) (metis (full_types) list.set_sel(1))

lemma chaos_excl:
  assumes inv: "chaos_inv l" and pos: "0 < chaos_tok l r False u"
  obtains e where "lockMap l r = Some [e]" "writer e" "uid e = u"
proof -
  from pos obtain e where e: "e \<in> set (entries l r)" "writer e" "uid e = u"
    by (auto simp: chaos_tok_pos)
  from e(1) obtain ls where ls: "lockMap l r = Some ls" "e \<in> set ls"
    unfolding entries_def by (cases "lockMap l r") auto
  with inv e(2) have "isWriteLock ls" by (auto simp: chaos_inv_def entries_ok_def)
  with ls e that show ?thesis by (auto simp: isWriteLock_iff)
qed

lemma chaos_entries_inv: "chaos_inv l \<Longrightarrow> entries l r = [] \<longleftrightarrow> lockMap l r = None"
  by (auto simp: entries_def chaos_inv_def entries_ok_def split: option.splits)

lemma chaos_no_writer:
  assumes "chaos_inv l" and "\<forall>u. chaos_tok l r False u = 0" and "lockMap l r = Some ls"
  shows "\<not> isWriteLock ls" "\<forall>e \<in> set ls. \<not> writer e"
  using assms
  by (auto simp: chaos_tok_def entries_def filter_empty_conv isWriteLock_iff)

lemma chaos_take_entries:
  assumes "m = Lock \<or> m = RLock" and "fst (fst (chaos_server now m args l))"
  obtains e where "writer e = (m = Lock)" "uid e = UID args"
    "\<And>r. entries (snd (chaos_server now m args l)) r =
      entries l r @ (if r = Resource args then [e] else [])"
proof (rule that[of "\<lparr>writer = (m = Lock), serverAddr = [], rpcPath = [], uid = UID args,
    timestamp = now 0, timeLastCheck = now 1\<rparr>"])
  fix r
  show "entries (snd (chaos_server now m args l)) r = entries l r @ (if r = Resource args
     then [\<lparr>writer = (m = Lock), serverAddr = [], rpcPath = [], uid = UID args,
       timestamp = now 0, timeLastCheck = now 1\<rparr>] else [])"
    using assms
    by (cases "lockMap l (Resource args)")
       (auto simp: chaos_handler_defs entries_def split: if_splits)
qed simp_all

lemma chaos_deny_unchanged:
  "m = Lock \<or> m = RLock \<Longrightarrow> \<not> fst (fst (chaos_server now m args l)) \<Longrightarrow>
    snd (chaos_server now m args l) = l"
  by (auto simp: chaos_handler_defs Let_def split: option.splits if_splits)

lemma chaos_release_cases:
  assumes "m = Unlock \<or> m = RUnlock"
  obtains (unchanged) "snd (chaos_server now m args l) = l" "snd (fst (chaos_server now m args l)) \<noteq> None"
  | (removed) ls where "lockMap l (Resource args) = Some ls" "isWriteLock ls = (m = Unlock)"
      "removeEntry (Resource args) (UID args) ls l = (True, snd (chaos_server now m args l))"
      "fst (chaos_server now m args l) = (True, None)"
proof (cases "lockMap l (Resource args)")
  case None
  with assms unchanged show ?thesis by (auto simp: chaos_handler_defs)
next
  case (Some ls)
  obtain b l' where rm: "removeEntry (Resource args) (UID args) ls l = (b, l')" by force
  show ?thesis
  proof (cases "isWriteLock ls = (m = Unlock)")
    case False
    with assms Some unchanged show ?thesis by (auto simp: chaos_handler_defs)
  next
    case True
    with assms Some rm removeEntry_unchanged[of "Resource args" "UID args" ls l l'] unchanged removed[of ls]
    show ?thesis by (cases b) (auto simp: chaos_handler_defs)
  qed
qed

lemma chaos_release_tok:
  assumes inv: "chaos_inv l" and m: "m = Unlock \<or> m = RUnlock"
  obtains (unchanged) "snd (chaos_server now m args l) = l" "snd (fst (chaos_server now m args l)) \<noteq> None"
  | (removed) "\<And>r rd v. chaos_tok l r rd v = chaos_tok (snd (chaos_server now m args l)) r rd v +
        (if r = Resource args \<and> rd = is_read m \<and> v = UID args then 1 else 0)"
      "fst (chaos_server now m args l) = (True, None)"
proof (cases rule: chaos_release_cases[OF m, of now args l])
  case 1
  with unchanged show ?thesis by blast
next
  case (2 ls)
  from inv 2(1) have ok: "entries_ok ls" by (simp add: chaos_inv_def)
  obtain e where e: "e \<in> set ls" "uid e = UID args"
    "\<And>r rd v. chaos_tok l r rd v = chaos_tok (snd (chaos_server now m args l)) r rd v +
        (if r = Resource args \<and> writer e = (\<not> rd) \<and> v = UID args then 1 else 0)"
    using removeEntry_tok[OF 2(1,3)] by metis
  have "writer e = (m = Unlock)"
    using ok 2(2) e(1) by (auto simp: entries_ok_def isWriteLock_iff)
  with m have "(writer e = (\<not> rd)) = (rd = is_read m)" for rd by (auto simp: is_read_def)
  with e(3) 2(4) removed show ?thesis by simp
qed

lemma chaos_release_held:
  assumes inv: "chaos_inv l" and m: "m = Unlock \<or> m = RUnlock"
    and held: "0 < chaos_tok l (Resource args) (is_read m) (UID args)"
  shows "fst (chaos_server now m args l) = (True, None)"
proof -
  from held obtain e where e: "e \<in> set (entries l (Resource args))"
    "writer e = (m = Unlock)" "uid e = UID args"
    using m by (auto simp: chaos_tok_pos is_read_def)
  from e(1) obtain ls where ls: "lockMap l (Resource args) = Some ls" "e \<in> set ls"
    unfolding entries_def by (cases "lockMap l (Resource args)") auto
  with inv e(2) have w: "isWriteLock ls = (m = Unlock)"
    by (auto simp: chaos_inv_def entries_ok_def isWriteLock_iff)
  have "fst (removeEntry (Resource args) (UID args) ls l)"
    using ls(2) e(3) by (cases rule: removeEntry_cases[of ls "UID args" "Resource args" l]) auto
  with ls(1) w m show ?thesis
    by (auto simp: chaos_handler_defs split: prod.splits)
qed

interpretation chaos: lock_server_live chaos_server chaos_inv chaos_tok "\<lambda>u. u" chaos_init
proof (unfold_locales, goal_cases)
  case 1 show ?case by (rule chaos_inv_init)
next
  case (2 r rd u) show ?case by (simp add: chaos_tok_def entries_def chaos_init_def)
next
  case (3 s e m args) then show ?case by (rule chaos_inv_step)
next
  case (4 s r u)
  then obtain e where "lockMap s r = Some [e]" "writer e" "uid e = u" by (rule chaos_excl)
  then show ?case by (auto simp: chaos_tok_def entries_def)
next
  case (5 s m e args r rd u)
  obtain x where "writer x = (m = Lock)" "uid x = UID args"
    "\<And>r. entries (snd (chaos_server e m args s)) r = entries s r @ (if r = Resource args then [x] else [])"
    using chaos_take_entries[OF 5(2,3)] by metis
  then show ?case using 5(2) by (auto simp: chaos_tok_def is_read_def)
next
  case (6 s m e args r rd u) then show ?case by (simp add: chaos_deny_unchanged)
next
  case (7 s m r rd u e args)
  then show ?case by (cases rule: chaos_release_tok[OF 7(1,2), of e args]) auto
next
  case (8 s m e args r rd u)
  then show ?case by (cases rule: chaos_release_tok[OF 8(1,2), of e args]) auto
next
  case (9 s args m e)
  then have "lockMap s (Resource args) = None"
    using chaos_tok_zero_iff[of s "Resource args"] chaos_entries_inv[OF 9(1)] by simp
  with 9(3) show ?case by (auto simp: chaos_handler_defs)
next
  case (10 s args e)
  then show ?case
    using chaos_no_writer(1)[OF 10(1), of "Resource args"]
    by (auto simp: chaos_handler_defs Let_def split: option.splits)
next
  case (11 s m args e)
  show ?case
  proof (cases rule: chaos_release_tok[OF 11(1,2), of e args])
    case 1
    with chaos_release_held[OF 11] show ?thesis by simp
  next
    case 2
    then show ?thesis by simp
  qed
qed

subsection \<open>What the handlers do on every branch\<close>

text \<open>(C29) Whatever sequence of requests the server has handled since it started, the entries of
  every resource are either exactly one write lock or one or more read locks: no empty list and
  no writer beside another lock is ever recorded.\<close>

theorem chaos_exclusive_after_any_requests:
  "chaos_inv (serve_all chaos_server calls chaos_init)"
  by (rule chaos.serve_all_inv[OF chaos.inv_init])

text \<open>(C30) A write unlock succeeds exactly when the resource is write locked under the UID of the
  request, and then the resource becomes free; on every other request it reports an error and
  changes nothing, so one client cannot release another client's lock.\<close>

theorem chaos_Unlock_only_by_owner:
  assumes "chaos_inv l"
  shows "chaos_Unlock args l =
    (case lockMap l (Resource args) of
       None \<Rightarrow> ((False, Some (UnlockUnlocked (Resource args))), l)
     | Some ls \<Rightarrow>
         if \<not> (\<exists>e \<in> set ls. writer e) then ((False, Some (UnlockReadLocked (Resource args) (int (length ls)))), l)
         else if UID args \<in> uid ` set ls
         then ((True, None), l\<lparr>lockMap := (lockMap l)(Resource args := None)\<rparr>)
         else ((True, Some (UnlockNoUID (UID args))), l))"
proof (cases "lockMap l (Resource args)")
  case None
  then show ?thesis by (simp add: chaos_Unlock_def)
next
  case (Some ls)
  with assms have ok: "entries_ok ls" by (simp add: chaos_inv_def)
  then have w: "isWriteLock ls = (\<exists>e \<in> set ls. writer e)"
    by (auto simp: entries_ok_def isWriteLock_iff)
  show ?thesis
  proof (cases "isWriteLock ls")
    case True
    then obtain e where "ls = [e]" by (auto simp: isWriteLock_iff)
    with Some True w show ?thesis
      by (auto simp: chaos_Unlock_def removeEntry_def)
  next
    case False
    with Some w show ?thesis by (auto simp: chaos_Unlock_def)
  qed
qed

theorem chaos_Unlock_only_by_owner_witness:
  "let l = snd (chaos_Lock (\<lambda>_. 5) \<lparr>UID = ''u1'', Resource = ''r'', Source = []\<rparr> chaos_init)
   in chaos_Unlock \<lparr>UID = ''u2'', Resource = ''r'', Source = []\<rparr> l = ((True, Some (UnlockNoUID ''u2'')), l)"
proof -
  define l where "l = snd (chaos_Lock (\<lambda>_. 5) \<lparr>UID = ''u1'', Resource = ''r'', Source = []\<rparr> chaos_init)"
  have "chaos_inv l"
    by (simp add: l_def chaos_Lock_def chaos_init_def chaos_inv_def entries_ok_def isWriteLock_def)
  from chaos_Unlock_only_by_owner[OF this, of "\<lparr>UID = ''u2'', Resource = ''r'', Source = []\<rparr>"]
  show ?thesis by (simp add: l_def chaos_Lock_def chaos_init_def)
qed

text \<open>A release undoes the grant it follows; the handlers read only the UID and the resource.\<close>

lemma chaos_undo:
  assumes "m = Lock \<and> m' = Unlock \<or> m = RLock \<and> m' = RUnlock"
    and inv: "chaos_inv l"
    and "fst (fst (chaos_server now m args l))"
    and "UID args \<notin> uid ` set (entries l (Resource args))"
    and same: "UID args' = UID args" "Resource args' = Resource args"
  shows "chaos_server now' m' args' (snd (chaos_server now m args l)) = ((True, None), l)"
proof (cases "lockMap l (Resource args)")
  case None
  with assms(1) same show ?thesis
    by (auto simp: chaos_handler_defs Let_def removeEntry_def isWriteLock_def fun_upd_idem)
next
  case (Some ls)
  have m: "m = RLock" "m' = RUnlock" and w: "\<not> isWriteLock ls"
    using assms(1,3) Some by (auto simp: chaos_handler_defs Let_def split: if_splits)
  have ne: "ls \<noteq> []" using inv Some by (auto simp: chaos_inv_def entries_ok_def)
  have new: "\<forall>e \<in> set ls. uid e \<noteq> UID args"
    using assms(4) Some by (force simp: entries_def)
  define x where "x = \<lparr>writer = False, serverAddr = [], rpcPath = [], uid = UID args,
    timestamp = now 0, timeLastCheck = now 1\<rparr>"
  let ?l1 = "l\<lparr>lockMap := (lockMap l)(Resource args \<mapsto> ls @ [x])\<rparr>"
  have l1: "snd (chaos_server now m args l) = ?l1"
    using Some m w by (simp add: chaos_handler_defs x_def)
  have w1: "\<not> isWriteLock (ls @ [x])" by (auto simp: isWriteLock_iff x_def)
  show ?thesis
  proof (cases rule: removeEntry_cases[of "ls @ [x]" "UID args" "Resource args" ?l1])
    case absent
    then show ?thesis by (simp add: x_def)
  next
    case (removed j)
    have j: "j = length ls"
      using removed(1,2) new by (cases "j < length ls") (auto simp: nth_append)
    have "remove_at j (ls @ [x]) = ls" by (simp add: j remove_at_def)
    with removed(4) ne Some have "removeEntry (Resource args) (UID args) (ls @ [x]) ?l1 = (True, l)"
      by (simp add: fun_upd_idem)
    then have "chaos_server now' RUnlock args' ?l1 = ((True, None), l)"
      using w1 same by (simp add: chaos_handler_defs)
    then show ?thesis unfolding l1 m(2) by simp
  qed
qed

text \<open>A write lock that is granted and then released with the same arguments leaves the server
  in the state it had before, and a read lock under a UID that holds no entry for the resource
  does too: no trace of a released lock stays behind.\<close>

theorem chaos_lock_unlock_roundtrip:
  assumes "m = Lock \<and> m' = Unlock \<or> m = RLock \<and> m' = RUnlock"
    and inv: "chaos_inv l"
    and "fst (fst (chaos_server now m args l))"
    and "UID args \<notin> uid ` set (entries l (Resource args))"
  shows "fst (chaos_server now' m' args (snd (chaos_server now m args l))) = (True, None) \<and>
    snd (chaos_server now' m' args (snd (chaos_server now m args l))) = l"
  using chaos_undo[OF assms refl refl] by simp

theorem chaos_lock_unlock_roundtrip_witness:
  "let l = snd (chaos_server (\<lambda>_. 5) RLock \<lparr>UID = ''u1'', Resource = ''r'', Source = []\<rparr> chaos_init);
       a = \<lparr>UID = ''u2'', Resource = ''r'', Source = []\<rparr>
   in snd (chaos_server (\<lambda>_. 8) RUnlock a (snd (chaos_server (\<lambda>_. 7) RLock a l))) = l"
proof -
  let ?l = "snd (chaos_server (\<lambda>_. 5) RLock \<lparr>UID = ''u1'', Resource = ''r'', Source = []\<rparr> chaos_init)"
  let ?a = "\<lparr>UID = ''u2'', Resource = ''r'', Source = []\<rparr>"
  have inv: "chaos_inv ?l" by (rule chaos_inv_step[OF chaos_inv_init])
  have g: "fst (fst (chaos_server (\<lambda>_. 7) RLock ?a ?l))" "UID ?a \<notin> uid ` set (entries ?l (Resource ?a))"
    by (simp_all add: chaos_handler_defs chaos_init_def isWriteLock_def entries_def)
  show ?thesis
    using chaos_lock_unlock_roundtrip[OF _ inv g, where m' = RUnlock and now' = "\<lambda>_. 8"]
    by (simp add: Let_def)
qed

end
