(* ===== verification/Performance_Server.thy ===== *)
theory Performance_Server
  imports Rpc_Interface
begin

section \<open>The lock server of the performance test (performance/performance-server.go)\<close>

text \<open>
  The server that only counts: one \<^verbatim>\<open>int64\<close> per resource, \<open>-1\<close> for a write lock and the
  number of readers otherwise. It never looks at the UID of a request, so all requests are of
  one class. The counter is an \<open>int\<close> here; \<open>perf_count_bounds\<close> shows that it stays inside
  the range of \<^verbatim>\<open>int64\<close> for every run of fewer than \<open>2 ^ 63\<close> requests, so the
  increment never wraps around.
\<close>

definition WriteLock :: int where
  "WriteLock = -1"

definition ReadLock :: int where
  "ReadLock = 1"

record perf_lockServer =
  perf_lockMap :: "string \<rightharpoonup> int"

definition perf_Lock :: "LockArgs \<Rightarrow> perf_lockServer \<Rightarrow> result \<times> perf_lockServer" where
  "perf_Lock args l =
     (let reply = (perf_lockMap l (Resource args) \<noteq> None);
          l' = (if \<not> reply then l\<lparr>perf_lockMap := (perf_lockMap l)(Resource args \<mapsto> WriteLock)\<rparr> else l)
      in ((\<not> reply, None), l'))"

definition perf_Unlock :: "LockArgs \<Rightarrow> perf_lockServer \<Rightarrow> result \<times> perf_lockServer" where
  "perf_Unlock args l =
     (case perf_lockMap l (Resource args) of
        None \<Rightarrow> ((False, Some (UnlockUnlocked (Resource args))), l)
      | Some locksHeld \<Rightarrow>
          if locksHeld \<noteq> WriteLock
          then ((False, Some (UnlockReadLocked (Resource args) locksHeld)), l)
          else ((True, None), l\<lparr>perf_lockMap := (perf_lockMap l)(Resource args := None)\<rparr>))"

definition perf_RLock :: "LockArgs \<Rightarrow> perf_lockServer \<Rightarrow> result \<times> perf_lockServer" where
  "perf_RLock args l =
     (case perf_lockMap l (Resource args) of
        None \<Rightarrow> ((True, None), l\<lparr>perf_lockMap := (perf_lockMap l)(Resource args \<mapsto> ReadLock)\<rparr>)
      | Some locksHeld \<Rightarrow>
          if locksHeld \<noteq> WriteLock
          then ((True, None), l\<lparr>perf_lockMap := (perf_lockMap l)(Resource args \<mapsto> locksHeld + ReadLock)\<rparr>)
          else ((False, None), l))"

definition perf_RUnlock :: "LockArgs \<Rightarrow> perf_lockServer \<Rightarrow> result \<times> perf_lockServer" where
  "perf_RUnlock args l =
     (case perf_lockMap l (Resource args) of
        None \<Rightarrow> ((False, Some (RUnlockUnlocked (Resource args))), l)
      | Some locksHeld \<Rightarrow>
          if locksHeld = WriteLock
          then ((False, Some (RUnlockWriteLocked (Resource args))), l)
          else if locksHeld > ReadLock
          then ((True, None), l\<lparr>perf_lockMap := (perf_lockMap l)(Resource args \<mapsto> locksHeld - ReadLock)\<rparr>)
          else ((True, None), l\<lparr>perf_lockMap := (perf_lockMap l)(Resource args := None)\<rparr>))"

definition perf_server :: "(unit, perf_lockServer) server" where
  "perf_server now m args l =
     (case m of RLock \<Rightarrow> perf_RLock args l
      | Lock \<Rightarrow> perf_Lock args l
      | RUnlock \<Rightarrow> perf_RUnlock args l
      | Unlock \<Rightarrow> perf_Unlock args l)"

definition perf_init :: perf_lockServer where
  "perf_init = \<lparr>perf_lockMap = Map.empty\<rparr>"

subsection \<open>Invariant, tokens and the contract\<close>

definition perf_inv :: "perf_lockServer \<Rightarrow> bool" where
  "perf_inv l \<longleftrightarrow> (\<forall>nm c. perf_lockMap l nm = Some c \<longrightarrow> c = WriteLock \<or> 1 \<le> c)"

definition perf_tok :: "perf_lockServer \<Rightarrow> string \<Rightarrow> bool \<Rightarrow> unit \<Rightarrow> nat" where
  "perf_tok l nm rd u =
     (case perf_lockMap l nm of None \<Rightarrow> 0
      | Some c \<Rightarrow> if rd then nat c else if c = WriteLock then 1 else 0)"

lemmas perf_handler_defs [handler_defs] = perf_server_def perf_Lock_def perf_RLock_def perf_Unlock_def
  perf_RUnlock_def WriteLock_def ReadLock_def

lemma perf_invD: "perf_inv l \<Longrightarrow> perf_lockMap l nm = Some c \<Longrightarrow> c = -1 \<or> 1 \<le> c"
  by (auto simp: perf_inv_def WriteLock_def)

lemma perf_inv_step:
  assumes "perf_inv l"
  shows "perf_inv (snd (perf_server now m args l))"
  using assms
  by (cases m; cases "perf_lockMap l (Resource args)")
     (fastforce simp: perf_handler_defs perf_inv_def split: if_splits)+

lemma perf_tok_at:
  "perf_lockMap l nm = None \<Longrightarrow> perf_tok l nm rd u = 0"
  "perf_lockMap l nm = Some c \<Longrightarrow> perf_tok l nm True u = nat c"
  "perf_lockMap l nm = Some c \<Longrightarrow> perf_tok l nm False u = (if c = -1 then 1 else 0)"
  by (simp_all add: perf_tok_def WriteLock_def)

interpretation perf: lock_server_live perf_server perf_inv perf_tok "\<lambda>_. ()" perf_init
proof (unfold_locales, goal_cases)
  case 1 show ?case by (simp add: perf_inv_def perf_init_def)
next
  case (2 r rd u) show ?case by (simp add: perf_tok_def perf_init_def)
next
  case (3 s e m args) then show ?case by (rule perf_inv_step)
next
  case (4 s r u) then show ?case
    by (auto simp: perf_tok_def WriteLock_def split: option.splits if_splits)
next
  case (5 s m e args r rd u)
  then show ?case using perf_invD[OF 5(1), of "Resource args"]
    by (cases rd; cases "perf_lockMap s (Resource args)")
       (auto simp: perf_handler_defs perf_tok_def is_read_def nat_add_distrib split: if_splits)
next
  case (6 s m e args r rd u) then show ?case
    by (auto simp: perf_handler_defs Let_def split: option.splits if_splits)
next
  case (7 s m r rd u e args)
  then show ?case using perf_invD[OF 7(1), of "Resource args"]
    by (cases rd; cases "perf_lockMap s (Resource args)")
       (auto simp: perf_handler_defs perf_tok_def is_read_def nat_diff_distrib split: if_splits)
next
  case (8 s m e args r rd u)
  then show ?case using perf_invD[OF 8(1), of "Resource args"]
    by (cases rd; cases "perf_lockMap s (Resource args)")
       (auto simp: perf_handler_defs perf_tok_def is_read_def split: if_splits)
next
  case (9 s args m e)
  have "perf_lockMap s (Resource args) = None"
    using 9(2)[of True] 9(2)[of False] perf_invD[OF 9(1), of "Resource args"]
    by (cases "perf_lockMap s (Resource args)") (auto simp: perf_tok_at split: if_splits)
  with 9(3) show ?case by (auto simp: perf_handler_defs)
next
  case (10 s args e)
  then show ?case
    by (cases "perf_lockMap s (Resource args)") (auto simp: perf_handler_defs perf_tok_at split: if_splits)
next
  case (11 s m args e)
  then show ?case using perf_invD[OF 11(1), of "Resource args"]
    by (cases "perf_lockMap s (Resource args)")
       (auto simp: perf_handler_defs perf_tok_def is_read_def nat_diff_distrib split: if_splits)
qed

subsection \<open>Bounds and exact behaviour\<close>

lemma perf_count_step:
  assumes "\<forall>nm c. perf_lockMap l nm = Some c \<longrightarrow> c = -1 \<or> 1 \<le> c \<and> c \<le> int b"
  shows "\<forall>nm c. perf_lockMap (snd (perf_server now m args l)) nm = Some c \<longrightarrow> c = -1 \<or> 1 \<le> c \<and> c \<le> int (Suc b)"
  using assms
  by (cases m; cases "perf_lockMap l (Resource args)") (fastforce simp: perf_handler_defs split: if_splits)+

lemma perf_count_run:
  assumes "\<forall>nm c. perf_lockMap l nm = Some c \<longrightarrow> c = -1 \<or> 1 \<le> c \<and> c \<le> int b"
  shows "\<forall>nm c. perf_lockMap (serve_all perf_server calls l) nm = Some c \<longrightarrow>
    c = -1 \<or> 1 \<le> c \<and> c \<le> int (b + length calls)"
  using assms
proof (induction calls arbitrary: l b)
  case Nil
  then show ?case by simp
next
  case (Cons x calls)
  obtain e m args where x: "x = (e, m, args)" by (cases x)
  show ?case
    using Cons.IH[OF perf_count_step[OF Cons.prems, of e m args]] by (simp add: x)
qed

text \<open>After any number of requests the counter of a resource is \<open>-1\<close> or between 1 and that
  number; so with fewer than \<open>2 ^ 63\<close> requests it stays in the range of the \<^verbatim>\<open>int64\<close> that the
  source stores.\<close>

theorem perf_count_bounds:
  assumes "length calls < 2 ^ 63"
    and "perf_lockMap (serve_all perf_server calls perf_init) nm = Some c"
  shows "(c = WriteLock \<or> ReadLock \<le> c \<and> c \<le> int (length calls)) \<and> - (2 ^ 63) \<le> c \<and> c < 2 ^ 63"
proof -
  have "c = -1 \<or> 1 \<le> c \<and> c \<le> int (length calls)"
    using perf_count_run[of perf_init 0 calls] assms(2) by (simp add: perf_init_def)
  then show ?thesis using assms(1) by (auto simp: WriteLock_def ReadLock_def)
qed

theorem perf_count_bounds_witness:
  "let a = \<lparr>UID = ''u'', Resource = ''r'', Source = []\<rparr>
   in perf_lockMap (serve_all perf_server [((), RLock, a), ((), RLock, a)] perf_init) ''r'' = Some 2
     \<and> (2::int) \<le> int (length [((), RLock, a), ((), RLock, a)])"
proof -
  let ?a = "\<lparr>UID = ''u'', Resource = ''r'', Source = []\<rparr>"
  have r: "perf_lockMap (serve_all perf_server [((), RLock, ?a), ((), RLock, ?a)] perf_init) ''r'' = Some 2"
    by (simp add: perf_handler_defs perf_init_def)
  show ?thesis
    using perf_count_bounds[OF _ r] r by (simp add: WriteLock_def)
qed

end
