(* ===== verification/System_Safety.thy ===== *)
theory System_Safety
  imports System_Invariant Chaos_Server Performance_Server
begin

section \<open>Safety of the concurrent system over any lock server of the contract\<close>

text \<open>
  The argument is an accounting one. Every lock that some part of the client side still counts on
  is a credit at the node that granted it: a reply in the hands of a goroutine, a grant in the
  channel of an attempt, an entry of the lock array of an attempt or of a mutex, an entry an
  unlock has still to release. The invariant \<open>covered\<close> says that at every node that has not lost
  its state the credits of a resource, kind and requester class are at most the tokens of the
  server. Two holders whose quorums meet in such a node then contradict the exclusion law of the
  server contract.
\<close>

definition uid_cred :: "(string \<Rightarrow> 'u) \<Rightarrow> 'u \<Rightarrow> string \<Rightarrow> nat" where
  "uid_cred cls u x = (if x \<noteq> [] \<and> cls x = u then 1 else 0)"

definition gor_cred :: "(string \<Rightarrow> 'u) \<Rightarrow> 'u \<Rightarrow> goroutine \<Rightarrow> nat" where
  "gor_cred cls u x = (case x of Replied g \<Rightarrow> uid_cred cls u (lockUID g) | _ \<Rightarrow> 0)"

definition chan_cred :: "(string \<Rightarrow> 'u) \<Rightarrow> 'u \<Rightarrow> nat \<Rightarrow> Granted list \<Rightarrow> nat" where
  "chan_cred cls u k ch = (\<Sum>g\<leftarrow>ch. if index g = k then uid_cred cls u (lockUID g) else 0)"

definition run_cred :: "(string \<Rightarrow> 'u) \<Rightarrow> string \<Rightarrow> bool \<Rightarrow> 'u \<Rightarrow> nat \<Rightarrow> lock_run \<Rightarrow> nat" where
  "run_cred cls nm rd u k r =
     (if run_name r = nm \<and> run_read r = rd
      then gor_cred cls u (goroutines r ! k) + chan_cred cls u k (chan r)
           + (if run_returned r then 0 else uid_cred cls u (run_locks r ! k))
      else 0)"

definition dm_cred :: "(string \<Rightarrow> 'u) \<Rightarrow> string \<Rightarrow> bool \<Rightarrow> 'u \<Rightarrow> nat \<Rightarrow> DRWMutex \<Rightarrow> nat" where
  "dm_cred cls nm rd u k dm =
     (if Name dm = nm
      then if rd then (\<Sum>ls\<leftarrow>readersLocks dm. uid_cred cls u (ls ! k)) else uid_cred cls u (writeLocks dm ! k)
      else 0)"

definition rel_cred :: "(string \<Rightarrow> 'u) \<Rightarrow> string \<Rightarrow> bool \<Rightarrow> 'u \<Rightarrow> nat \<Rightarrow> release_run \<Rightarrow> nat" where
  "rel_cred cls nm rd u k x =
     (if rel_name x = nm \<and> rel_read x = rd \<and> rel_next x \<le> k then uid_cred cls u (rel_locks x ! k) else 0)"

definition cred :: "(string \<Rightarrow> 'u) \<Rightarrow> string \<Rightarrow> bool \<Rightarrow> 'u \<Rightarrow> nat \<Rightarrow> 's sys \<Rightarrow> nat" where
  "cred cls nm rd u k S =
     (\<Sum>r\<leftarrow>runs S. run_cred cls nm rd u k r) + (\<Sum>dm\<leftarrow>mutexes S. dm_cred cls nm rd u k dm)
     + (\<Sum>x\<leftarrow>releases S. rel_cred cls nm rd u k x)"

lemmas cred_defs = uid_cred_def gor_cred_def chan_cred_def run_cred_def dm_cred_def rel_cred_def

lemma chan_cred_simps [simp]:
  "chan_cred cls u k [] = 0"
  "chan_cred cls u k (g # ch) = (if index g = k then uid_cred cls u (lockUID g) else 0) + chan_cred cls u k ch"
  "chan_cred cls u k (ch @ ch') = chan_cred cls u k ch + chan_cred cls u k ch'"
  by (simp_all add: chan_cred_def)

lemma uid_cred_Nil [simp]: "uid_cred cls u [] = 0"
  by (simp add: uid_cred_def)

lemma gor_cred_simps [simp]:
  "gor_cred cls u Calling = 0" "gor_cred cls u Sent = 0" "gor_cred cls u (Replied g) = uid_cred cls u (lockUID g)"
  by (simp_all add: gor_cred_def)

subsection \<open>How the actions move credits\<close>

lemma got_reply_cred:
  assumes "run_wf ds names r" and "j < length (restClnts ds)" and "goroutines r ! j = Calling"
  shows "run_cred cls nm rd u k (got_reply j locked r) \<le> run_cred cls nm rd u k r +
    (if k = j \<and> locked \<and> nm = run_name r \<and> rd = run_read r \<and> u = cls (run_id r) then 1 else 0)"
  using assms by (auto simp: run_cred_def got_reply_def run_wf_def nth_list_update uid_cred_def)

lemma send_grant_cred:
  assumes "run_wf ds names r" and "j < length (restClnts ds)" and "goroutines r ! j = Replied g"
  shows "run_cred cls nm rd u k (send_grant j g r) \<le> run_cred cls nm rd u k r"
  using assms by (auto simp: run_cred_def send_grant_def run_wf_def nth_list_update)

lemma recv_grant_cred:
  assumes "run_wf ds names r" and "chan r = g # ch" and "k < length (restClnts ds)" and "run_phase r = Collecting"
  shows "run_cred cls nm rd u k (recv_grant ds g ch r) \<le> run_cred cls nm rd u k r"
  using assms by (auto simp: run_cred_def recv_grant_def run_wf_def nth_list_update)

lemma released_one_cred:
  assumes "run_wf ds names r" and "j < length (restClnts ds)" and "run_phase r = Releasing j"
    and "run_locks r ! j \<noteq> []"
  shows "run_cred cls nm rd u k (released_one j r) +
    (if k = j \<and> nm = run_name r \<and> rd = run_read r \<and> u = cls (run_locks r ! j) then 1 else 0)
    \<le> run_cred cls nm rd u k r"
  using assms by (auto simp: run_cred_def released_one_def run_wf_def nth_list_update uid_cred_def)

lemma drained_one_cred:
  assumes "chan r = g # ch"
  shows "run_cred cls nm rd u k (drained_one ch r) +
    (if k = index g \<and> lockUID g \<noteq> [] \<and> nm = run_name r \<and> rd = run_read r \<and> u = cls (lockUID g) then 1 else 0)
    \<le> run_cred cls nm rd u k r"
  using assms by (auto simp: run_cred_def drained_one_def uid_cred_def)

lemma phase_cred [simp]:
  "run_cred cls nm rd u k (r\<lparr>run_phase := ph\<rparr>) = run_cred cls nm rd u k r"
  "run_cred cls nm rd u k (timer_fires ds r) = run_cred cls nm rd u k r"
  "run_cred cls nm rd u k (decide ds r) = run_cred cls nm rd u k r"
  by (auto simp: run_cred_def timer_fires_def decide_def)

lemma start_run_cred:
  assumes "dNodeCount ds = int (length (restClnts ds))" and "k < length (restClnts ds)"
  shows "run_cred cls nm rd u k (start_run ds j lockName ident source isRead) = 0"
  using assms by (simp add: run_cred_def start_run_def)

lemma store_locks_cred:
  assumes "dm_wf ds dm" and "length (run_locks r) = length (restClnts ds)"
    and "dNodeCount ds = int (length (restClnts ds))" and "run_name r = Name dm" and "\<not> run_returned r"
  shows "run_cred cls nm rd u k (r\<lparr>run_returned := True\<rparr>)
      + dm_cred cls nm rd u k (store_locks (run_read r) (run_locks r) dm)
    \<le> run_cred cls nm rd u k r + dm_cred cls nm rd u k dm"
  using assms by (auto simp: run_cred_def dm_cred_def store_locks_def dm_wf_def go_copy_same)

lemma take_locks_cred:
  assumes "dm_wf ds dm" and "dNodeCount ds = int (length (restClnts ds))" and "k < length (restClnts ds)"
    and "take_write_locks dm = Inr (locks, dm') \<and> \<not> isRead \<or> take_reader_locks dm = Inr (locks, dm') \<and> isRead"
  shows "dm_cred cls nm rd u k dm' +
      rel_cred cls nm rd u k \<lparr>rel_name = Name dm, rel_read = isRead, rel_locks = locks, rel_next = 0\<rparr>
    \<le> dm_cred cls nm rd u k dm"
  using assms(1,2,4)
  by (cases rule: take_locks_cases) (use assms(3) in \<open>simp_all add: dm_cred_def rel_cred_def\<close>)

lemma rel_next_cred:
  "rel_cred cls nm rd u k (x\<lparr>rel_next := Suc (rel_next x)\<rparr>) +
    (if k = rel_next x \<and> rel_locks x ! k \<noteq> [] \<and> nm = rel_name x \<and> rd = rel_read x \<and> u = cls (rel_locks x ! k)
     then 1 else 0)
   \<le> rel_cred cls nm rd u k x"
  by (auto simp: rel_cred_def uid_cred_def)

subsection \<open>Credits of an updated state\<close>

lemma cred_other [simp]:
  "cred cls nm rd u k (S\<lparr>servers := sv\<rparr>) = cred cls nm rd u k S"
  "cred cls nm rd u k (S\<lparr>servers := sv, runs := rs\<rparr>) = cred cls nm rd u k (S\<lparr>runs := rs\<rparr>)"
  "cred cls nm rd u k (S\<lparr>servers := sv, releases := xs\<rparr>) = cred cls nm rd u k (S\<lparr>releases := xs\<rparr>)"
  "cred cls nm rd u k (S\<lparr>servers := sv, crashed := cs\<rparr>) = cred cls nm rd u k S"
  by (simp_all add: cred_def)

lemma cred_run_update:
  assumes "p < length (runs S)"
  shows "cred cls nm rd u k (S\<lparr>runs := (runs S)[p := r']\<rparr>) + run_cred cls nm rd u k (runs S ! p) =
    cred cls nm rd u k S + run_cred cls nm rd u k r'"
  using sum_list_map_update[OF assms, of "run_cred cls nm rd u k" r'] by (simp add: cred_def)

lemma cred_dm_update:
  assumes "j < length (mutexes S)"
  shows "cred cls nm rd u k (S\<lparr>mutexes := (mutexes S)[j := dm']\<rparr>) + dm_cred cls nm rd u k (mutexes S ! j) =
    cred cls nm rd u k S + dm_cred cls nm rd u k dm'"
  using sum_list_map_update[OF assms, of "dm_cred cls nm rd u k" dm'] by (simp add: cred_def)

lemma cred_rel_update:
  assumes "p < length (releases S)"
  shows "cred cls nm rd u k (S\<lparr>releases := (releases S)[p := x']\<rparr>) + rel_cred cls nm rd u k (releases S ! p) =
    cred cls nm rd u k S + rel_cred cls nm rd u k x'"
  using sum_list_map_update[OF assms, of "rel_cred cls nm rd u k" x'] by (simp add: cred_def)

lemma cred_append:
  "cred cls nm rd u k (S\<lparr>runs := runs S @ [r]\<rparr>) = cred cls nm rd u k S + run_cred cls nm rd u k r"
  "cred cls nm rd u k (S\<lparr>releases := releases S @ [x]\<rparr>) = cred cls nm rd u k S + rel_cred cls nm rd u k x"
  by (simp_all add: cred_def)

lemma lock_method_cases: "lock_method rd = Lock \<or> lock_method rd = RLock"
  and release_method_cases: "release_method rd = Unlock \<or> release_method rd = RUnlock"
  and is_read_methods [simp]: "is_read (lock_method rd) = rd" "is_read (release_method rd) = rd"
  by (simp_all add: lock_method_def release_method_def is_read_def)

subsection \<open>Credits are covered by tokens\<close>

definition covered :: "('s \<Rightarrow> bool) \<Rightarrow> ('s \<Rightarrow> string \<Rightarrow> bool \<Rightarrow> 'u \<Rightarrow> nat) \<Rightarrow> (string \<Rightarrow> 'u) \<Rightarrow> Dsync \<Rightarrow> 's sys \<Rightarrow> bool" where
  "covered I tok cls ds S \<longleftrightarrow> (\<forall>c. I (servers S c)) \<and>
     (\<forall>k < length (restClnts ds). restClnts ds ! k \<notin> crashed S \<longrightarrow>
        (\<forall>nm rd u. cred cls nm rd u k S \<le> tok (servers S (restClnts ds ! k)) nm rd u))"

lemma covered_local:
  assumes "covered I tok cls ds S" and "servers S' = servers S" and "crashed S' = crashed S"
    and "\<And>k nm rd u. k < length (restClnts ds) \<Longrightarrow> cred cls nm rd u k S' \<le> cred cls nm rd u k S"
  shows "covered I tok cls ds S'"
  using assms le_trans unfolding covered_def by metis

lemma covered_rpc:
  assumes "covered I tok cls ds S" and "distinct (restClnts ds)" and "j < length (restClnts ds)"
    and "servers S' = (servers S)(restClnts ds ! j := s')" and "crashed S' = crashed S" and "I s'"
    and "\<And>k nm rd u. k < length (restClnts ds) \<Longrightarrow> k \<noteq> j \<Longrightarrow> cred cls nm rd u k S' \<le> cred cls nm rd u k S"
    and "\<And>nm rd u. cred cls nm rd u j S' + tok (servers S (restClnts ds ! j)) nm rd u
      \<le> cred cls nm rd u j S + tok s' nm rd u"
  shows "covered I tok cls ds S'"
  unfolding covered_def
proof (intro conjI allI impI)
  show "I (servers S' c)" for c using assms(1,4,6) by (simp add: covered_def)
  fix k nm rd u assume k: "k < length (restClnts ds)" "restClnts ds ! k \<notin> crashed S'"
  then have old: "cred cls nm rd u k S \<le> tok (servers S (restClnts ds ! k)) nm rd u"
    using assms(1,5) by (simp add: covered_def)
  show "cred cls nm rd u k S' \<le> tok (servers S' (restClnts ds ! k)) nm rd u"
  proof (cases "k = j")
    case True
    with old assms(8)[of nm rd u] assms(4) show ?thesis by simp
  next
    case False
    with assms(2,3) k have "restClnts ds ! k \<noteq> restClnts ds ! j" by (simp add: nth_eq_iff_index_eq)
    with False old assms(4) assms(7)[OF k(1) False, of nm rd u] show ?thesis by simp
  qed
qed

context lock_server
begin

text \<open>What an RPC over the unreliable network does to the tokens.\<close>

lemma rpc_lock:
  assumes "inv s" and "rpc srv f e (lock_method isRead) args s = ((locked, err), s')"
  shows "inv s'"
    and "tok s nm rd u + (if locked \<and> nm = Resource args \<and> rd = isRead \<and> u = cls (UID args) then 1 else 0)
      \<le> tok s' nm rd u"
  using assms inv_step[OF assms(1), of e "lock_method isRead" args]
    grant[OF assms(1) lock_method_cases[of isRead], of e args nm rd u]
    tok_mono[OF assms(1) lock_method_cases[of isRead], of nm rd u e args]
  by (auto simp: rpc_def split: fault.splits)

lemma rpc_release:
  assumes "inv s" and "s' = snd (rpc srv f e (release_method isRead) (release_args n x) s)"
  shows "inv s'"
    and "tok s nm rd u \<le> tok s' nm rd u + (if nm = n \<and> rd = isRead \<and> u = cls x then 1 else 0)"
  using assms inv_step[OF assms(1), of e "release_method isRead" "release_args n x"]
    release[OF assms(1) release_method_cases[of isRead], of nm rd u e "release_args n x"]
  by (auto simp: rpc_def release_args_def split: fault.splits)

lemma covered_init: "covered inv tok cls ds (sys_init init ds names)" if "dsync_ok ds"
proof -
  have "dm_cred cls nm rd u k (NewDRWMutex x ds) = 0" if "k < length (restClnts ds)" for nm rd u k x
    using that dsync_okD(1)[OF \<open>dsync_ok ds\<close>] by (simp add: dm_cred_def NewDRWMutex_def)
  then have "cred cls nm rd u k (sys_init init ds names) = 0" if "k < length (restClnts ds)" for nm rd u k
    using that by (simp add: cred_def sys_init_def o_def)
  then show ?thesis by (simp add: covered_def sys_init_def inv_init)
qed

text \<open>An RPC of an attempt: the credit of the run moves no further than the tokens of the node.\<close>

lemma covered_run_step:
  assumes "covered inv tok cls ds S" and "p < length (runs S)"
    and "\<And>k nm rd u. k < length (restClnts ds) \<Longrightarrow> run_cred cls nm rd u k r' \<le> run_cred cls nm rd u k (runs S ! p)"
  shows "covered inv tok cls ds (S\<lparr>runs := (runs S)[p := r']\<rparr>)"
  using assms(1)
proof (rule covered_local)
  fix k nm rd u assume "k < length (restClnts ds)"
  then show "cred cls nm rd u k (S\<lparr>runs := (runs S)[p := r']\<rparr>) \<le> cred cls nm rd u k S"
    using cred_run_update[OF assms(2), of cls nm rd u k r'] assms(3)[of k nm rd u] by simp
qed simp_all

lemma covered_run_rpc:
  assumes "covered inv tok cls ds S" and "distinct (restClnts ds)" and "j < length (restClnts ds)"
    and p: "p < length (runs S)" and "inv s'"
    and "\<And>k nm rd u. k < length (restClnts ds) \<Longrightarrow> k \<noteq> j \<Longrightarrow>
      run_cred cls nm rd u k r' \<le> run_cred cls nm rd u k (runs S ! p)"
    and "\<And>nm rd u. run_cred cls nm rd u j r' + tok (servers S (restClnts ds ! j)) nm rd u
      \<le> run_cred cls nm rd u j (runs S ! p) + tok s' nm rd u"
  shows "covered inv tok cls ds (S\<lparr>servers := (servers S)(restClnts ds ! j := s'), runs := (runs S)[p := r']\<rparr>)"
  using assms(1-3)
proof (rule covered_rpc[where s' = s'])
  show "cred cls nm rd u k (S\<lparr>servers := (servers S)(restClnts ds ! j := s'), runs := (runs S)[p := r']\<rparr>)
      \<le> cred cls nm rd u k S" if "k < length (restClnts ds)" "k \<noteq> j" for k nm rd u
    using cred_run_update[OF p, of cls nm rd u k r'] assms(6)[OF that, of nm rd u] by simp
  show "cred cls nm rd u j (S\<lparr>servers := (servers S)(restClnts ds ! j := s'), runs := (runs S)[p := r']\<rparr>)
      + tok (servers S (restClnts ds ! j)) nm rd u \<le> cred cls nm rd u j S + tok s' nm rd u" for nm rd u
    using cred_run_update[OF p, of cls nm rd u j r'] assms(7)[of nm rd u] by simp
qed (simp_all add: assms(5))

lemma covered_unlock:
  assumes "covered inv tok cls ds S" and "sys_wf ds names S" and n: "dNodeCount ds = int (length (restClnts ds))"
    and j: "j < length (mutexes S)"
    and "take_write_locks (mutexes S ! j) = Inr (locks, dm') \<and> \<not> isRead
      \<or> take_reader_locks (mutexes S ! j) = Inr (locks, dm') \<and> isRead"
  shows "covered inv tok cls ds (S\<lparr>mutexes := (mutexes S)[j := dm'],
    releases := releases S @ [\<lparr>rel_name = Name (mutexes S ! j), rel_read = isRead, rel_locks = locks, rel_next = 0\<rparr>]\<rparr>)"
  using assms(1)
proof (rule covered_local)
  fix k nm rd u assume "k < length (restClnts ds)"
  then show "cred cls nm rd u k (S\<lparr>mutexes := (mutexes S)[j := dm'], releases := releases S @
      [\<lparr>rel_name = Name (mutexes S ! j), rel_read = isRead, rel_locks = locks, rel_next = 0\<rparr>]\<rparr>) \<le> cred cls nm rd u k S"
    using cred_dm_update[OF j, of cls nm rd u k dm'] cred_append(2)[of cls nm rd u k "S\<lparr>mutexes := (mutexes S)[j := dm']\<rparr>"]
      take_locks_cred[OF sys_wf_dm[OF assms(2) j] n _ assms(5), of k cls nm rd u]
    by simp
qed simp_all

lemma covered_return:
  assumes "covered inv tok cls ds S" and "sys_wf ds names S" and n: "dNodeCount ds = int (length (restClnts ds))"
    and p: "p < length (runs S)" and r: "r = runs S ! p" and "\<not> run_returned r" and j: "j = run_dm r"
  shows "covered inv tok cls ds (S\<lparr>runs := (runs S)[p := r\<lparr>run_returned := True\<rparr>],
    mutexes := (if q then (mutexes S)[j := store_locks (run_read r) (run_locks r) (mutexes S ! j)] else mutexes S)\<rparr>)"
  using assms(1)
proof (rule covered_local)
  have wf: "run_wf ds names r" using assms(2) p r by (simp add: sys_wf_run)
  then have jl: "j < length (mutexes S)" and nm: "run_name r = Name (mutexes S ! j)"
    using assms(2) j by (auto simp: run_wf_def sys_wf_def)
  let ?dm = "store_locks (run_read r) (run_locks r) (mutexes S ! j)"
  let ?S = "S\<lparr>runs := (runs S)[p := r\<lparr>run_returned := True\<rparr>]\<rparr>"
  fix k n rd u
  have le: "run_cred cls n rd u k (r\<lparr>run_returned := True\<rparr>) \<le> run_cred cls n rd u k r"
    by (simp add: run_cred_def)
  have "run_cred cls n rd u k (r\<lparr>run_returned := True\<rparr>) + dm_cred cls n rd u k ?dm
    \<le> run_cred cls n rd u k r + dm_cred cls n rd u k (mutexes S ! j)"
    using store_locks_cred[OF sys_wf_dm[OF assms(2) jl] _ assms(3) nm assms(6)] wf by (simp add: run_wf_def)
  then show "cred cls n rd u k (S\<lparr>runs := (runs S)[p := r\<lparr>run_returned := True\<rparr>],
      mutexes := (if q then (mutexes S)[j := ?dm] else mutexes S)\<rparr>) \<le> cred cls n rd u k S"
    using cred_run_update[OF p, of cls n rd u k "r\<lparr>run_returned := True\<rparr>"] le
      cred_dm_update[of j ?S cls n rd u k ?dm] jl r
    by (cases q) simp_all
qed simp_all

lemma covered_rel_rpc:
  assumes "covered inv tok cls ds S" and "distinct (restClnts ds)" and j: "j = rel_next x" "j < length (restClnts ds)"
    and p: "p < length (releases S)" and x: "x = releases S ! p" and "rel_locks x ! j \<noteq> []"
    and s': "s' = snd (rpc srv f e (release_method (rel_read x)) (release_args (rel_name x) (rel_locks x ! j))
      (servers S (restClnts ds ! j)))"
  shows "covered inv tok cls ds (S\<lparr>servers := (servers S)(restClnts ds ! j := s'),
    releases := (releases S)[p := x\<lparr>rel_next := Suc (rel_next x)\<rparr>]\<rparr>)"
  using assms(1,2) j(2)
proof (rule covered_rpc[where s' = s'])
  let ?x = "x\<lparr>rel_next := Suc (rel_next x)\<rparr>"
  have i: "inv (servers S (restClnts ds ! j))" using assms(1) by (simp add: covered_def)
  show "inv s'" using rpc_release(1)[OF i s'] .
  show "cred cls nm rd u k (S\<lparr>servers := (servers S)(restClnts ds ! j := s'), releases := (releases S)[p := ?x]\<rparr>)
      \<le> cred cls nm rd u k S" for k nm rd u
    using cred_rel_update[OF p, of cls nm rd u k ?x] rel_next_cred[of cls nm rd u k x] x by simp
  show "cred cls nm rd u j (S\<lparr>servers := (servers S)(restClnts ds ! j := s'), releases := (releases S)[p := ?x]\<rparr>)
      + tok (servers S (restClnts ds ! j)) nm rd u \<le> cred cls nm rd u j S + tok s' nm rd u" for nm rd u
    using cred_rel_update[OF p, of cls nm rd u j ?x] rel_next_cred[of cls nm rd u j x]
      rpc_release(2)[OF i s', of nm rd u] assms(7) x j(1) by auto
qed simp_all

text \<open>The calls of the broadcast and the releases by the collector.\<close>

lemma covered_call:
  assumes cov: "covered inv tok cls ds S" and wf: "run_wf ds names r" and "distinct (restClnts ds)"
    and p: "p < length (runs S)" and r: "r = runs S ! p" and j: "j < length (restClnts ds)"
    and "goroutines r ! j = Calling"
    and call: "rpc srv f e (lock_method (run_read r)) (run_args r) (servers S (restClnts ds ! j)) = ((locked, err), s')"
  shows "covered inv tok cls ds (S\<lparr>servers := (servers S)(restClnts ds ! j := s'), runs := (runs S)[p := got_reply j locked r]\<rparr>)"
  using cov assms(3) j p
proof (rule covered_run_rpc)
  note gain = got_reply_cred[OF wf j assms(7), of cls _ _ _ _ locked]
  have i: "inv (servers S (restClnts ds ! j))" using cov by (simp add: covered_def)
  show "inv s'" using rpc_lock(1)[OF i call] .
  show "run_cred cls nm rd u k (got_reply j locked r) \<le> run_cred cls nm rd u k (runs S ! p)" if "k \<noteq> j" for k nm rd u
    using gain[of nm rd u k] that r by simp
  show "run_cred cls nm rd u j (got_reply j locked r) + tok (servers S (restClnts ds ! j)) nm rd u
      \<le> run_cred cls nm rd u j (runs S ! p) + tok s' nm rd u" for nm rd u
    using gain[of nm rd u j] rpc_lock(2)[OF i call, of nm rd u] r by (simp add: run_args_def split: if_splits)
qed

lemma covered_run_release:
  assumes cov: "covered inv tok cls ds S" and "distinct (restClnts ds)"
    and p: "p < length (runs S)" and r: "r = runs S ! p" and j: "j < length (restClnts ds)"
    and s': "s' = snd (rpc srv f e (release_method (run_read r)) (release_args (run_name r) x) (servers S (restClnts ds ! j)))"
    and gain: "\<And>k nm rd u. run_cred cls nm rd u k r' +
      (if k = j \<and> nm = run_name r \<and> rd = run_read r \<and> u = cls x then 1 else 0) \<le> run_cred cls nm rd u k r"
  shows "covered inv tok cls ds (S\<lparr>servers := (servers S)(restClnts ds ! j := s'), runs := (runs S)[p := r']\<rparr>)"
  using cov assms(2) j p
proof (rule covered_run_rpc)
  have i: "inv (servers S (restClnts ds ! j))" using cov by (simp add: covered_def)
  show "inv s'" using rpc_release(1)[OF i s'] .
  show "run_cred cls nm rd u k r' \<le> run_cred cls nm rd u k (runs S ! p)" for k nm rd u
    using gain[of nm rd u k] r by simp
  show "run_cred cls nm rd u j r' + tok (servers S (restClnts ds ! j)) nm rd u
      \<le> run_cred cls nm rd u j (runs S ! p) + tok s' nm rd u" for nm rd u
    using gain[of nm rd u j] rpc_release(2)[OF i s', of nm rd u] r by (simp split: if_splits)
qed

lemma covered_step:
  assumes "sys_step srv init ds S S'" and cov: "covered inv tok cls ds S" and wf: "sys_wf ds names S" and ok: "dsync_ok ds"
  shows "covered inv tok cls ds S'"
proof -
  note n = dsync_okD(1)[OF ok]
  note dist = dsync_okD(6)[OF ok]
  note local = covered_run_step[OF cov] and run = sys_wf_run[OF wf]
  show ?thesis
    using assms(1)
  proof cases
    case (start j ident source rd)
    show ?thesis
      using cov unfolding start(1) by (rule covered_local) (simp_all add: cred_append start_run_cred[OF n])
  next
    case (call p r k c f e locked err s')
    then show ?thesis using covered_call[OF cov, of names r] dist run by blast
  next
    case (send p r k g)
    show ?thesis
      unfolding send(1) by (rule local[OF send(2)]) (use send send_grant_cred[of ds names r k g cls] run in simp)
  next
    case (recv p r g ch)
    show ?thesis
      unfolding recv(1) by (rule local[OF recv(2)]) (use recv recv_grant_cred[of ds names r g ch _ cls] run in simp)
  next
    case (timeout p r)
    show ?thesis
      unfolding timeout(1) by (rule local[OF timeout(2)]) (simp add: timeout(3))
  next
    case (loop_end p r)
    show ?thesis
      unfolding loop_end(1) by (rule local[OF loop_end(2)]) (simp add: loop_end(3))
  next
    case (rel_locked p r k c s' f e)
    then have k: "k < length (restClnts ds)" "run_locks r ! k \<noteq> []" "s' = snd (rpc srv f e (release_method (run_read r))
        (release_args (run_name r) (run_locks r ! k)) (servers S (restClnts ds ! k)))" using n by simp_all
    then show ?thesis
      using covered_run_release[OF cov dist rel_locked(2,3) k(1,3)] released_one_cred[of ds names r k cls]
        run rel_locked by simp
  next
    case (rel_skip p r k)
    show ?thesis
      unfolding rel_skip(1) by (rule local[OF rel_skip(2)]) (simp add: rel_skip(3))
  next
    case (rel_end p r k)
    show ?thesis
      unfolding rel_end(1) by (rule local[OF rel_end(2)]) (simp add: rel_end(3))
  next
    case (decided p r)
    show ?thesis
      unfolding decided(1) by (rule local[OF decided(2)]) (simp add: decided(3))
  next
    case (drain_locked p r g ch c s' f e)
    then have k: "index g < length (restClnts ds)" "s' = snd (rpc srv f e (release_method (run_read r))
        (release_args (run_name r) (lockUID g)) (servers S (restClnts ds ! index g)))"
      using run[of p] by (simp_all add: run_wf_def)
    then show ?thesis
      using covered_run_release[OF cov dist drain_locked(2,3) k] drained_one_cred[of r g ch cls] drain_locked by simp
  next
    case (drain_skip p r g ch)
    show ?thesis
      unfolding drain_skip(1) by (rule local[OF drain_skip(2)]) (use drain_skip drained_one_cred[of r g ch cls] in simp)
  next
    case (return p r q j)
    then show ?thesis using covered_return[OF cov wf n] by blast
  next
    case (unlock_w j locks dm')
    then show ?thesis using covered_unlock[OF cov wf n, of j locks dm' False] by simp
  next
    case (unlock_r j locks dm')
    then show ?thesis using covered_unlock[OF cov wf n, of j locks dm' True] by simp
  next
    case (unlock_send p x c s' f e)
    then show ?thesis using covered_rel_rpc[OF cov dist refl, of x p s' f e] by simp
  next
    case (unlock_skip p x)
    have "rel_cred cls nm rd u k (x\<lparr>rel_next := Suc (rel_next x)\<rparr>) \<le> rel_cred cls nm rd u k x" for nm rd u k
      by (simp add: rel_cred_def)
    then have le: "cred cls nm rd u k S' \<le> cred cls nm rd u k S" for nm rd u k
      using cred_rel_update[OF unlock_skip(2), of cls nm rd u k "x\<lparr>rel_next := Suc (rel_next x)\<rparr>"] unlock_skip
      by (metis add_le_cancel_left add_le_cancel_right)
    show ?thesis
      using cov by (rule covered_local[OF _ _ _ le]) (simp_all add: unlock_skip(1))
  next
    case (crash c)
    then show ?thesis using cov inv_init by (auto simp: covered_def)
  qed
qed

lemma reachable_covered:
  "reachable srv init ds names S \<Longrightarrow> dsync_ok ds \<Longrightarrow> covered inv tok cls ds S"
proof (induction rule: reachable.induct)
  case initial
  then show ?case by (rule covered_init)
next
  case (step S S')
  then show ?case using covered_step[OF step(2) _ reachable_wf[OF step(1)]] by blast
qed

end

subsection \<open>Holders are credits and have quorums\<close>

lemma sum_list_concat_le:
  fixes f :: "'a \<Rightarrow> nat"
  assumes "\<And>x. x \<in> set xs \<Longrightarrow> (\<Sum>y\<leftarrow>g x. f y) \<le> h x"
  shows "(\<Sum>y\<leftarrow>concat (map g xs). f y) \<le> (\<Sum>x\<leftarrow>xs. h x)"
  unfolding sum_list_map_concat using assms by (induction xs) (auto intro: add_mono)

lemma held_cred: "(\<Sum>ls\<leftarrow>held S nm rd. uid_cred cls u (ls ! k)) \<le> cred cls nm rd u k S"
proof -
  have "(\<Sum>ls\<leftarrow>concat (map (run_held nm rd) (runs S)). uid_cred cls u (ls ! k)) \<le> (\<Sum>r\<leftarrow>runs S. run_cred cls nm rd u k r)"
    by (rule sum_list_concat_le) (auto simp: run_held_def run_cred_def)
  moreover have "(\<Sum>ls\<leftarrow>concat (map (dm_held nm rd) (mutexes S)). uid_cred cls u (ls ! k)) \<le> (\<Sum>dm\<leftarrow>mutexes S. dm_cred cls nm rd u k dm)"
    by (rule sum_list_concat_le) (auto simp: dm_held_def dm_cred_def)
  ultimately show ?thesis by (simp add: held_def cred_def)
qed

lemma held_quorum:
  assumes "sys_wf ds names S" and "ls \<in> set (held S nm rd)"
  shows "length ls = length (restClnts ds)" and "quorum_of ds rd \<le> int (card (idx_where (\<lambda>u. u \<noteq> []) ls))"
  using assms unfolding held_def sys_wf_def
  by (auto simp: run_held_def dm_held_def run_wf_def dm_wf_def simp flip: quorumMet_card split: if_splits)

lemma crashed_subset: "reachable srv init ds names S \<Longrightarrow> crashed S \<subseteq> set (restClnts ds)"
proof (induction rule: reachable.induct)
  case initial
  then show ?case by (simp add: sys_init_def)
next
  case (step S S')
  from step(2,3) show ?case by cases auto
qed

lemma card_crashed_nodes:
  assumes "crashed S \<subseteq> set refs" and "distinct refs"
  shows "card {k. k < length refs \<and> refs ! k \<in> crashed S} \<le> card (crashed S)"
  using assms by (intro card_inj_on_le[of "(!) refs"])
    (auto simp: inj_on_def nth_eq_iff_index_eq intro: finite_subset)

subsection \<open>Exclusion\<close>

context lock_server
begin

text \<open>Two holders of which one is a writer meet in a node that remembers both; its server would
  record two tokens.\<close>

lemma holders_exclude:
  assumes "reachable srv init ds names S" and ok: "dsync_ok ds"
    and i: "i < length (held S nm False)" and j: "j < length (held S nm rd)" and "rd \<or> i \<noteq> j"
    and "int (card (crashed S)) < quorum_of ds False + quorum_of ds rd - dNodeCount ds"
  shows False
proof -
  let ?n = "length (restClnts ds)"
  let ?L = "held S nm False ! i" and ?M = "held S nm rd ! j"
  let ?E = "{k. k < ?n \<and> restClnts ds ! k \<in> crashed S}"
  have wf: "sys_wf ds names S" using assms(1) ok by (rule reachable_wf)
  note L = held_quorum[OF wf nth_mem[OF i]] and M = held_quorum[OF wf nth_mem[OF j]]
  have "card ?E \<le> card (crashed S)"
    using crashed_subset[OF assms(1)] dsync_okD(6)[OF ok] by (rule card_crashed_nodes)
  then have "?n + card ?E < card (idx_where (\<lambda>u. u \<noteq> []) ?L) + card (idx_where (\<lambda>u. u \<noteq> []) ?M)"
    using L(2) M(2) assms(6) dsync_okD(1)[OF ok] by linarith
  then obtain k where k: "k \<in> idx_where (\<lambda>u. u \<noteq> []) ?L" "k \<in> idx_where (\<lambda>u. u \<noteq> []) ?M" "k \<notin> ?E"
    using subsets_meet[of "idx_where (\<lambda>u. u \<noteq> []) ?L" ?n "idx_where (\<lambda>u. u \<noteq> []) ?M" ?E] L(1) M(1) by auto
  let ?s = "servers S (restClnts ds ! k)" and ?u = "cls (?L ! k)" and ?v = "cls (?M ! k)"
  have kn: "k < ?n" using k L(1) by simp
  have inv: "inv ?s" and tok: "(\<Sum>ls\<leftarrow>held S nm rd'. uid_cred cls u (ls ! k)) \<le> tok ?s nm rd' u" for rd' u
    using reachable_covered[OF assms(1) ok] kn k(3) held_cred[of cls u k S nm rd']
    unfolding covered_def by (auto intro: le_trans)
  have one: "uid_cred cls (cls x) x = 1" if "x \<noteq> []" for x using that by (simp add: uid_cred_def)
  have "0 < tok ?s nm False ?u" "0 < tok ?s nm rd ?v"
    using sum_list_map_ge_elem[OF i, of "\<lambda>ls. uid_cred cls ?u (ls ! k)"] tok[of ?u False] one k(1)
      sum_list_map_ge_elem[OF j, of "\<lambda>ls. uid_cred cls ?v (ls ! k)"] tok[of ?v rd] k(2) by auto
  from no_two_tokens[OF inv this] have eq: "?v = ?u" "\<not> rd" "tok ?s nm rd ?v = 1" by auto
  then have "i \<noteq> j" using assms(5) by simp
  have "uid_cred cls ?u (?L ! k) = 1" "uid_cred cls ?u (?M ! k) = 1"
    using one[of "?L ! k"] one[of "?M ! k"] k(1,2) eq(1) by auto
  with sum_list_map_ge_two[OF i _ \<open>i \<noteq> j\<close>, of "\<lambda>ls. uid_cred cls ?u (ls ! k)"] j eq tok[of ?u False]
  show False by simp
qed

lemma at_most_one_writer:
  assumes "reachable srv init ds names S" and "dsync_ok ds"
    and "int (card (crashed S)) < 2 * dquorum ds - dNodeCount ds"
  shows "writers S nm \<le> 1"
proof (rule ccontr)
  assume "\<not> writers S nm \<le> 1"
  then have "0 < length (held S nm False)" "1 < length (held S nm False)" by (auto simp: writers_def)
  from holders_exclude[OF assms(1,2) this] assms(3) show False by (simp add: quorum_of_def)
qed

lemma writer_excludes_readers:
  assumes "reachable srv init ds names S" and ok: "dsync_ok ds" and "crashed S = {}" and "0 < writers S nm"
  shows "readers S nm = 0"
proof (rule ccontr)
  assume "readers S nm \<noteq> 0"
  then have "0 < length (held S nm False)" "0 < length (held S nm True)"
    using assms(4) by (simp_all add: writers_def readers_def)
  moreover have "dNodeCount ds < quorum_of ds False + quorum_of ds True"
    using dsync_okD[OF ok] by (simp add: quorum_of_def)
  ultimately show False using holders_exclude[OF assms(1,2), of 0 nm 0 True] assms(3) by simp
qed

end

end
