(* ===== verification/Rw_Spec.thy ===== *)
theory Rw_Spec
  imports System_Safety
begin

section \<open>The abstract readers-writer lock and the refinement\<close>

text \<open>
  What the package promises to its callers, as an abstract machine: every resource has a number
  of writers and of readers; a writer enters a free resource, a reader enters a resource without
  a writer, and holders leave. The concurrent system refines it while no server loses its state:
  every step of the system is a step of the abstract lock or leaves the holders as they are.
\<close>

type_synonym rw_state = "string \<Rightarrow> nat \<times> nat"

datatype rw_event = AcquireW string | AcquireR string | ReleaseW string | ReleaseR string | Stutter

text \<open>The abstract operations; \<open>None\<close> where the event is not allowed.\<close>

fun rw_apply :: "rw_event \<Rightarrow> rw_state \<Rightarrow> rw_state option" where
  "rw_apply (AcquireW nm) A = (if A nm = (0, 0) then Some (A(nm := (1, 0))) else None)"
| "rw_apply (AcquireR nm) A = (if fst (A nm) = 0 then Some (A(nm := (0, Suc (snd (A nm))))) else None)"
| "rw_apply (ReleaseW nm) A = (if A nm = (1, 0) then Some (A(nm := (0, 0))) else None)"
| "rw_apply (ReleaseR nm) A =
     (if fst (A nm) = 0 \<and> 0 < snd (A nm) then Some (A(nm := (0, snd (A nm) - 1))) else None)"
| "rw_apply Stutter A = Some A"

text \<open>The abstraction function.\<close>

definition rw_abs :: "'s sys \<Rightarrow> rw_state" where
  "rw_abs S nm = (writers S nm, readers S nm)"

subsection \<open>Counting holders\<close>

text \<open>The number of holders of one kind is a sum over attempts and mutexes.\<close>

definition run_holds :: "string \<Rightarrow> bool \<Rightarrow> lock_run \<Rightarrow> nat" where
  "run_holds nm rd r = length (run_held nm rd r)"

definition dm_holds :: "string \<Rightarrow> bool \<Rightarrow> DRWMutex \<Rightarrow> nat" where
  "dm_holds nm rd dm = length (dm_held nm rd dm)"

definition holders :: "string \<Rightarrow> bool \<Rightarrow> 's sys \<Rightarrow> nat" where
  "holders nm rd S = (\<Sum>r\<leftarrow>runs S. run_holds nm rd r) + (\<Sum>dm\<leftarrow>mutexes S. dm_holds nm rd dm)"

lemma length_held: "length (held S nm rd) = holders nm rd S"
  by (simp add: held_def holders_def length_concat run_holds_def dm_holds_def o_def)

lemma rw_abs_holders: "rw_abs S nm = (holders nm False S, holders nm True S)"
  by (simp add: rw_abs_def writers_def readers_def length_held)

lemma holders_run_update:
  assumes "p < length (runs S)"
  shows "holders nm rd (S\<lparr>runs := (runs S)[p := r']\<rparr>) + run_holds nm rd (runs S ! p) =
    holders nm rd S + run_holds nm rd r'"
  using sum_list_map_update[OF assms, of "run_holds nm rd" r'] by (simp add: holders_def)

lemma holders_dm_update:
  assumes "j < length (mutexes S)"
  shows "holders nm rd (S\<lparr>mutexes := (mutexes S)[j := dm']\<rparr>) + dm_holds nm rd (mutexes S ! j) =
    holders nm rd S + dm_holds nm rd dm'"
  using sum_list_map_update[OF assms, of "dm_holds nm rd" dm'] by (simp add: holders_def)

lemma holders_other [simp]:
  "holders nm rd (S\<lparr>servers := sv\<rparr>) = holders nm rd S"
  "holders nm rd (S\<lparr>crashed := cs\<rparr>) = holders nm rd S"
  "holders nm rd (S\<lparr>servers := sv, runs := rs\<rparr>) = holders nm rd (S\<lparr>runs := rs\<rparr>)"
  "holders nm rd (S\<lparr>releases := xs\<rparr>) = holders nm rd S"
  "holders nm rd (S\<lparr>servers := sv, releases := xs\<rparr>) = holders nm rd S"
  "holders nm rd (S\<lparr>servers := sv, crashed := cs\<rparr>) = holders nm rd S"
  by (simp_all add: holders_def)

text \<open>Only the decision changes what an attempt holds before it returns.\<close>

lemma run_holds_same [simp]:
  "run_holds nm rd (got_reply k locked r) = run_holds nm rd r"
  "run_holds nm rd (send_grant k g r) = run_holds nm rd r"
  "run_holds nm rd (recv_grant ds g ch r) = run_holds nm rd r"
  "run_holds nm rd (timer_fires ds r) = run_holds nm rd r"
  "run_holds nm rd (r\<lparr>run_phase := ph\<rparr>) = run_holds nm rd r"
  "run_holds nm rd (released_one k r) = run_holds nm rd r"
  "run_holds nm rd (drained_one ch r) = run_holds nm rd r"
  by (simp_all add: run_holds_def run_held_def step_defs)

lemma run_holds_start [simp]: "run_holds nm rd (start_run ds j lockName ident source isRead) = 0"
  by (simp add: run_holds_def run_held_def start_run_def)

lemma run_holds_decide:
  assumes "run_quorum r = None" and "\<not> run_returned r"
  shows "run_holds nm rd r = 0"
    and "run_holds nm rd (decide ds r) =
      (if run_name r = nm \<and> run_read r = rd \<and> run_quorum (decide ds r) = Some True then 1 else 0)"
  using assms by (cases "run_read r"; auto simp: run_holds_def run_held_def decide_def)+

lemma holders_run_same:
  assumes "p < length (runs S)" and "\<And>nm rd. run_holds nm rd r' = run_holds nm rd (runs S ! p)"
  shows "holders nm rd (S\<lparr>runs := (runs S)[p := r']\<rparr>) = holders nm rd S"
  using holders_run_update[OF assms(1), of nm rd r'] assms(2)[of nm rd] by simp

lemma quorum_active:
  assumes "dsync_ok ds" and "quorumMet locks rd (dquorum ds) (dquorumReads ds)"
  shows "active locks"
proof -
  have "0 < card (idx_where (\<lambda>u. u \<noteq> []) locks)"
    using assms quorum_of_pos[OF assms(1), of rd] by (simp add: quorumMet_card)
  then obtain k where "k < length locks" "locks ! k \<noteq> []" by (auto simp: card_gt_0_iff)
  then show ?thesis by (auto simp: active_def intro: nth_mem)
qed

subsection \<open>What a step does to the number of holders\<close>

definition changes_by :: "'s sys \<Rightarrow> 's sys \<Rightarrow> string \<Rightarrow> bool \<Rightarrow> bool" where
  "changes_by S S' nm0 rd0 \<longleftrightarrow>
     (\<forall>nm rd. holders nm rd S' = holders nm rd S + (if nm = nm0 \<and> rd = rd0 then 1 else 0))"

definition same_holders :: "'s sys \<Rightarrow> 's sys \<Rightarrow> bool" where
  "same_holders S S' \<longleftrightarrow> (\<forall>nm rd. holders nm rd S' = holders nm rd S)"

lemma holders_decide:
  assumes "run_wf ds names (runs S ! p)" and p: "p < length (runs S)" and "run_phase (runs S ! p) = Deciding"
  shows "same_holders S (S\<lparr>runs := (runs S)[p := decide ds (runs S ! p)]\<rparr>)
    \<or> changes_by S (S\<lparr>runs := (runs S)[p := decide ds (runs S ! p)]\<rparr>) (run_name (runs S ! p)) (run_read (runs S ! p))"
proof -
  let ?r = "runs S ! p"
  have r: "run_quorum ?r = None" "\<not> run_returned ?r" using assms(1,3) by (auto simp: run_wf_def)
  have "holders nm rd (S\<lparr>runs := (runs S)[p := decide ds ?r]\<rparr>) = holders nm rd S +
      (if run_name ?r = nm \<and> run_read ?r = rd \<and> run_quorum (decide ds ?r) = Some True then 1 else 0)" for nm rd
    using holders_run_update[OF p, of nm rd "decide ds ?r"] run_holds_decide[OF r, of nm rd] by simp
  then show ?thesis
    by (cases "run_quorum (decide ds ?r) = Some True") (auto simp: same_holders_def changes_by_def)
qed

lemma holders_unlock:
  assumes "sys_wf ds names S" and n: "dNodeCount ds = int (length (restClnts ds))" and j: "j < length (mutexes S)"
    and "take_write_locks (mutexes S ! j) = Inr (locks, dm') \<and> \<not> isRead
      \<or> take_reader_locks (mutexes S ! j) = Inr (locks, dm') \<and> isRead"
  shows "changes_by (S\<lparr>mutexes := (mutexes S)[j := dm']\<rparr>) S (Name (mutexes S ! j)) isRead"
proof -
  let ?dm = "mutexes S ! j"
  note wf = sys_wf_dm[OF assms(1) j]
  have d: "dm_holds nm rd ?dm = dm_holds nm rd dm' + (if nm = Name ?dm \<and> rd = isRead then 1 else 0)" for nm rd
    using wf n assms(4) by (cases rule: take_locks_cases) (simp_all add: dm_holds_def dm_held_def)
  have "holders nm rd S = holders nm rd (S\<lparr>mutexes := (mutexes S)[j := dm']\<rparr>)
      + (if nm = Name ?dm \<and> rd = isRead then 1 else 0)" for nm rd
    using holders_dm_update[OF j, of nm rd dm'] d[of nm rd] by linarith
  then show ?thesis by (simp add: changes_by_def)
qed

text \<open>A write attempt that has its quorum finds no write lock in its mutex when it returns.\<close>

lemma writer_slot_free:
  assumes p: "p < length (runs S)" and j: "j < length (mutexes S)"
    and "run_quorum (runs S ! p) = Some True" and "\<not> run_returned (runs S ! p)" and "\<not> run_read (runs S ! p)"
    and nm: "run_name (runs S ! p) = Name (mutexes S ! j)" and one: "writers S (Name (mutexes S ! j)) \<le> 1"
  shows "\<not> active (writeLocks (mutexes S ! j))"
proof
  let ?nm = "Name (mutexes S ! j)"
  assume "active (writeLocks (mutexes S ! j))"
  then have "dm_holds ?nm False (mutexes S ! j) = 1" by (simp add: dm_holds_def dm_held_def)
  moreover have "run_holds ?nm False (runs S ! p) = 1" using assms by (simp add: run_holds_def run_held_def)
  ultimately have "2 \<le> holders ?nm False S"
    using sum_list_map_ge_elem[OF j, of "dm_holds ?nm False"] sum_list_map_ge_elem[OF p, of "run_holds ?nm False"]
    by (simp add: holders_def)
  with one show False by (simp add: writers_def length_held)
qed

text \<open>The return of an attempt moves the lock from the attempt into the mutex, provided the mutex
  does not hold a write lock already.\<close>

lemma holders_return:
  assumes ok: "dsync_ok ds" and wf: "sys_wf ds names S" and p: "p < length (runs S)" and r: "r = runs S ! p"
    and q: "run_quorum r = Some q" and ret: "\<not> run_returned r" and j: "j = run_dm r"
    and one: "writers S (run_name r) \<le> 1"
  shows "same_holders S (S\<lparr>runs := (runs S)[p := r\<lparr>run_returned := True\<rparr>],
    mutexes := (if q then (mutexes S)[j := store_locks (run_read r) (run_locks r) (mutexes S ! j)] else mutexes S)\<rparr>)"
proof -
  let ?dm = "mutexes S ! j" and ?r = "r\<lparr>run_returned := True\<rparr>"
  let ?dm' = "store_locks (run_read r) (run_locks r) ?dm" and ?S = "S\<lparr>runs := (runs S)[p := ?r]\<rparr>"
  have rwf: "run_wf ds names r" using wf p r by (simp add: sys_wf_run)
  then have jl: "j < length (mutexes S)" and nm: "run_name r = Name ?dm"
    using wf j by (auto simp: run_wf_def sys_wf_def)
  note dwf = sys_wf_dm[OF wf jl]
  have run: "run_holds nm rd ?r = 0"
    "run_holds nm rd r = (if q \<and> nm = Name ?dm \<and> rd = run_read r then 1 else 0)" for nm rd
    using q ret nm by (auto simp: run_holds_def run_held_def)
  have S1: "holders nm rd ?S + run_holds nm rd r = holders nm rd S" for nm rd
    using holders_run_update[OF p, of nm rd ?r] r run(1) by simp
  show ?thesis
  proof (cases q)
    case False
    then have "S\<lparr>runs := (runs S)[p := ?r], mutexes := mutexes S\<rparr> = ?S" by simp
    with False S1 run show ?thesis by (simp add: same_holders_def)
  next
    case True
    have act: "active (run_locks r)" using quorum_active[OF ok, of "run_locks r" "run_read r"] rwf q True by (simp add: run_wf_def)
    have free: "\<not> active (writeLocks ?dm)" if "\<not> run_read r"
      using writer_slot_free[OF p jl, folded r] q ret nm one True that by simp
    have "dm_holds nm rd ?dm' = dm_holds nm rd ?dm + (if nm = Name ?dm \<and> rd = run_read r then 1 else 0)" for nm rd
      using dwf rwf free act dsync_okD(1)[OF ok]
      by (auto simp: dm_holds_def dm_held_def store_locks_def dm_wf_def run_wf_def go_copy_same)
    with holders_dm_update[of j ?S _ _ ?dm'] S1 run(2) jl True show ?thesis
      by (simp add: same_holders_def)
  qed
qed

lemma step_holders:
  assumes "sys_step srv init ds S S'" and ok: "dsync_ok ds" and wf: "sys_wf ds names S"
    and one: "\<And>nm. writers S nm \<le> 1"
  shows "same_holders S S' \<or> (\<exists>nm rd. changes_by S S' nm rd) \<or> (\<exists>nm rd. changes_by S' S nm rd)"
proof -
  note n = dsync_okD(1)[OF ok]
  show ?thesis
    using assms(1)
  proof cases
    case (start j ident source rd)
    then show ?thesis by (simp add: same_holders_def holders_def)
  next
    case (decided p r)
    then show ?thesis using holders_decide[OF sys_wf_run[OF wf], of p] by auto
  next
    case (return p r q j)
    then show ?thesis using holders_return[OF ok wf return(2,3,4,5,7) one] by simp
  next
    case (unlock_w j locks dm')
    then show ?thesis
      using holders_unlock[OF wf n unlock_w(2), of locks dm' False] by (auto simp: changes_by_def)
  next
    case (unlock_r j locks dm')
    then show ?thesis
      using holders_unlock[OF wf n unlock_r(2), of locks dm' True] by (auto simp: changes_by_def)
  qed (simp_all add: same_holders_def holders_run_same)
qed

text \<open>A change that respects exclusion before and after is an event of the abstract lock.\<close>

definition rw_safe :: "rw_state \<Rightarrow> bool" where
  "rw_safe A \<longleftrightarrow> (\<forall>nm. fst (A nm) \<le> 1 \<and> (0 < fst (A nm) \<longrightarrow> snd (A nm) = 0))"

lemma rw_step_same: "same_holders S S' \<Longrightarrow> rw_apply Stutter (rw_abs S) = Some (rw_abs S')"
  by (auto simp: same_holders_def rw_abs_holders fun_eq_iff)

lemma rw_step_acquire:
  assumes "changes_by S S' nm rd" and "rw_safe (rw_abs S')"
  shows "rw_apply (if rd then AcquireR nm else AcquireW nm) (rw_abs S) = Some (rw_abs S')"
proof -
  have eq: "rw_abs S' = (rw_abs S)(nm := (fst (rw_abs S nm) + (if rd then 0 else 1), snd (rw_abs S nm) + (if rd then 1 else 0)))"
    using assms(1) by (auto simp: changes_by_def rw_abs_holders fun_eq_iff)
  have "fst (rw_abs S' nm) \<le> 1" "0 < fst (rw_abs S' nm) \<longrightarrow> snd (rw_abs S' nm) = 0"
    using assms(2) by (simp_all add: rw_safe_def)
  then show ?thesis unfolding eq by (cases "rw_abs S nm") (auto split: if_splits)
qed

lemma rw_step_release:
  assumes "changes_by S' S nm rd" and "rw_safe (rw_abs S)"
  shows "rw_apply (if rd then ReleaseR nm else ReleaseW nm) (rw_abs S) = Some (rw_abs S')"
proof -
  have eq: "rw_abs S = (rw_abs S')(nm := (fst (rw_abs S' nm) + (if rd then 0 else 1), snd (rw_abs S' nm) + (if rd then 1 else 0)))"
    using assms(1) by (auto simp: changes_by_def rw_abs_holders fun_eq_iff)
  have "fst (rw_abs S nm) \<le> 1" "0 < fst (rw_abs S nm) \<longrightarrow> snd (rw_abs S nm) = 0"
    using assms(2) by (simp_all add: rw_safe_def)
  then show ?thesis unfolding eq by (cases "rw_abs S' nm") (auto split: if_splits simp: fun_eq_iff)
qed

context lock_server
begin

lemma reachable_rw_safe:
  assumes "reachable srv init ds names S" and ok: "dsync_ok ds" and "crashed S = {}"
  shows "rw_safe (rw_abs S)"
proof -
  have "writers S nm \<le> 1" for nm
    using at_most_one_writer[OF assms(1) ok, of nm] assms(3) dsync_okD[OF ok] by simp
  moreover have "0 < writers S nm \<longrightarrow> readers S nm = 0" for nm
    using writer_excludes_readers[OF assms] by blast
  ultimately show ?thesis by (simp add: rw_safe_def rw_abs_def)
qed

lemma refines_rw_lock:
  assumes "reachable srv init ds names S" and "sys_step srv init ds S S'" and ok: "dsync_ok ds" and "crashed S' = {}"
  shows "\<exists>ev. rw_apply ev (rw_abs S) = Some (rw_abs S')"
proof -
  have "crashed S = {}" using assms(2,4) by cases auto
  then have S: "rw_safe (rw_abs S)" using assms(1) ok by (rule reachable_rw_safe[rotated 2])
  have S': "rw_safe (rw_abs S')" using reachable.step[OF assms(1,2)] ok assms(4) by (rule reachable_rw_safe)
  have "writers S nm \<le> 1" for nm using S by (simp add: rw_safe_def rw_abs_def)
  from step_holders[OF assms(2) ok reachable_wf[OF assms(1) ok] this] show ?thesis
    using rw_step_same rw_step_acquire[OF _ S'] rw_step_release[OF _ S] by blast
qed

end

end
