(* ===== verification/Schedule.thy ===== *)
theory Schedule
  imports Lock_System
begin

section \<open>Executable schedules of the concurrent system\<close>

text \<open>
  A schedule is a list of actions, each naming the step of the system to take. \<open>exec\<close> performs
  one action, \<open>None\<close> where it is not enabled; whatever a schedule reaches from the initial state is
  reachable, so that scenarios with concrete servers can be evaluated.
\<close>

datatype 'e action =
    Start nat string string bool
  | Call nat nat fault 'e
  | Send nat nat
  | Recv nat
  | Timeout nat
  | LoopEnd nat
  | Release nat fault 'e
  | ReleaseEnd nat
  | Decide nat
  | Drain nat fault 'e
  | Return nat
  | UnlockW nat
  | UnlockR nat
  | UnlockSend nat fault 'e
  | Crash ref

definition upd_run :: "nat \<Rightarrow> lock_run \<Rightarrow> 's sys \<Rightarrow> 's sys" where
  "upd_run p r S = S\<lparr>runs := (runs S)[p := r]\<rparr>"

definition exec_call :: "('e, 's) server \<Rightarrow> Dsync \<Rightarrow> nat \<Rightarrow> nat \<Rightarrow> fault \<Rightarrow> 'e \<Rightarrow> 's sys \<Rightarrow> 's sys option" where
  "exec_call srv ds p k f e S =
     (let r = runs S ! p; c = restClnts ds ! k in
      if p < length (runs S) \<and> k < length (restClnts ds) \<and> goroutines r ! k = Calling
      then case rpc srv f e (lock_method (run_read r)) (run_args r) (servers S c) of
             ((locked, err), s') \<Rightarrow>
               Some (S\<lparr>servers := (servers S)(c := s'), runs := (runs S)[p := got_reply k locked r]\<rparr>)
      else None)"

definition exec_send :: "Dsync \<Rightarrow> nat \<Rightarrow> nat \<Rightarrow> 's sys \<Rightarrow> 's sys option" where
  "exec_send ds p k S =
     (let r = runs S ! p in
      if p < length (runs S) \<and> k < length (restClnts ds)
      then case goroutines r ! k of Replied g \<Rightarrow> Some (upd_run p (send_grant k g r) S) | _ \<Rightarrow> None
      else None)"

definition exec_recv :: "Dsync \<Rightarrow> nat \<Rightarrow> 's sys \<Rightarrow> 's sys option" where
  "exec_recv ds p S =
     (let r = runs S ! p in
      if p < length (runs S) \<and> run_phase r = Collecting \<and> run_i r < dNodeCount ds
      then case chan r of g # ch \<Rightarrow> Some (upd_run p (recv_grant ds g ch r) S) | [] \<Rightarrow> None
      else None)"

definition exec_release :: "('e, 's) server \<Rightarrow> Dsync \<Rightarrow> nat \<Rightarrow> fault \<Rightarrow> 'e \<Rightarrow> 's sys \<Rightarrow> 's sys option" where
  "exec_release srv ds p f e S =
     (let r = runs S ! p in
      if p < length (runs S)
      then case run_phase r of
             Releasing k \<Rightarrow>
               let c = restClnts ds ! k in
               if \<not> k < nat (dNodeCount ds) then None
               else if isLocked (run_locks r ! k)
               then Some (S\<lparr>servers := (servers S)(c := snd (rpc srv f e (release_method (run_read r))
                                (release_args (run_name r) (run_locks r ! k)) (servers S c))),
                            runs := (runs S)[p := released_one k r]\<rparr>)
               else Some (upd_run p (r\<lparr>run_phase := Releasing (Suc k)\<rparr>) S)
           | _ \<Rightarrow> None
      else None)"

definition exec_release_end :: "Dsync \<Rightarrow> nat \<Rightarrow> 's sys \<Rightarrow> 's sys option" where
  "exec_release_end ds p S =
     (let r = runs S ! p in
      if p < length (runs S)
      then case run_phase r of
             Releasing k \<Rightarrow> if \<not> k < nat (dNodeCount ds) then Some (upd_run p (r\<lparr>run_phase := Deciding\<rparr>) S) else None
           | _ \<Rightarrow> None
      else None)"

definition exec_drain :: "('e, 's) server \<Rightarrow> Dsync \<Rightarrow> nat \<Rightarrow> fault \<Rightarrow> 'e \<Rightarrow> 's sys \<Rightarrow> 's sys option" where
  "exec_drain srv ds p f e S =
     (let r = runs S ! p in
      if p < length (runs S) \<and> run_phase r = Draining \<and> run_i r < dNodeCount ds
      then case chan r of
             g # ch \<Rightarrow>
               let c = restClnts ds ! index g in
               if Granted_isLocked g
               then Some (S\<lparr>servers := (servers S)(c := snd (rpc srv f e (release_method (run_read r))
                                (release_args (run_name r) (lockUID g)) (servers S c))),
                            runs := (runs S)[p := drained_one ch r]\<rparr>)
               else Some (upd_run p (drained_one ch r) S)
           | [] \<Rightarrow> None
      else None)"

definition exec_return :: "nat \<Rightarrow> 's sys \<Rightarrow> 's sys option" where
  "exec_return p S =
     (let r = runs S ! p; j = run_dm r in
      if p < length (runs S) \<and> \<not> run_returned r \<and> (\<forall>x \<in> set (goroutines r). x = Sent)
      then case run_quorum r of
             Some q \<Rightarrow>
               Some (S\<lparr>runs := (runs S)[p := r\<lparr>run_returned := True\<rparr>],
                       mutexes := (if q then (mutexes S)[j := store_locks (run_read r) (run_locks r) (mutexes S ! j)]
                                   else mutexes S)\<rparr>)
           | None \<Rightarrow> None
      else None)"

definition exec_unlock :: "bool \<Rightarrow> nat \<Rightarrow> 's sys \<Rightarrow> 's sys option" where
  "exec_unlock isRead j S =
     (let dm = mutexes S ! j in
      if j < length (mutexes S)
      then case (if isRead then take_reader_locks dm else take_write_locks dm) of
             Inr (locks, dm') \<Rightarrow>
               Some (S\<lparr>mutexes := (mutexes S)[j := dm'],
                       releases := releases S @ [\<lparr>rel_name = Name dm, rel_read = isRead, rel_locks = locks, rel_next = 0\<rparr>]\<rparr>)
           | Inl pn \<Rightarrow> None
      else None)"

definition exec_unlock_send :: "('e, 's) server \<Rightarrow> Dsync \<Rightarrow> nat \<Rightarrow> fault \<Rightarrow> 'e \<Rightarrow> 's sys \<Rightarrow> 's sys option" where
  "exec_unlock_send srv ds p f e S =
     (let x = releases S ! p; c = restClnts ds ! rel_next x in
      if p < length (releases S) \<and> rel_next x < length (restClnts ds)
      then if isLocked (rel_locks x ! rel_next x)
           then Some (S\<lparr>servers := (servers S)(c := snd (rpc srv f e (release_method (rel_read x))
                            (release_args (rel_name x) (rel_locks x ! rel_next x)) (servers S c))),
                        releases := (releases S)[p := x\<lparr>rel_next := Suc (rel_next x)\<rparr>]\<rparr>)
           else Some (S\<lparr>releases := (releases S)[p := x\<lparr>rel_next := Suc (rel_next x)\<rparr>]\<rparr>)
      else None)"

fun exec :: "('e, 's) server \<Rightarrow> 's \<Rightarrow> Dsync \<Rightarrow> 'e action \<Rightarrow> 's sys \<Rightarrow> 's sys option" where
  "exec srv init ds (Start j ident source rd) S =
     (if j < length (mutexes S)
      then Some (S\<lparr>runs := runs S @ [start_run ds j (Name (mutexes S ! j)) ident source rd]\<rparr>) else None)"
| "exec srv init ds (Call p k f e) S = exec_call srv ds p k f e S"
| "exec srv init ds (Send p k) S = exec_send ds p k S"
| "exec srv init ds (Recv p) S = exec_recv ds p S"
| "exec srv init ds (Timeout p) S =
     (if p < length (runs S) \<and> run_phase (runs S ! p) = Collecting \<and> run_i (runs S ! p) < dNodeCount ds
      then Some (upd_run p (timer_fires ds (runs S ! p)) S) else None)"
| "exec srv init ds (LoopEnd p) S =
     (if p < length (runs S) \<and> run_phase (runs S ! p) = Collecting \<and> \<not> run_i (runs S ! p) < dNodeCount ds
      then Some (upd_run p ((runs S ! p)\<lparr>run_phase := Deciding\<rparr>) S) else None)"
| "exec srv init ds (Release p f e) S = exec_release srv ds p f e S"
| "exec srv init ds (ReleaseEnd p) S = exec_release_end ds p S"
| "exec srv init ds (Decide p) S =
     (if p < length (runs S) \<and> run_phase (runs S ! p) = Deciding
      then Some (upd_run p (decide ds (runs S ! p)) S) else None)"
| "exec srv init ds (Drain p f e) S = exec_drain srv ds p f e S"
| "exec srv init ds (Return p) S = exec_return p S"
| "exec srv init ds (UnlockW j) S = exec_unlock False j S"
| "exec srv init ds (UnlockR j) S = exec_unlock True j S"
| "exec srv init ds (UnlockSend p f e) S = exec_unlock_send srv ds p f e S"
| "exec srv init ds (Crash c) S =
     (if c \<in> set (restClnts ds)
      then Some (S\<lparr>servers := (servers S)(c := init), crashed := insert c (crashed S)\<rparr>) else None)"

fun exec_all :: "('e, 's) server \<Rightarrow> 's \<Rightarrow> Dsync \<Rightarrow> 'e action list \<Rightarrow> 's sys \<Rightarrow> 's sys option" where
  "exec_all srv init ds [] S = Some S"
| "exec_all srv init ds (a # as) S =
     (case exec srv init ds a S of None \<Rightarrow> None | Some S' \<Rightarrow> exec_all srv init ds as S')"

lemmas exec_defs = exec_call_def exec_send_def exec_recv_def exec_release_def exec_release_end_def
  exec_drain_def exec_unlock_def exec_unlock_send_def upd_run_def

lemmas exec_splits = if_splits prod.splits goroutine.splits list.splits phase.splits option.splits sum.splits

lemma exec_return_sound:
  assumes "exec_return p S = Some S'"
  shows "sys_step srv init ds S S'"
proof -
  obtain q where "run_quorum (runs S ! p) = Some q" and "p < length (runs S)" "\<not> run_returned (runs S ! p)"
    and "\<forall>x \<in> set (goroutines (runs S ! p)). x = Sent"
    and "S' = S\<lparr>runs := (runs S)[p := (runs S ! p)\<lparr>run_returned := True\<rparr>],
       mutexes := (if q then (mutexes S)[run_dm (runs S ! p) := store_locks (run_read (runs S ! p)) (run_locks (runs S ! p))
          (mutexes S ! run_dm (runs S ! p))] else mutexes S)\<rparr>"
    using assms by (simp add: exec_return_def Let_def split: if_splits option.splits)
  then show ?thesis using sys_step.return[OF _ refl _ _ _ refl, of p S q srv init ds] by simp
qed

lemma exec_sound:
  assumes "exec srv init ds a S = Some S'"
  shows "sys_step srv init ds S S'"
  using assms exec_return_sound[of _ S S' srv init ds]
  by (cases a)
     (auto simp: exec_defs Let_def simp del: not_less
       split: if_splits prod.splits goroutine.splits list.splits phase.splits option.splits sum.splits
       intro: sys_step.intros)

lemma exec_all_reachable:
  assumes "exec_all srv init ds as S = Some S'" and "reachable srv init ds names S"
  shows "reachable srv init ds names S'"
  using assms
proof (induction as arbitrary: S)
  case Nil
  then show ?case by simp
next
  case (Cons a as)
  then obtain S1 where a: "exec srv init ds a S = Some S1" and as: "exec_all srv init ds as S1 = Some S'"
    by (auto split: option.splits)
  show ?case using Cons.IH[OF as reachable.step[OF Cons.prems(2) exec_sound[OF a]]] .
qed

text \<open>A scenario: what a schedule shows at the end holds of a reachable state.\<close>

lemma scenario:
  assumes "map_option f (exec_all srv init ds as (sys_init init ds names)) = Some v"
  shows "\<exists>S. reachable srv init ds names S \<and> f S = v"
proof -
  from assms obtain S where run: "exec_all srv init ds as (sys_init init ds names) = Some S" and f: "f S = v"
    by (auto simp: map_option_case split: option.splits)
  show ?thesis using exec_all_reachable[OF run reachable.initial] f by blast
qed

text \<open>A whole attempt of one goroutine: the nodes of \<open>ks\<close> answer, the others are down.\<close>

definition attempt_schedule :: "nat \<Rightarrow> nat \<Rightarrow> nat \<Rightarrow> string \<Rightarrow> bool \<Rightarrow> nat \<Rightarrow> nat list \<Rightarrow> 'e \<Rightarrow> 'e action list" where
  "attempt_schedule n p j ident rd calls ks e =
     Start j ident [] rd #
     map (\<lambda>k. Call p k (if k \<in> set ks then Delivered else RequestLost) e) [0..<n] @
     map (Send p) [0..<n] @ replicate calls (Recv p)"

end
