(* ===== verification/Mutual_Exclusion.thy ===== *)
theory Mutual_Exclusion
  imports Rw_Spec Schedule
begin

section \<open>Mutual exclusion of the clusters of the repository\<close>

text \<open>
  The safety theorems of the concurrent system for the two lock servers of the repository that
  keep locks, with any number of clients, mutexes and concurrent attempts, any loss of requests
  and replies, and servers that crash and restart empty; and the schedules that show where the
  guarantee ends (the known deficiencies of the README).
\<close>

text \<open>A whole attempt on the cluster of four nodes as a schedule.\<close>

definition acquire_schedule :: "nat \<Rightarrow> nat \<Rightarrow> string \<Rightarrow> bool \<Rightarrow> nat list \<Rightarrow> 'e \<Rightarrow> 'e action list" where
  "acquire_schedule p j ident rd ks e = attempt_schedule 4 p j ident rd 4 ks e @ [LoopEnd p, Decide p, Return p]"

text \<open>(C1) Over chaos servers at most one client holds the write lock on a resource, in every
  reachable state in which fewer than \<open>2 * dquorum - dNodeCount\<close> servers have lost their locks in a
  crash (two for an even number of nodes), whatever messages are lost.\<close>

theorem chaos_at_most_one_writer:
  assumes "reachable chaos_server chaos_init ds names S" and "dsync_ok ds"
    and "int (card (crashed S)) < 2 * dquorum ds - dNodeCount ds"
  shows "writers S nm \<le> 1"
  using assms by (rule chaos.at_most_one_writer)

theorem chaos_at_most_one_writer_witness:
  "\<exists>S. reachable chaos_server chaos_init ds_four [''r'', ''r''] S \<and> crashed S = {1} \<and> writers S ''r'' = 1"
proof -
  have "map_option (\<lambda>S. (0 < writers S ''r'', crashed S))
     (exec_all chaos_server chaos_init ds_four
       (acquire_schedule 0 0 ''a'' False [0, 1, 2] (\<lambda>_. 5) @ [Crash 1] @
        attempt_schedule 4 1 0 ''b'' False 3 [1, 3] (\<lambda>_. 9))
       (sys_init chaos_init ds_four [''r'', ''r''])) = Some (True, {1})"
    by code_simp
  from scenario[OF this] obtain S where S: "reachable chaos_server chaos_init ds_four [''r'', ''r''] S"
    "0 < writers S ''r''" "crashed S = {1}" by auto
  moreover have "writers S ''r'' \<le> 1"
    using chaos_at_most_one_writer[OF S(1) ds_four_ok] S(3) by (simp add: ds_four_def)
  ultimately show ?thesis by (metis le_antisym less_one linorder_not_le nat_less_le)
qed

text \<open>(C2) Over chaos servers, while no server has lost its locks, a resource with a writer has no
  reader: the readers-writer lock is exclusive.\<close>

theorem chaos_writer_excludes_readers:
  assumes "reachable chaos_server chaos_init ds names S" and "dsync_ok ds" and "crashed S = {}"
    and "0 < writers S nm"
  shows "readers S nm = 0 \<and> writers S nm = 1"
  using chaos.reachable_rw_safe[OF assms(1-3)] assms(4)
  by (auto simp: rw_safe_def rw_abs_def dest!: spec[of _ nm])

theorem chaos_writer_excludes_readers_witness:
  "\<exists>S. reachable chaos_server chaos_init ds_four [''r'', ''r''] S \<and> length (runs S) = 2 \<and>
     readers S ''r'' = 0 \<and> writers S ''r'' = 1"
proof -
  have "map_option (\<lambda>S. (0 < writers S ''r'', length (runs S), crashed S))
     (exec_all chaos_server chaos_init ds_four
       (acquire_schedule 0 0 ''a'' False [0, 1, 2] (\<lambda>_. 5) @ attempt_schedule 4 1 1 ''b'' True 3 [0, 1, 2, 3] (\<lambda>_. 9))
       (sys_init chaos_init ds_four [''r'', ''r''])) = Some (True, 2, {})"
    by code_simp
  from scenario[OF this] obtain S where S: "reachable chaos_server chaos_init ds_four [''r'', ''r''] S"
    "0 < writers S ''r''" "length (runs S) = 2" "crashed S = {}" by auto
  with chaos_writer_excludes_readers[OF S(1) ds_four_ok S(4,2)] show ?thesis by blast
qed

text \<open>(C3) Over chaos servers the system refines the abstract readers-writer lock: in the initial
  state nobody holds a lock, and every step of a run without crashes is an event the abstract lock
  allows, or leaves the holders alone.\<close>

theorem chaos_refines_rw_lock:
  assumes "dsync_ok ds"
  shows "rw_abs (sys_init chaos_init ds names) = (\<lambda>nm. (0, 0)) \<and>
    (\<forall>S S'. reachable chaos_server chaos_init ds names S \<and> sys_step chaos_server chaos_init ds S S' \<and> crashed S' = {}
       \<longrightarrow> (\<exists>ev. rw_apply ev (rw_abs S) = Some (rw_abs S')))"
proof (intro conjI allI impI)
  have "dm_holds nm rd (NewDRWMutex x ds) = 0" for nm rd x
    by (simp add: dm_holds_def dm_held_def NewDRWMutex_def)
  then show "rw_abs (sys_init chaos_init ds names) = (\<lambda>nm. (0, 0))"
    by (simp add: fun_eq_iff rw_abs_holders holders_def sys_init_def o_def)
next
  fix S S' assume "reachable chaos_server chaos_init ds names S \<and> sys_step chaos_server chaos_init ds S S' \<and> crashed S' = {}"
  then show "\<exists>ev. rw_apply ev (rw_abs S) = Some (rw_abs S')"
    using chaos.refines_rw_lock assms by blast
qed

theorem chaos_refines_rw_lock_witness:
  "\<exists>S S' ev. reachable chaos_server chaos_init ds_four [''r''] S \<and> sys_step chaos_server chaos_init ds_four S S' \<and>
     writers S ''r'' = 0 \<and> writers S' ''r'' = 1 \<and> rw_apply ev (rw_abs S) = Some (rw_abs S')"
proof -
  let ?decide = "exec chaos_server chaos_init ds_four (Decide 0)"
  have "map_option (\<lambda>S. (writers S ''r'', map_option (\<lambda>S'. (writers S' ''r'', crashed S')) (?decide S)))
     (exec_all chaos_server chaos_init ds_four (attempt_schedule 4 0 0 ''a'' False 4 [0, 1, 3] (\<lambda>_. 5) @ [LoopEnd 0])
       (sys_init chaos_init ds_four [''r''])) = Some (0, Some (1, {}))"
    by code_simp
  from scenario[OF this] obtain S S' where S: "reachable chaos_server chaos_init ds_four [''r''] S"
    "writers S ''r'' = 0" "?decide S = Some S'" "writers S' ''r'' = 1" "crashed S' = {}" by auto
  with chaos_refines_rw_lock[OF ds_four_ok, of "[''r'']"] exec_sound[OF S(3)] show ?thesis by blast
qed

text \<open>(C22) The same holds over performance servers, which only count locks and do not look at the
  UID: while no server has lost its locks, every resource has at most one writer and never a writer
  and a reader.\<close>

theorem perf_rw_exclusion:
  assumes "reachable perf_server perf_init ds names S" and "dsync_ok ds" and "crashed S = {}"
  shows "writers S nm \<le> 1 \<and> (readers S nm = 0 \<or> writers S nm = 0)"
  using perf.reachable_rw_safe[OF assms] by (auto simp: rw_safe_def rw_abs_def)

theorem perf_rw_exclusion_witness:
  "\<exists>S. reachable perf_server perf_init ds_four [''r'', ''r''] S \<and> readers S ''r'' = 2 \<and> writers S ''r'' = 0"
proof -
  have "map_option (\<lambda>S. (readers S ''r'', crashed S))
     (exec_all perf_server perf_init ds_four
       (acquire_schedule 0 0 ''a'' True [0, 1, 2] () @ acquire_schedule 1 1 ''b'' True [2, 3] ())
       (sys_init perf_init ds_four [''r'', ''r''])) = Some (2, {})"
    by code_simp
  from scenario[OF this] obtain S where S: "reachable perf_server perf_init ds_four [''r'', ''r''] S"
    "readers S ''r'' = 2" "crashed S = {}" by auto
  with perf_rw_exclusion[OF S(1) ds_four_ok S(3), of "''r''"] show ?thesis by auto
qed

text \<open>(C25) The known deficiency of the README, at its smallest size: with four nodes, one of them
  down, the crash of two nodes that hold the lock leads to two writers on one resource. So the bound
  on crashes for a single writer is tight.\<close>

theorem two_crashes_two_writers:
  "\<exists>S. reachable chaos_server chaos_init ds_four [''r'', ''r''] S \<and> card (crashed S) = 2 \<and> writers S ''r'' = 2"
proof -
  have "map_option (\<lambda>S. (card (crashed S), writers S ''r''))
     (exec_all chaos_server chaos_init ds_four
       (acquire_schedule 0 0 ''a'' False [0, 1, 2] (\<lambda>_. 5) @ [Crash 1, Crash 2] @
        acquire_schedule 1 1 ''b'' False [1, 2, 3] (\<lambda>_. 9))
       (sys_init chaos_init ds_four [''r'', ''r''])) = Some (2, 2)"
    by code_simp
  from scenario[OF this] show ?thesis by simp
qed

text \<open>(C28) A single crash is enough to break the exclusion of readers: with four nodes, one of them
  down for the writer, the crash of one node lets a reader enter while the writer holds the lock.\<close>

theorem one_crash_reader_and_writer:
  "\<exists>S. reachable chaos_server chaos_init ds_four [''r'', ''r''] S \<and> card (crashed S) = 1 \<and>
     writers S ''r'' = 1 \<and> readers S ''r'' = 1"
proof -
  have "map_option (\<lambda>S. (card (crashed S), writers S ''r'', readers S ''r''))
     (exec_all chaos_server chaos_init ds_four
       (acquire_schedule 0 0 ''a'' False [0, 1, 2] (\<lambda>_. 5) @ [Crash 2] @
        acquire_schedule 1 1 ''b'' True [0, 1, 2, 3] (\<lambda>_. 9))
       (sys_init chaos_init ds_four [''r'', ''r''])) = Some (1, 1, 1)"
    by code_simp
  from scenario[OF this] show ?thesis by simp
qed

end
