(* ===== verification/Attempt_Progress.thy ===== *)
theory Attempt_Progress
  imports System_Invariant Performance_Server Schedule
begin

section \<open>Progress and termination of lock attempts, and the channel discipline\<close>

text \<open>
  The four facts about the goroutines of one attempt that the code relies on without stating
  them: the attempt takes a bounded number of actions under every schedule, it is never stuck,
  nobody sends on the channel after \<open>lock\<close> has closed it, and the drain loop receives exactly the
  grants that are still buffered.
\<close>

definition gor_weight :: "goroutine \<Rightarrow> nat" where
  "gor_weight x = (case x of Calling \<Rightarrow> 3 | Replied g \<Rightarrow> 2 | Sent \<Rightarrow> 0)"

definition phase_weight :: "Dsync \<Rightarrow> phase \<Rightarrow> nat" where
  "phase_weight ds ph =
     (case ph of Collecting \<Rightarrow> length (restClnts ds) + 4
      | Releasing k \<Rightarrow> (length (restClnts ds) - k) + 3 | Deciding \<Rightarrow> 2 | Draining \<Rightarrow> 1)"

text \<open>A bound on the number of actions that are left to an attempt.\<close>

definition actions_left :: "Dsync \<Rightarrow> lock_run \<Rightarrow> nat" where
  "actions_left ds r =
     (\<Sum>x\<leftarrow>goroutines r. gor_weight x) + length (chan r) + phase_weight ds (run_phase r)
     + (if run_returned r then 0 else 1)"

definition finished :: "Dsync \<Rightarrow> lock_run \<Rightarrow> bool" where
  "finished ds r \<longleftrightarrow> run_returned r \<and> run_i r = dNodeCount ds"

lemma gor_weight_simps [simp]:
  "gor_weight Calling = 3" "gor_weight (Replied g) = 2" "gor_weight Sent = 0"
  by (simp_all add: gor_weight_def)

lemma actions_left_run:
  assumes "run_wf ds names r" and "k < length (restClnts ds)"
  shows "goroutines r ! k = Calling \<Longrightarrow> actions_left ds (got_reply k locked r) < actions_left ds r"
    and "goroutines r ! k = Replied g \<Longrightarrow> actions_left ds (send_grant k g r) < actions_left ds r"
proof -
  have "k < length (goroutines r)" using assms by (simp add: run_wf_def)
  note upd = sum_list_map_update[OF this, of gor_weight]
  show "goroutines r ! k = Calling \<Longrightarrow> actions_left ds (got_reply k locked r) < actions_left ds r"
    using upd[of "Replied \<lparr>index = k, lockUID = (if locked then run_id r else [])\<rparr>"]
    by (simp add: actions_left_def got_reply_def)
  show "goroutines r ! k = Replied g \<Longrightarrow> actions_left ds (send_grant k g r) < actions_left ds r"
    using upd[of Sent] by (simp add: actions_left_def send_grant_def)
qed

lemma actions_left_collector:
  "run_phase r = Collecting \<Longrightarrow> chan r = g # ch \<Longrightarrow> actions_left ds (recv_grant ds g ch r) < actions_left ds r"
  "run_phase r = Collecting \<Longrightarrow> actions_left ds (timer_fires ds r) < actions_left ds r"
  "run_phase r = Collecting \<Longrightarrow> actions_left ds (r\<lparr>run_phase := Deciding\<rparr>) < actions_left ds r"
  "run_phase r = Releasing k \<Longrightarrow> k < length (restClnts ds) \<Longrightarrow> actions_left ds (released_one k r) < actions_left ds r"
  "run_phase r = Releasing k \<Longrightarrow> k < length (restClnts ds) \<Longrightarrow>
    actions_left ds (r\<lparr>run_phase := Releasing (Suc k)\<rparr>) < actions_left ds r"
  "run_phase r = Releasing k \<Longrightarrow> actions_left ds (r\<lparr>run_phase := Deciding\<rparr>) < actions_left ds r"
  "run_phase r = Deciding \<Longrightarrow> actions_left ds (decide ds r) < actions_left ds r"
  "chan r = g # ch \<Longrightarrow> actions_left ds (drained_one ch r) < actions_left ds r"
  "\<not> run_returned r \<Longrightarrow> actions_left ds (r\<lparr>run_returned := True\<rparr>) < actions_left ds r"
  by (auto simp: actions_left_def phase_weight_def step_defs)

text \<open>A step either leaves an attempt alone or uses up one of its actions.\<close>

lemma step_uses_action:
  assumes "sys_step srv init ds S S'" and wf: "sys_wf ds names S" and n: "dNodeCount ds = int (length (restClnts ds))"
    and "q < length (runs S)"
  shows "q < length (runs S') \<and> (runs S' ! q = runs S ! q \<or> actions_left ds (runs S' ! q) < actions_left ds (runs S ! q))"
  using assms(1)
proof cases
  case (start j ident source rd)
  then show ?thesis using assms(4) by (simp add: nth_append)
qed (use assms(4) n in \<open>auto simp: nth_list_update intro: actions_left_run[OF sys_wf_run[OF wf]] actions_left_collector\<close>)

text \<open>An attempt that is not finished has a step to take.\<close>

lemma goroutine_cases:
  assumes "run_wf ds names r"
  obtains (calling) k where "k < length (restClnts ds)" and "goroutines r ! k = Calling"
    | (replied) k g where "k < length (restClnts ds)" and "goroutines r ! k = Replied g"
    | (all_sent) "\<forall>x \<in> set (goroutines r). x = Sent" and "run_i r + int (length (chan r)) = dNodeCount ds"
proof (cases "\<forall>x \<in> set (goroutines r). x = Sent")
  case True
  then have "unsent r = 0" by (simp add: unsent_def filter_empty_conv)
  then show ?thesis using all_sent[OF True] assms by (simp add: run_wf_def)
next
  case False
  then obtain k where "k < length (goroutines r)" "goroutines r ! k \<noteq> Sent" by (auto simp: in_set_conv_nth)
  then show ?thesis using calling replied assms by (cases "goroutines r ! k") (auto simp: run_wf_def)
qed

lemma uses_action:
  assumes "sys_step srv init ds S S'" and "runs S' = (runs S)[p := r']" and "p < length (runs S)"
    and "actions_left ds r' < actions_left ds (runs S ! p)"
  shows "\<exists>S'. sys_step srv init ds S S' \<and> actions_left ds (runs S' ! p) < actions_left ds (runs S ! p)"
  using assms by (intro exI[of _ S']) simp

lemma collector_enabled:
  assumes p: "p < length (runs S)" and r: "r = runs S ! p" and wf: "run_wf ds names r" and unf: "\<not> finished ds r"
    and sent: "\<forall>x \<in> set (goroutines r). x = Sent" and eq: "run_i r + int (length (chan r)) = dNodeCount ds"
    and n: "dNodeCount ds = int (length (restClnts ds))"
  shows "\<exists>S'. sys_step srv init ds S S' \<and> actions_left ds (runs S' ! p) < actions_left ds (runs S ! p)"
proof -
  note less = actions_left_collector[of r]
  obtain g ch where chan: "run_i r < dNodeCount ds \<Longrightarrow> chan r = g # ch" using eq by (cases "chan r") auto
  show ?thesis
  proof (cases "run_phase r")
    case Collecting
    show ?thesis
    proof (cases "run_i r < dNodeCount ds")
      case True
      show ?thesis
        by (rule uses_action[OF sys_step.recv[OF p r Collecting True chan[OF True]]])
           (use p r less(1)[OF Collecting chan[OF True]] in simp_all)
    next
      case False
      show ?thesis
        by (rule uses_action[OF sys_step.loop_end[OF p r Collecting False]]) (use p r less(3)[OF Collecting] in simp_all)
    qed
  next
    case (Releasing k)
    consider "\<not> k < nat (dNodeCount ds)" | "k < nat (dNodeCount ds)" "isLocked (run_locks r ! k)"
      | "k < nat (dNodeCount ds)" "\<not> isLocked (run_locks r ! k)" by blast
    then show ?thesis
    proof cases
      case 1
      show ?thesis
        by (rule uses_action[OF sys_step.rel_end[OF p r Releasing 1]]) (use p r less(6)[OF Releasing] in simp_all)
    next
      case 2
      show ?thesis
        by (rule uses_action[OF sys_step.rel_locked[OF p r Releasing 2 refl refl]])
           (use p r 2 n less(4)[OF Releasing] in simp_all)
    next
      case 3
      show ?thesis
        by (rule uses_action[OF sys_step.rel_skip[OF p r Releasing 3]]) (use p r 3 n less(5)[OF Releasing] in simp_all)
    qed
  next
    case Deciding
    show ?thesis by (rule uses_action[OF sys_step.decided[OF p r Deciding]]) (use p r less(7)[OF Deciding] in simp_all)
  next
    case Draining
    show ?thesis
    proof (cases "run_i r < dNodeCount ds")
      case True
      note step = p r Draining True chan[OF True]
      show ?thesis
      proof (cases "Granted_isLocked g")
        case True
        show ?thesis
          by (rule uses_action[OF sys_step.drain_locked[OF step True refl refl]]) (use p r less(8)[OF step(5)] in simp_all)
      next
        case False
        show ?thesis by (rule uses_action[OF sys_step.drain_skip[OF step False]]) (use p r less(8)[OF step(5)] in simp_all)
      qed
    next
      case False
      with eq have "run_i r = dNodeCount ds" by simp
      with unf have ret: "\<not> run_returned r" by (simp add: finished_def)
      obtain q where q: "run_quorum r = Some q" using wf Draining by (auto simp: run_wf_def)
      show ?thesis
        by (rule uses_action[OF sys_step.return[OF p r q ret sent refl]]) (use p r less(9)[OF ret] in simp_all)
    qed
  qed
qed

lemma unfinished_enabled:
  assumes wf: "sys_wf ds names S" and n: "dNodeCount ds = int (length (restClnts ds))"
    and p: "p < length (runs S)" and "\<not> finished ds (runs S ! p)"
  shows "\<exists>S'. sys_step srv init ds S S' \<and> actions_left ds (runs S' ! p) < actions_left ds (runs S ! p)"
  using sys_wf_run[OF wf p]
proof (cases rule: goroutine_cases)
  case (calling k)
  obtain locked err s' where "rpc srv Delivered undefined (lock_method (run_read (runs S ! p))) (run_args (runs S ! p))
      (servers S (restClnts ds ! k)) = ((locked, err), s')" by (metis prod.collapse)
  from sys_step.call[OF p refl calling refl this] show ?thesis
    by (rule uses_action) (use p actions_left_run(1)[OF sys_wf_run[OF wf p] calling] in simp_all)
next
  case (replied k g)
  from sys_step.send[OF p refl replied] show ?thesis
    by (rule uses_action) (use p actions_left_run(2)[OF sys_wf_run[OF wf p] replied] in simp_all)
next
  case all_sent
  then show ?thesis using collector_enabled[OF p refl sys_wf_run[OF wf p] assms(4) _ _ n] by blast
qed

subsection \<open>The properties\<close>

text \<open>(C8) An attempt takes at most \<open>4 * n + 5\<close> actions on \<open>n\<close> nodes, under every schedule and with
  every server: it starts with that many, and each step of the system either leaves it as it is or
  uses one up.\<close>

theorem attempt_bounded:
  assumes "reachable srv init ds names S" and "dsync_ok ds" and "sys_step srv init ds S S'" and "p < length (runs S)"
  shows "(runs S' ! p = runs S ! p \<or> actions_left ds (runs S' ! p) < actions_left ds (runs S ! p)) \<and>
    actions_left ds (start_run ds j lockName ident source rd) = 4 * length (restClnts ds) + 5"
  using step_uses_action[OF assms(3) reachable_wf[OF assms(1,2)] dsync_okD(1)[OF assms(2)] assms(4)]
  by (simp add: actions_left_def start_run_def phase_weight_def sum_list_replicate)

text \<open>(C7) No attempt gets stuck: from every reachable state, with every server, each attempt that
  has been started can run to its end, where \<open>lock\<close> has returned and all grants are received.\<close>

theorem attempt_completes:
  assumes "reachable srv init ds names S" and "dsync_ok ds" and "p < length (runs S)"
  shows "\<exists>S'. reachable srv init ds names S' \<and> (sys_step srv init ds)\<^sup>*\<^sup>* S S' \<and> finished ds (runs S' ! p)"
  using assms
proof (induction "actions_left ds (runs S ! p)" arbitrary: S rule: less_induct)
  case less
  note wf = reachable_wf[OF less.prems(1,2)] and n = dsync_okD(1)[OF less.prems(2)]
  show ?case
  proof (cases "finished ds (runs S ! p)")
    case True
    with less.prems(1) show ?thesis by blast
  next
    case False
    from unfinished_enabled[OF wf n less.prems(3) False] obtain S1
      where S1: "sys_step srv init ds S S1" "actions_left ds (runs S1 ! p) < actions_left ds (runs S ! p)" by blast
    have "p < length (runs S1)" using step_uses_action[OF S1(1) wf n less.prems(3)] by blast
    from less.hyps[OF S1(2) reachable.step[OF less.prems(1) S1(1)] less.prems(2) this] show ?thesis
      using S1(1) by (meson converse_rtranclp_into_rtranclp)
  qed
qed

text \<open>(C9) The channel discipline: the buffer of \<open>dNodeCount\<close> grants always has room for the grants
  that are still to be sent, so that no goroutine blocks; and once \<open>lock\<close> has returned and closed the
  channel, no goroutine has a grant left to send, and the buffer holds exactly the grants that the
  drain loop has still to receive.\<close>

theorem channel_discipline:
  assumes "reachable srv init ds names S" and "dsync_ok ds" and "r \<in> set (runs S)"
  shows "int (length (chan r) + unsent r) \<le> dNodeCount ds \<and>
    (run_returned r \<longrightarrow> (\<forall>x \<in> set (goroutines r). x = Sent) \<and> int (length (chan r)) = dNodeCount ds - run_i r)"
proof -
  have wf: "run_wf ds names r" using reachable_wf[OF assms(1,2)] assms(3) by (simp add: sys_wf_def)
  have "unsent r = 0" if "run_returned r"
    using wf that by (auto simp: run_wf_def unsent_def filter_empty_conv)
  with wf show ?thesis by (auto simp: run_wf_def)
qed

subsection \<open>An attempt on two performance servers\<close>

text \<open>One node has answered and the timer has fired, the other call is still on its way.\<close>

definition half_done :: "unit action list" where
  "half_done = [Start 0 ''a'' [] False, Call 0 0 Delivered (), Send 0 0, Timeout 0]"

theorem attempt_bounded_witness:
  "\<exists>S S'. reachable perf_server perf_init ds_two [''r''] S \<and>
     exec perf_server perf_init ds_two (Call 0 1 Delivered ()) S = Some S' \<and>
     actions_left ds_two (runs S' ! 0) < actions_left ds_two (runs S ! 0)"
proof -
  let ?call = "exec perf_server perf_init ds_two (Call 0 1 Delivered ())"
  have "map_option (\<lambda>S. (length (runs S), goroutines (runs S ! 0) ! 1,
        map_option (\<lambda>S'. goroutines (runs S' ! 0) ! 1) (?call S)))
     (exec_all perf_server perf_init ds_two half_done (sys_init perf_init ds_two [''r'']))
     = Some (1, Calling, Some (Replied \<lparr>index = 1, lockUID = ''a''\<rparr>))"
    by code_simp
  from scenario[OF this] obtain S S' where S: "reachable perf_server perf_init ds_two [''r''] S" "length (runs S) = 1"
    "goroutines (runs S ! 0) ! 1 = Calling" "?call S = Some S'" "goroutines (runs S' ! 0) ! 1 \<noteq> Calling" by auto
  from attempt_bounded[OF S(1) ds_two_ok exec_sound[OF S(4)], of 0 0 "[]" "[]" "[]" False] S(2)
  have "runs S' ! 0 = runs S ! 0 \<or> actions_left ds_two (runs S' ! 0) < actions_left ds_two (runs S ! 0)" by auto
  with S(3,5) have "actions_left ds_two (runs S' ! 0) < actions_left ds_two (runs S ! 0)" by metis
  with S(1,4) show ?thesis by blast
qed

theorem attempt_completes_witness:
  "\<exists>S S'. length (chan (runs S ! 0)) = 1 \<and> (sys_step perf_server perf_init ds_two)\<^sup>*\<^sup>* S S' \<and> finished ds_two (runs S' ! 0)"
proof -
  have "map_option (\<lambda>S. (length (runs S), length (chan (runs S ! 0))))
     (exec_all perf_server perf_init ds_two half_done (sys_init perf_init ds_two [''r''])) = Some (1, 1)"
    by code_simp
  from scenario[OF this] obtain S where S: "reachable perf_server perf_init ds_two [''r''] S" "length (runs S) = 1"
    "length (chan (runs S ! 0)) = 1" by auto
  from attempt_completes[OF S(1) ds_two_ok, of 0] S show ?thesis by auto
qed

theorem channel_discipline_witness:
  "\<exists>S. reachable perf_server perf_init ds_two [''r''] S \<and> run_returned (runs S ! 0) \<and> length (chan (runs S ! 0)) = 2"
proof -
  have "map_option (\<lambda>S. (length (runs S), run_returned (runs S ! 0), run_i (runs S ! 0)))
     (exec_all perf_server perf_init ds_two
       (half_done @ [Release 0 Delivered (), Release 0 Delivered (), ReleaseEnd 0, Decide 0, Call 0 1 Delivered (), Send 0 1, Return 0])
       (sys_init perf_init ds_two [''r''])) = Some (1, True, 0)"
    by code_simp
  from scenario[OF this] obtain S where S: "reachable perf_server perf_init ds_two [''r''] S" "length (runs S) = 1"
    "run_returned (runs S ! 0)" "run_i (runs S ! 0) = 0" by auto
  have "runs S ! 0 \<in> set (runs S)" using S(2) by simp
  from channel_discipline[OF S(1) ds_two_ok this] S show ?thesis by (auto simp: ds_two_def)
qed

subsection \<open>No index is out of range\<close>

text \<open>(C12) In every reachable state, over any servers and under any faults, no index of the code is out of
  range: every attempt belongs to an existing mutex and carries its name, its arrays, the arrays stored
  in the mutexes and those of the unlocks under way have one entry per node, and every grant in a
  goroutine or in the channel names a node.\<close>

theorem reachable_indices_in_range:
  assumes "reachable srv init ds names S" and "dsync_ok ds"
  shows "(\<forall>r \<in> set (runs S). run_dm r < length (mutexes S) \<and> run_name r = Name (mutexes S ! run_dm r) \<and>
      length (goroutines r) = length (restClnts ds) \<and> length (run_locks r) = nat (dNodeCount ds) \<and>
      (\<forall>g. g \<in> set (chan r) \<or> Replied g \<in> set (goroutines r) \<longrightarrow> index g < length (restClnts ds))) \<and>
    (\<forall>dm \<in> set (mutexes S). clnt dm = ds \<and> (\<forall>ls \<in> insert (writeLocks dm) (set (readersLocks dm)). length ls = nat (dNodeCount ds))) \<and>
    (\<forall>x \<in> set (releases S). length (rel_locks x) = length (restClnts ds)) \<and> nat (dNodeCount ds) = length (restClnts ds)"
proof -
  note wf = reachable_wf[OF assms]
  have n: "nat (dNodeCount ds) = length (restClnts ds)" using dsync_okD(1)[OF assms(2)] by simp
  have names: "names = map Name (mutexes S)" using wf by (simp add: sys_wf_def)
  have "index g < length (restClnts ds)" if "run_wf ds names r" "Replied g \<in> set (goroutines r)" for r g
    using that by (auto simp: run_wf_def in_set_conv_nth)
  then have "run_dm r < length (mutexes S) \<and> run_name r = Name (mutexes S ! run_dm r) \<and>
      length (goroutines r) = length (restClnts ds) \<and> length (run_locks r) = nat (dNodeCount ds) \<and>
      (\<forall>g. g \<in> set (chan r) \<or> Replied g \<in> set (goroutines r) \<longrightarrow> index g < length (restClnts ds))" if "run_wf ds names r" for r
    using that n by (auto simp: run_wf_def names)
  then show ?thesis using wf n by (auto simp: sys_wf_def dm_wf_def)
qed

theorem reachable_indices_in_range_witness:
  "\<exists>S. reachable perf_server perf_init ds_four [''a'', ''b''] S \<and> map run_dm (runs S) = [1] \<and>
     (\<forall>r \<in> set (runs S). \<forall>g. g \<in> set (chan r) \<or> Replied g \<in> set (goroutines r) \<longrightarrow> index g < 4)"
proof -
  have "map_option (\<lambda>S. map run_dm (runs S)) (exec_all perf_server perf_init ds_four
      [Start 1 ''u'' [] True, Call 0 3 Delivered (), Call 0 1 RequestLost (), Send 0 3]
      (sys_init perf_init ds_four [''a'', ''b''])) = Some [1]" by code_simp
  from scenario[OF this] obtain S where S: "reachable perf_server perf_init ds_four [''a'', ''b''] S" "map run_dm (runs S) = [1]" by auto
  have "length (restClnts ds_four) = 4" by (simp add: ds_four_def)
  with reachable_indices_in_range[OF S(1) ds_four_ok] S show ?thesis by auto
qed

end
