(* ===== verification/Exact_Accounting.thy ===== *)
theory Exact_Accounting
  imports Mutual_Exclusion Attempt_Progress
begin

section \<open>Exact accounting: nothing leaks when no message is lost\<close>

text \<open>
  In a run in which every message is delivered and no server crashes, the tokens of every server
  are exactly the credits of the clients: the clients rely on nothing the servers have not granted,
  and the servers keep nothing the clients have forgotten. It takes a finer invariant of the
  attempts: each grant is at one place, and an attempt without a quorum has an empty lock array.
  A request without a UID is excluded, because the client cannot tell its grant from a refusal.
\<close>

subsection \<open>Reliable runs\<close>

text \<open>Every message is delivered and no server crashes.\<close>

fun lossless :: "'e action \<Rightarrow> bool" where
  "lossless (Call p k f e) \<longleftrightarrow> f = Delivered"
| "lossless (Release p f e) \<longleftrightarrow> f = Delivered"
| "lossless (Drain p f e) \<longleftrightarrow> f = Delivered"
| "lossless (UnlockSend p f e) \<longleftrightarrow> f = Delivered"
| "lossless (Crash c) \<longleftrightarrow> False"
| "lossless _ \<longleftrightarrow> True"

text \<open>Every attempt is made with a non-empty identifier. The code accepts the empty one, and then locks do leak
  (\<open>Empty_Uid\<close>).\<close>

fun identified :: "'e action \<Rightarrow> bool" where
  "identified (Start j ident source rd) \<longleftrightarrow> ident \<noteq> []"
| "identified _ \<longleftrightarrow> True"

abbreviation reliable_action :: "'e action \<Rightarrow> bool" where
  "reliable_action a \<equiv> lossless a \<and> identified a"

inductive reliable :: "('e, 's) server \<Rightarrow> 's \<Rightarrow> Dsync \<Rightarrow> string list \<Rightarrow> 's sys \<Rightarrow> bool" for srv init ds names where
  initial: "reliable srv init ds names (sys_init init ds names)"
| action: "reliable srv init ds names S \<Longrightarrow> reliable_action a \<Longrightarrow> exec srv init ds a S = Some S' \<Longrightarrow>
    reliable srv init ds names S'"

lemma reliable_reachable: "reliable srv init ds names S \<Longrightarrow> reachable srv init ds names S"
  by (induction rule: reliable.induct) (auto intro: reachable.intros exec_sound)

lemma exec_crashed:
  assumes "exec srv init ds a S = Some S'" and "reliable_action a"
  shows "crashed S' = crashed S"
  using assms
  by (cases a) (auto simp: exec_defs exec_return_def Let_def
      split: if_splits prod.splits goroutine.splits list.splits phase.splits option.splits sum.splits)

lemma reliable_crashed: "reliable srv init ds names S \<Longrightarrow> crashed S = {}"
  by (induction rule: reliable.induct) (auto simp: sys_init_def exec_crashed)

subsection \<open>The finer invariant of an attempt\<close>

definition empty_locks :: "lock_run \<Rightarrow> bool" where
  "empty_locks r \<longleftrightarrow> (\<forall>k < length (run_locks r). run_locks r ! k = [])"

abbreviation met :: "Dsync \<Rightarrow> lock_run \<Rightarrow> bool" where
  "met ds r \<equiv> quorumMet (run_locks r) (run_read r) (dquorum ds) (dquorumReads ds)"

definition locked_count :: "lock_run \<Rightarrow> int" where
  "locked_count r = int (length (filter isLocked (run_locks r)))"

text \<open>Each grant is at one place.\<close>

definition one_place :: "lock_run \<Rightarrow> bool" where
  "one_place r \<longleftrightarrow> run_id r \<noteq> [] \<and> distinct (map index (chan r)) \<and>
     (\<forall>g \<in> set (chan r). goroutines r ! index g = Sent \<and> run_locks r ! index g = []) \<and>
     (\<forall>k < length (goroutines r). goroutines r ! k \<noteq> Sent \<longrightarrow> run_locks r ! k = [])"

text \<open>The lock array in every phase of the collector.\<close>

definition phase_ok :: "Dsync \<Rightarrow> lock_run \<Rightarrow> bool" where
  "phase_ok ds r \<longleftrightarrow>
     (case run_phase r of
        Collecting \<Rightarrow> run_i r = run_failed r + locked_count r \<and> run_failed r \<le> dNodeCount ds - quorum_of ds (run_read r)
      | Releasing k \<Rightarrow> (\<forall>i < k. i < length (run_locks r) \<longrightarrow> run_locks r ! i = [])
      | Deciding \<Rightarrow> met ds r \<or> empty_locks r
      | Draining \<Rightarrow> run_quorum r = Some True \<or> empty_locks r)"

definition run_exact :: "Dsync \<Rightarrow> lock_run \<Rightarrow> bool" where
  "run_exact ds r \<longleftrightarrow> one_place r \<and> phase_ok ds r"

lemmas run_exact_defs = run_exact_def one_place_def phase_ok_def empty_locks_def locked_count_def

lemma phase_ok_goroutines [simp]:
  "phase_ok ds (got_reply k locked r) = phase_ok ds r"
  "phase_ok ds (send_grant k g r) = phase_ok ds r"
  by (simp_all add: phase_ok_def got_reply_def send_grant_def locked_count_def empty_locks_def split: phase.splits)

lemma start_run_exact:
  assumes "ident \<noteq> []" and "dsync_ok ds"
  shows "run_exact ds (start_run ds j nm ident source rd)"
  using assms dsync_okD(1)[OF assms(2)] quorum_of_le[OF assms(2), of rd] by (auto simp: run_exact_defs start_run_def)

lemma got_reply_exact:
  assumes "run_exact ds r" and "run_wf ds names r" and "k < length (restClnts ds)" and "goroutines r ! k = Calling"
  shows "run_exact ds (got_reply k locked r)"
proof -
  have k: "k < length (goroutines r)" using assms(2,3) by (simp add: run_wf_def)
  have "index g \<noteq> k" if "g \<in> set (chan r)" for g using that assms(1,4) by (auto simp: run_exact_defs)
  then have "one_place (got_reply k locked r)"
    using assms(1,4) k by (auto simp: run_exact_def one_place_def got_reply_def nth_list_update)
  with assms(1) show ?thesis by (simp add: run_exact_def)
qed

lemma send_grant_exact:
  assumes "run_exact ds r" and "run_wf ds names r" and "k < length (restClnts ds)" and "goroutines r ! k = Replied g"
  shows "run_exact ds (send_grant k g r)"
proof -
  have k: "k < length (goroutines r)" "index g = k" using assms(2-4) by (auto simp: run_wf_def)
  have "index g' \<noteq> k" if "g' \<in> set (chan r)" for g' using that assms(1,4) by (auto simp: run_exact_defs)
  moreover have "run_locks r ! k = []" using assms(1,4) k(1) by (auto simp: run_exact_defs)
  ultimately have "one_place (send_grant k g r)"
    using assms(1,4) k by (auto simp: run_exact_def one_place_def send_grant_def nth_list_update)
  with assms(1) show ?thesis by (simp add: run_exact_def)
qed

text \<open>A grant that is received goes to an empty entry.\<close>

lemma one_placeD:
  assumes "run_exact ds r" and "run_wf ds names r" and "chan r = g # ch"
  shows "index g < length (run_locks r)" "goroutines r ! index g = Sent" "run_locks r ! index g = []"
    and "\<forall>g' \<in> set ch. index g' \<noteq> index g"
proof -
  show "index g < length (run_locks r)" using assms(2,3) by (simp add: run_wf_def)
  have "one_place r" using assms(1) by (simp add: run_exact_def)
  then have "goroutines r ! index g = Sent" "run_locks r ! index g = []" "index g \<notin> index ` set ch"
    unfolding one_place_def assms(3) by simp_all
  then show "goroutines r ! index g = Sent" "run_locks r ! index g = []" "\<forall>g' \<in> set ch. index g' \<noteq> index g"
    by (simp_all add: image_iff) metis
qed

lemma recv_one_place:
  assumes "run_exact ds r" and "run_wf ds names r" and "chan r = g # ch"
  shows "one_place (recv_grant ds g ch r)"
proof -
  note g = one_placeD[OF assms]
  have place: "one_place r" using assms(1) by (simp add: run_exact_def)
  have "one_place (r\<lparr>chan := ch, run_locks := (run_locks r)[index g := u]\<rparr>)" for u
    using place g(2,4) unfolding one_place_def assms(3) by simp (metis nth_list_update_neq)
  moreover have "one_place (r\<lparr>chan := ch\<rparr>)" using place unfolding one_place_def assms(3) by simp
  ultimately show ?thesis by (simp add: recv_grant_def one_place_def)
qed

lemma recv_grant_exact:
  assumes "run_exact ds r" and "run_wf ds names r" and "chan r = g # ch" and ph: "run_phase r = Collecting"
  shows "run_exact ds (recv_grant ds g ch r)"
proof -
  note g = one_placeD(1,3)[OF assms(1-3)]
  have c: "run_i r = run_failed r + locked_count r" "run_failed r \<le> dNodeCount ds - quorum_of ds (run_read r)"
    using assms(1) ph by (simp_all add: run_exact_def phase_ok_def)
  have "int (length (filter isLocked ((run_locks r)[index g := lockUID g]))) = locked_count r + 1" if "lockUID g \<noteq> []"
    using length_filter_update[OF g(1), of isLocked "lockUID g"] g(2) that by (simp add: locked_count_def)
  then have "phase_ok ds (recv_grant ds g ch r)"
    using c ph too_many_failed_iff[of ds "run_read r" "run_failed r + 1"]
    by (auto simp: phase_ok_def recv_grant_def locked_count_def)
  with recv_one_place[OF assms(1-3)] show ?thesis by (simp add: run_exact_def)
qed

text \<open>The other actions of the collector.\<close>

lemma one_place_phase [simp]:
  "one_place (r\<lparr>run_phase := ph\<rparr>) = one_place r" "one_place (timer_fires ds r) = one_place r"
  "one_place (decide ds r) = one_place r" "one_place (r\<lparr>run_returned := b\<rparr>) = one_place r"
  by (auto simp: one_place_def timer_fires_def decide_def)

lemma nth_clear: "xs ! i = [] \<Longrightarrow> xs[k := []] ! i = []"
  by (metis list_update_beyond not_le nth_list_update_eq nth_list_update_neq)

lemma one_place_less:
  "one_place r \<Longrightarrow> one_place (released_one k r)"
  "one_place r \<Longrightarrow> chan r = g # ch \<Longrightarrow> one_place (drained_one ch r)"
  by (auto simp: one_place_def released_one_def drained_one_def nth_clear)

lemma collector_exact:
  assumes "run_exact ds r" and "run_wf ds names r" and n: "dNodeCount ds = int (length (restClnts ds))"
  shows "run_phase r = Collecting \<Longrightarrow> run_exact ds (timer_fires ds r)"
    and "run_phase r = Collecting \<Longrightarrow> \<not> run_i r < dNodeCount ds \<Longrightarrow> run_exact ds (r\<lparr>run_phase := Deciding\<rparr>)"
    and "run_phase r = Releasing k \<Longrightarrow> run_exact ds (released_one k r)"
    and "run_phase r = Releasing k \<Longrightarrow> run_locks r ! k = [] \<Longrightarrow> run_exact ds (r\<lparr>run_phase := Releasing (Suc k)\<rparr>)"
    and "run_phase r = Releasing k \<Longrightarrow> \<not> k < nat (dNodeCount ds) \<Longrightarrow> run_exact ds (r\<lparr>run_phase := Deciding\<rparr>)"
    and "run_phase r = Deciding \<Longrightarrow> run_exact ds (decide ds r)"
    and "run_phase r = Draining \<Longrightarrow> chan r = g # ch \<Longrightarrow> run_exact ds (drained_one ch r)"
proof -
  have place: "one_place r" and ok: "phase_ok ds r" using assms(1) by (simp_all add: run_exact_def)
  note exact = run_exact_def and phase = phase_ok_def empty_locks_def
  show "run_exact ds (timer_fires ds r)" if "run_phase r = Collecting"
  proof -
    have "phase_ok ds (timer_fires ds r)" by (simp add: phase timer_fires_def)
    with place show ?thesis by (simp add: exact)
  qed
  show "run_exact ds (r\<lparr>run_phase := Deciding\<rparr>)" if "run_phase r = Collecting" "\<not> run_i r < dNodeCount ds"
  proof -
    have "met ds r"
      using ok that assms(2) by (simp add: phase_ok_def quorumMet_iff locked_count_def run_wf_def)
    with place show ?thesis by (simp add: exact phase)
  qed
  show "run_exact ds (released_one k r)" if "run_phase r = Releasing k"
  proof -
    have "phase_ok ds (released_one k r)" using ok that by (auto simp: phase released_one_def nth_clear less_Suc_eq)
    with one_place_less(1)[OF place] show ?thesis by (simp add: exact)
  qed
  show "run_phase r = Releasing k \<Longrightarrow> run_locks r ! k = [] \<Longrightarrow> run_exact ds (r\<lparr>run_phase := Releasing (Suc k)\<rparr>)"
    using place ok by (auto simp: exact phase less_Suc_eq)
  show "run_phase r = Releasing k \<Longrightarrow> \<not> k < nat (dNodeCount ds) \<Longrightarrow> run_exact ds (r\<lparr>run_phase := Deciding\<rparr>)"
    using place ok assms(2) n by (auto simp: exact phase run_wf_def)
  show "run_exact ds (decide ds r)" if "run_phase r = Deciding"
  proof -
    have "phase_ok ds (decide ds r)" using ok that by (auto simp: phase decide_def)
    with place show ?thesis by (simp add: exact)
  qed
  show "run_exact ds (drained_one ch r)" if "run_phase r = Draining" "chan r = g # ch"
  proof -
    have "phase_ok ds (drained_one ch r)" using ok that by (auto simp: phase drained_one_def)
    with one_place_less(2)[OF place that(2)] show ?thesis by (simp add: exact)
  qed
qed

subsection \<open>How the actions move credits, exactly\<close>

lemma got_reply_cred_eq:
  assumes "run_wf ds names r" and "j < length (restClnts ds)" and "goroutines r ! j = Calling" and "run_id r \<noteq> []"
  shows "run_cred cls nm rd u k (got_reply j locked r) = run_cred cls nm rd u k r +
    (if k = j \<and> locked \<and> nm = run_name r \<and> rd = run_read r \<and> u = cls (run_id r) then 1 else 0)"
  using assms by (auto simp: run_cred_def got_reply_def run_wf_def nth_list_update uid_cred_def)

lemma send_grant_cred_eq:
  assumes "run_wf ds names r" and "j < length (restClnts ds)" and "goroutines r ! j = Replied g"
  shows "run_cred cls nm rd u k (send_grant j g r) = run_cred cls nm rd u k r"
  using assms by (auto simp: run_cred_def send_grant_def run_wf_def nth_list_update)

lemma recv_grant_cred_eq:
  assumes "run_exact ds r" and "run_wf ds names r" and "chan r = g # ch" and "run_phase r = Collecting"
  shows "run_cred cls nm rd u k (recv_grant ds g ch r) = run_cred cls nm rd u k r"
proof -
  note g = one_placeD[OF assms(1-3)]
  have "\<not> run_returned r" using assms(2,4) by (auto simp: run_wf_def)
  then show ?thesis
    using g assms(3) by (auto simp: run_cred_def recv_grant_def nth_list_update)
qed

lemma released_one_cred_eq:
  assumes "run_wf ds names r" and "j < length (restClnts ds)" and "run_phase r = Releasing j" and "run_locks r ! j \<noteq> []"
  shows "run_cred cls nm rd u k (released_one j r) +
    (if k = j \<and> nm = run_name r \<and> rd = run_read r \<and> u = cls (run_locks r ! j) then 1 else 0)
    = run_cred cls nm rd u k r"
  using assms by (auto simp: run_cred_def released_one_def run_wf_def nth_list_update uid_cred_def)

lemma drained_one_cred_eq:
  assumes "chan r = g # ch"
  shows "run_cred cls nm rd u k (drained_one ch r) +
    (if k = index g \<and> lockUID g \<noteq> [] \<and> nm = run_name r \<and> rd = run_read r \<and> u = cls (lockUID g) then 1 else 0)
    = run_cred cls nm rd u k r"
  using assms by (auto simp: run_cred_def drained_one_def uid_cred_def)

lemma inactive_nth: "\<not> active ls \<Longrightarrow> k < length ls \<Longrightarrow> ls ! k = []"
  by (auto simp: active_def)

lemma store_locks_cred_eq:
  assumes "dm_wf ds dm" and "length (run_locks r) = length (restClnts ds)"
    and "dNodeCount ds = int (length (restClnts ds))" and "run_name r = Name dm" and "\<not> run_returned r"
    and "\<not> run_read r \<Longrightarrow> \<not> active (writeLocks dm)" and "k < length (restClnts ds)"
  shows "run_cred cls nm rd u k (r\<lparr>run_returned := True\<rparr>)
      + dm_cred cls nm rd u k (store_locks (run_read r) (run_locks r) dm)
    = run_cred cls nm rd u k r + dm_cred cls nm rd u k dm"
  using assms inactive_nth[of "writeLocks dm" k]
  by (auto simp: run_cred_def dm_cred_def store_locks_def dm_wf_def go_copy_same)

lemma take_locks_cred_eq:
  assumes "dm_wf ds dm" and "dNodeCount ds = int (length (restClnts ds))" and "k < length (restClnts ds)"
    and "take_write_locks dm = Inr (locks, dm') \<and> \<not> isRead \<or> take_reader_locks dm = Inr (locks, dm') \<and> isRead"
  shows "dm_cred cls nm rd u k dm' +
      rel_cred cls nm rd u k \<lparr>rel_name = Name dm, rel_read = isRead, rel_locks = locks, rel_next = 0\<rparr>
    = dm_cred cls nm rd u k dm"
  using assms(1,2,4)
  by (cases rule: take_locks_cases) (use assms(3) in \<open>simp_all add: dm_cred_def rel_cred_def\<close>)

lemma rel_next_cred_eq:
  "rel_cred cls nm rd u k (x\<lparr>rel_next := Suc (rel_next x)\<rparr>) +
    (if k = rel_next x \<and> rel_locks x ! k \<noteq> [] \<and> nm = rel_name x \<and> rd = rel_read x \<and> u = cls (rel_locks x ! k)
     then 1 else 0)
   = rel_cred cls nm rd u k x"
  by (auto simp: rel_cred_def uid_cred_def)

subsection \<open>The balance\<close>

definition balanced :: "('s \<Rightarrow> bool) \<Rightarrow> ('s \<Rightarrow> string \<Rightarrow> bool \<Rightarrow> 'u \<Rightarrow> nat) \<Rightarrow> (string \<Rightarrow> 'u) \<Rightarrow> Dsync \<Rightarrow> 's sys \<Rightarrow> bool" where
  "balanced I tok cls ds S \<longleftrightarrow> (\<forall>c. I (servers S c)) \<and>
     (\<forall>k < length (restClnts ds). \<forall>nm rd u. cred cls nm rd u k S = tok (servers S (restClnts ds ! k)) nm rd u)"

lemma balanced_local:
  assumes "balanced I tok cls ds S" and "servers S' = servers S"
    and "\<And>k nm rd u. k < length (restClnts ds) \<Longrightarrow> cred cls nm rd u k S' = cred cls nm rd u k S"
  shows "balanced I tok cls ds S'"
  using assms unfolding balanced_def by simp

lemma balanced_rpc:
  assumes "balanced I tok cls ds S" and "distinct (restClnts ds)" and "j < length (restClnts ds)"
    and "servers S' = (servers S)(restClnts ds ! j := s')" and "I s'"
    and "\<And>k nm rd u. k < length (restClnts ds) \<Longrightarrow> k \<noteq> j \<Longrightarrow> cred cls nm rd u k S' = cred cls nm rd u k S"
    and "\<And>nm rd u. cred cls nm rd u j S' + tok (servers S (restClnts ds ! j)) nm rd u
      = cred cls nm rd u j S + tok s' nm rd u"
  shows "balanced I tok cls ds S'"
  unfolding balanced_def
proof (intro conjI allI impI)
  show "I (servers S' c)" for c using assms(1,4,5) by (simp add: balanced_def)
  fix k nm rd u assume k: "k < length (restClnts ds)"
  then have old: "cred cls nm rd u k S = tok (servers S (restClnts ds ! k)) nm rd u"
    using assms(1) by (simp add: balanced_def)
  show "cred cls nm rd u k S' = tok (servers S' (restClnts ds ! k)) nm rd u"
  proof (cases "k = j")
    case True
    with old assms(7)[of nm rd u] assms(4) show ?thesis by simp
  next
    case False
    with assms(2,3) k have "restClnts ds ! k \<noteq> restClnts ds ! j" by (simp add: nth_eq_iff_index_eq)
    with False old assms(4) assms(6)[OF k False, of nm rd u] show ?thesis by simp
  qed
qed

lemma balanced_run_step:
  assumes "balanced I tok cls ds S" and "p < length (runs S)"
    and "\<And>k nm rd u. k < length (restClnts ds) \<Longrightarrow> run_cred cls nm rd u k r' = run_cred cls nm rd u k (runs S ! p)"
  shows "balanced I tok cls ds (S\<lparr>runs := (runs S)[p := r']\<rparr>)"
  using assms(1)
proof (rule balanced_local)
  fix k nm rd u assume "k < length (restClnts ds)"
  then show "cred cls nm rd u k (S\<lparr>runs := (runs S)[p := r']\<rparr>) = cred cls nm rd u k S"
    using cred_run_update[OF assms(2), of cls nm rd u k r'] assms(3)[of k nm rd u] by simp
qed simp_all

lemma balanced_run_rpc:
  assumes "balanced I tok cls ds S" and "distinct (restClnts ds)" and "j < length (restClnts ds)"
    and p: "p < length (runs S)" and "I s'"
    and "\<And>k nm rd u. k < length (restClnts ds) \<Longrightarrow> k \<noteq> j \<Longrightarrow>
      run_cred cls nm rd u k r' = run_cred cls nm rd u k (runs S ! p)"
    and "\<And>nm rd u. run_cred cls nm rd u j r' + tok (servers S (restClnts ds ! j)) nm rd u
      = run_cred cls nm rd u j (runs S ! p) + tok s' nm rd u"
  shows "balanced I tok cls ds (S\<lparr>servers := (servers S)(restClnts ds ! j := s'), runs := (runs S)[p := r']\<rparr>)"
  using assms(1-3)
proof (rule balanced_rpc[where s' = s'])
  show "cred cls nm rd u k (S\<lparr>servers := (servers S)(restClnts ds ! j := s'), runs := (runs S)[p := r']\<rparr>)
      = cred cls nm rd u k S" if "k < length (restClnts ds)" "k \<noteq> j" for k nm rd u
    using cred_run_update[OF p, of cls nm rd u k r'] assms(6)[OF that, of nm rd u] by simp
  show "cred cls nm rd u j (S\<lparr>servers := (servers S)(restClnts ds ! j := s'), runs := (runs S)[p := r']\<rparr>)
      + tok (servers S (restClnts ds ! j)) nm rd u = cred cls nm rd u j S + tok s' nm rd u" for nm rd u
    using cred_run_update[OF p, of cls nm rd u j r'] assms(7)[of nm rd u] by simp
qed (simp_all add: assms(5))

subsection \<open>Every reliable action keeps the balance\<close>

definition runs_exact :: "Dsync \<Rightarrow> 's sys \<Rightarrow> bool" where
  "runs_exact ds S \<longleftrightarrow> (\<forall>r \<in> set (runs S). run_exact ds r)"

lemma runs_exact_update:
  assumes "runs_exact ds S" and "run_exact ds r'" and "runs S' = (runs S)[p := r']"
  shows "runs_exact ds S'"
  using assms ball_set_update[of "runs S" "run_exact ds" r' p] by (simp add: runs_exact_def)

lemma runs_exact_nth: "runs_exact ds S \<Longrightarrow> p < length (runs S) \<Longrightarrow> run_exact ds (runs S ! p)"
  by (simp add: runs_exact_def)

text \<open>What an attempt still has recorded at a node is a token there.\<close>

lemma balanced_pos:
  assumes "balanced I tok cls ds S" and "k < length (restClnts ds)" and "p < length (runs S)"
    and "0 < run_cred cls nm rd u k (runs S ! p)"
  shows "0 < tok (servers S (restClnts ds ! k)) nm rd u"
proof -
  have "run_cred cls nm rd u k (runs S ! p) \<le> cred cls nm rd u k S"
    using sum_list_map_ge_elem[OF assms(3), of "run_cred cls nm rd u k"] by (simp add: cred_def)
  with assms(1,2,4) show ?thesis by (simp add: balanced_def)
qed

context lock_server_live
begin

lemma deliver_lock:
  assumes "inv s" and "srv e (lock_method isRead) args s = ((locked, err), s')"
  shows "inv s'"
    and "tok s' nm rd u = tok s nm rd u + (if locked \<and> nm = Resource args \<and> rd = isRead \<and> u = cls (UID args) then 1 else 0)"
  using assms inv_step[OF assms(1), of e "lock_method isRead" args]
    grant[OF assms(1) lock_method_cases[of isRead], of e args nm rd u]
    deny[OF assms(1) lock_method_cases[of isRead], of e args nm rd u]
  by (cases locked; simp)+

lemma deliver_release:
  assumes "inv s" and "0 < tok s n isRead (cls x)" and "s' = snd (srv e (release_method isRead) (release_args n x) s)"
  shows "inv s'"
    and "tok s' nm rd u + (if nm = n \<and> rd = isRead \<and> u = cls x then 1 else 0) = tok s nm rd u"
proof -
  let ?args = "release_args n x"
  show "inv s'" using inv_step[OF assms(1)] assms(3) by simp
  note m = release_method_cases[of isRead]
  have "tok s' n isRead (cls x) = tok s n isRead (cls x) - 1"
    using release_held[OF assms(1) m, of ?args e] assms(2,3) by (simp add: release_args_def)
  moreover have "tok s nm rd u \<le> tok s' nm rd u + (if nm = n \<and> rd = isRead \<and> u = cls x then 1 else 0)"
    "tok s' nm rd u \<le> tok s nm rd u"
    using release[OF assms(1) m, of nm rd u e ?args] release_le[OF assms(1) m, of e ?args nm rd u] assms(3)
    by (simp_all add: release_args_def)
  ultimately show "tok s' nm rd u + (if nm = n \<and> rd = isRead \<and> u = cls x then 1 else 0) = tok s nm rd u"
    using assms(2) by (cases "nm = n \<and> rd = isRead \<and> u = cls x") auto
qed

lemma balanced_call:
  assumes bal: "balanced inv tok cls ds S" and ex: "runs_exact ds S" and wf: "sys_wf ds names S" and ok: "dsync_ok ds"
    and "exec_call srv ds p j Delivered e S = Some S'"
  shows "balanced inv tok cls ds S' \<and> runs_exact ds S'"
proof -
  let ?r = "runs S ! p" and ?c = "restClnts ds ! j"
  obtain locked err s' where p: "p < length (runs S)" and j: "j < length (restClnts ds)" and g: "goroutines ?r ! j = Calling"
    and call: "srv e (lock_method (run_read ?r)) (run_args ?r) (servers S ?c) = ((locked, err), s')"
    and S': "S' = S\<lparr>servers := (servers S)(?c := s'), runs := (runs S)[p := got_reply j locked ?r]\<rparr>"
    using assms(5) by (auto simp: exec_call_def Let_def rpc_def split: if_splits prod.splits)
  have i: "inv (servers S ?c)" using bal by (simp add: balanced_def)
  have "run_id ?r \<noteq> []" using runs_exact_nth[OF ex p] by (simp add: run_exact_def one_place_def)
  note eq = got_reply_cred_eq[OF sys_wf_run[OF wf p] j g this, of cls _ _ _ _ locked]
  note tok' = deliver_lock[OF i call]
  have "balanced inv tok cls ds S'"
    unfolding S' by (rule balanced_run_rpc[OF bal dsync_okD(6)[OF ok] j p tok'(1)]) (simp_all add: eq tok'(2) run_args_def)
  moreover have "runs_exact ds S'"
    using got_reply_exact[OF runs_exact_nth[OF ex p] sys_wf_run[OF wf p] j g, of locked] S'
    by (intro runs_exact_update[OF ex]) simp_all
  ultimately show ?thesis by blast
qed

text \<open>A release by the collector of a lock it has recorded.\<close>

lemma balanced_run_release:
  assumes bal: "balanced inv tok cls ds S" and ok: "dsync_ok ds" and p: "p < length (runs S)" and j: "j < length (restClnts ds)"
    and s': "s' = snd (srv e (release_method (run_read (runs S ! p))) (release_args (run_name (runs S ! p)) x) (servers S (restClnts ds ! j)))"
    and eq: "\<And>k nm rd u. run_cred cls nm rd u k r' +
      (if k = j \<and> nm = run_name (runs S ! p) \<and> rd = run_read (runs S ! p) \<and> u = cls x then 1 else 0) = run_cred cls nm rd u k (runs S ! p)"
  shows "balanced inv tok cls ds (S\<lparr>servers := (servers S)(restClnts ds ! j := s'), runs := (runs S)[p := r']\<rparr>)"
proof (rule balanced_run_rpc[OF bal dsync_okD(6)[OF ok] j p])
  let ?r = "runs S ! p" and ?s = "servers S (restClnts ds ! j)"
  have i: "inv ?s" using bal by (simp add: balanced_def)
  have "0 < run_cred cls (run_name ?r) (run_read ?r) (cls x) j ?r"
    using eq[of "run_name ?r" "run_read ?r" "cls x" j] by simp
  then have pos: "0 < tok ?s (run_name ?r) (run_read ?r) (cls x)" by (rule balanced_pos[OF bal j p])
  show "inv s'" using deliver_release(1)[OF i pos s'] .
  show "run_cred cls nm rd u k r' = run_cred cls nm rd u k ?r" if "k \<noteq> j" for k nm rd u
    using eq[of nm rd u k] that by simp
  show "run_cred cls nm rd u j r' + tok ?s nm rd u = run_cred cls nm rd u j ?r + tok s' nm rd u" for nm rd u
    using eq[of nm rd u j] deliver_release(2)[OF i pos s', of nm rd u] by (simp split: if_splits)
qed

lemma balanced_release:
  assumes bal: "balanced inv tok cls ds S" and ex: "runs_exact ds S" and wf: "sys_wf ds names S" and ok: "dsync_ok ds"
    and "exec_release srv ds p Delivered e S = Some S'"
  shows "balanced inv tok cls ds S' \<and> runs_exact ds S'"
proof -
  let ?r = "runs S ! p"
  note n = dsync_okD(1)[OF ok]
  from assms(5) obtain k where p: "p < length (runs S)" and ph: "run_phase ?r = Releasing k" and k: "k < length (restClnts ds)"
    by (auto simp: exec_release_def Let_def n split: if_splits phase.splits)
  note r = runs_exact_nth[OF ex p] sys_wf_run[OF wf p]
  show ?thesis
  proof (cases "run_locks ?r ! k = []")
    case True
    then have S': "S' = upd_run p (?r\<lparr>run_phase := Releasing (Suc k)\<rparr>) S"
      using assms(5) p ph k by (simp add: exec_release_def Let_def n)
    show ?thesis
      using collector_exact(4)[OF r n ph True] balanced_run_step[OF bal p, of "?r\<lparr>run_phase := Releasing (Suc k)\<rparr>"]
      by (auto simp: S' upd_run_def intro: runs_exact_update[OF ex])
  next
    case False
    let ?s' = "snd (srv e (release_method (run_read ?r)) (release_args (run_name ?r) (run_locks ?r ! k)) (servers S (restClnts ds ! k)))"
    have S': "S' = S\<lparr>servers := (servers S)(restClnts ds ! k := ?s'), runs := (runs S)[p := released_one k ?r]\<rparr>"
      using assms(5) p ph k False by (simp add: exec_release_def Let_def n rpc_def)
    show ?thesis
      using collector_exact(3)[OF r n ph] balanced_run_release[OF bal ok p k refl released_one_cred_eq[OF r(2) k ph False]]
      by (auto simp: S' intro: runs_exact_update[OF ex])
  qed
qed

lemma balanced_drain:
  assumes bal: "balanced inv tok cls ds S" and ex: "runs_exact ds S" and wf: "sys_wf ds names S" and ok: "dsync_ok ds"
    and "exec_drain srv ds p Delivered e S = Some S'"
  shows "balanced inv tok cls ds S' \<and> runs_exact ds S'"
proof -
  let ?r = "runs S ! p"
  from assms(5) obtain g ch where p: "p < length (runs S)" and ph: "run_phase ?r = Draining" "run_i ?r < dNodeCount ds"
    and ch: "chan ?r = g # ch"
    by (auto simp: exec_drain_def Let_def split: if_splits list.splits)
  note r = runs_exact_nth[OF ex p] sys_wf_run[OF wf p] and eq = drained_one_cred_eq[OF ch, of cls]
  have k: "index g < length (restClnts ds)" using r(2) ch by (simp add: run_wf_def)
  note exact = collector_exact(7)[OF r dsync_okD(1)[OF ok] ph(1) ch]
  show ?thesis
  proof (cases "lockUID g = []")
    case True
    then have S': "S' = upd_run p (drained_one ch ?r) S"
      using assms(5) p ph ch by (simp add: exec_drain_def Let_def)
    show ?thesis
      using exact balanced_run_step[OF bal p, of "drained_one ch ?r"] eq True
      by (auto simp: S' upd_run_def intro: runs_exact_update[OF ex])
  next
    case False
    let ?s' = "snd (srv e (release_method (run_read ?r)) (release_args (run_name ?r) (lockUID g)) (servers S (restClnts ds ! index g)))"
    have S': "S' = S\<lparr>servers := (servers S)(restClnts ds ! index g := ?s'), runs := (runs S)[p := drained_one ch ?r]\<rparr>"
      using assms(5) p ph ch False by (simp add: exec_drain_def Let_def rpc_def)
    show ?thesis
      using exact balanced_run_release[OF bal ok p k refl, where e = e and x = "lockUID g" and r' = "drained_one ch ?r"] eq False
      by (auto simp: S' intro: runs_exact_update[OF ex])
  qed
qed

lemma balanced_return:
  assumes bal: "balanced inv tok cls ds S" and ex: "runs_exact ds S" and wf: "sys_wf ds names S" and ok: "dsync_ok ds"
    and one: "\<And>nm. writers S nm \<le> 1" and "exec_return p S = Some S'"
  shows "balanced inv tok cls ds S' \<and> runs_exact ds S'"
proof -
  let ?r = "runs S ! p" and ?j = "run_dm (runs S ! p)"
  let ?dm = "mutexes S ! ?j" and ?r' = "?r\<lparr>run_returned := True\<rparr>"
  let ?dm' = "store_locks (run_read ?r) (run_locks ?r) ?dm" and ?S = "S\<lparr>runs := (runs S)[p := ?r']\<rparr>"
  obtain q where p: "p < length (runs S)" and ret: "\<not> run_returned ?r" and q: "run_quorum ?r = Some q"
    and S': "S' = ?S\<lparr>mutexes := (if q then (mutexes S)[?j := ?dm'] else mutexes S)\<rparr>"
    using assms(6) by (auto simp: exec_return_def Let_def split: if_splits option.splits)
  note r = runs_exact_nth[OF ex p] sys_wf_run[OF wf p]
  have j: "?j < length (mutexes S)" and nm: "run_name ?r = Name ?dm"
    and len: "length (run_locks ?r) = length (restClnts ds)" and ph: "run_phase ?r = Draining"
    using r(2) wf q by (auto simp: run_wf_def sys_wf_def)
  have exact: "run_exact ds ?r'" using r(1) by (simp add: run_exact_def phase_ok_def empty_locks_def locked_count_def split: phase.splits)
  have "cred cls n rd u k S' = cred cls n rd u k S" if k: "k < length (restClnts ds)" for n rd u k
  proof (cases q)
    case True
    have free: "\<not> run_read ?r \<Longrightarrow> \<not> active (writeLocks ?dm)"
      using writer_slot_free[OF p j _ ret _ nm one] q True by simp
    show ?thesis
      using cred_run_update[OF p, of cls n rd u k ?r'] cred_dm_update[of ?j ?S cls n rd u k ?dm'] j True S'
        store_locks_cred_eq[OF sys_wf_dm[OF wf j] len dsync_okD(1)[OF ok] nm ret free k, of cls n rd u] by simp
  next
    case False
    then have "run_locks ?r ! k = []" using r(1) q ph len k by (simp add: run_exact_def phase_ok_def empty_locks_def)
    then have "run_cred cls n rd u k ?r' = run_cred cls n rd u k ?r" by (simp add: run_cred_def)
    moreover have "S' = ?S" using S' False by simp
    ultimately show ?thesis using cred_run_update[OF p, of cls n rd u k ?r'] by simp
  qed
  moreover have "servers S' = servers S" unfolding S' by simp
  ultimately have "balanced inv tok cls ds S'" by (intro balanced_local[OF bal])
  moreover have "runs_exact ds S'" using runs_exact_update[OF ex exact, of S' p] S' by simp
  ultimately show ?thesis by blast
qed

lemma balanced_unlock:
  assumes bal: "balanced inv tok cls ds S" and wf: "sys_wf ds names S" and ok: "dsync_ok ds"
    and "exec_unlock isRead j S = Some S'"
  shows "balanced inv tok cls ds S' \<and> runs S' = runs S"
proof -
  let ?dm = "mutexes S ! j"
  obtain locks dm' where j: "j < length (mutexes S)"
    and take: "take_write_locks ?dm = Inr (locks, dm') \<and> \<not> isRead \<or> take_reader_locks ?dm = Inr (locks, dm') \<and> isRead"
    and S': "S' = S\<lparr>mutexes := (mutexes S)[j := dm'],
      releases := releases S @ [\<lparr>rel_name = Name ?dm, rel_read = isRead, rel_locks = locks, rel_next = 0\<rparr>]\<rparr>"
    using assms(4) by (cases isRead) (auto simp: exec_unlock_def Let_def split: if_splits sum.splits prod.splits)
  have "cred cls nm rd u k S' = cred cls nm rd u k S" if "k < length (restClnts ds)" for k nm rd u
    using cred_dm_update[OF j, of cls nm rd u k dm'] S'
      cred_append(2)[of cls nm rd u k "S\<lparr>mutexes := (mutexes S)[j := dm']\<rparr>"]
      take_locks_cred_eq[OF sys_wf_dm[OF wf j] dsync_okD(1)[OF ok] that take, of cls nm rd u]
    by simp
  moreover have "servers S' = servers S" unfolding S' by simp
  ultimately have "balanced inv tok cls ds S'" by (intro balanced_local[OF bal])
  then show ?thesis by (simp add: S')
qed

lemma balanced_unlock_send:
  assumes bal: "balanced inv tok cls ds S" and ok: "dsync_ok ds" and "exec_unlock_send srv ds p Delivered e S = Some S'"
  shows "balanced inv tok cls ds S' \<and> runs S' = runs S"
proof -
  let ?x = "releases S ! p"
  let ?j = "rel_next ?x" and ?x' = "?x\<lparr>rel_next := Suc (rel_next ?x)\<rparr>"
  have p: "p < length (releases S)" and j: "?j < length (restClnts ds)"
    using assms(3) by (auto simp: exec_unlock_send_def Let_def split: if_splits)
  note upd = cred_rel_update[OF p, of cls _ _ _ _ ?x'] and eq = rel_next_cred_eq[of cls _ _ _ _ ?x]
  show ?thesis
  proof (cases "rel_locks ?x ! ?j = []")
    case True
    then have S': "S' = S\<lparr>releases := (releases S)[p := ?x']\<rparr>"
      using assms(3) p j by (simp add: exec_unlock_send_def Let_def)
    have "cred cls nm rd u k S' = cred cls nm rd u k S" for k nm rd u
      using upd[of nm rd u k] eq[of nm rd u k] True S' by (auto split: if_splits)
    then have "balanced inv tok cls ds S'" by (intro balanced_local[OF bal]) (simp_all add: S')
    then show ?thesis by (simp add: S')
  next
    case False
    let ?s = "servers S (restClnts ds ! ?j)"
    let ?s' = "snd (srv e (release_method (rel_read ?x)) (release_args (rel_name ?x) (rel_locks ?x ! ?j)) ?s)"
    have S': "S' = S\<lparr>servers := (servers S)(restClnts ds ! ?j := ?s'), releases := (releases S)[p := ?x']\<rparr>"
      using assms(3) p j False by (simp add: exec_unlock_send_def Let_def rpc_def)
    have i: "inv ?s" using bal by (simp add: balanced_def)
    have "rel_cred cls (rel_name ?x) (rel_read ?x) (cls (rel_locks ?x ! ?j)) ?j ?x = 1"
      using False by (simp add: rel_cred_def uid_cred_def)
    then have "0 < cred cls (rel_name ?x) (rel_read ?x) (cls (rel_locks ?x ! ?j)) ?j S"
      using sum_list_map_ge_elem[OF p, of "rel_cred cls (rel_name ?x) (rel_read ?x) (cls (rel_locks ?x ! ?j)) ?j"]
      by (simp add: cred_def)
    then have pos: "0 < tok ?s (rel_name ?x) (rel_read ?x) (cls (rel_locks ?x ! ?j))"
      using bal j by (simp add: balanced_def)
    note t = deliver_release[OF i pos refl, of e]
    have "balanced inv tok cls ds S'"
    proof (rule balanced_rpc[OF bal dsync_okD(6)[OF ok] j _ t(1)])
      show "servers S' = (servers S)(restClnts ds ! ?j := ?s')" by (simp add: S')
      show "cred cls nm rd u k S' = cred cls nm rd u k S" if "k \<noteq> ?j" for k nm rd u
        using upd[of nm rd u k] eq[of nm rd u k] that S' by simp
      show "cred cls nm rd u ?j S' + tok ?s nm rd u = cred cls nm rd u ?j S + tok ?s' nm rd u" for nm rd u
        using upd[of nm rd u ?j] eq[of nm rd u ?j] t(2)[of nm rd u] False S' by (simp split: if_splits)
    qed
    then show ?thesis by (simp add: S')
  qed
qed

text \<open>The actions that touch one attempt and no server.\<close>

lemma balanced_upd_run:
  assumes "balanced inv tok cls ds S" and "runs_exact ds S" and "p < length (runs S)" and "S' = upd_run p r' S"
    and "run_exact ds r'"
    and "\<And>k nm rd u. k < length (restClnts ds) \<Longrightarrow> run_cred cls nm rd u k r' = run_cred cls nm rd u k (runs S ! p)"
  shows "balanced inv tok cls ds S' \<and> runs_exact ds S'"
  using balanced_run_step[OF assms(1,3,6)] runs_exact_update[OF assms(2,5), of S' p] assms(4) by (simp add: upd_run_def)

lemma balanced_start:
  assumes bal: "balanced inv tok cls ds S" and "runs_exact ds S" and ok: "dsync_ok ds" and "ident \<noteq> []"
    and S': "S' = S\<lparr>runs := runs S @ [start_run ds j nm0 ident source isRead]\<rparr>"
  shows "balanced inv tok cls ds S' \<and> runs_exact ds S'"
proof -
  have "servers S' = servers S" unfolding S' by simp
  moreover have "cred cls nm rd u k S' = cred cls nm rd u k S" if "k < length (restClnts ds)" for k nm rd u
    using start_run_cred[OF dsync_okD(1)[OF ok] that] by (simp add: S' cred_append)
  ultimately have "balanced inv tok cls ds S'" by (intro balanced_local[OF bal])
  with assms(2) start_run_exact[OF assms(4) ok] show ?thesis by (simp add: S' runs_exact_def)
qed

lemma balanced_exec:
  assumes bal: "balanced inv tok cls ds S" and ex: "runs_exact ds S" and wf: "sys_wf ds names S" and ok: "dsync_ok ds"
    and one: "\<And>nm. writers S nm \<le> 1" and rel: "reliable_action a" and step: "exec srv init ds a S = Some S'"
  shows "balanced inv tok cls ds S' \<and> runs_exact ds S'"
proof -
  note n = dsync_okD(1)[OF ok] and upd = balanced_upd_run[OF bal ex]
  have r: "run_exact ds (runs S ! p)" "run_wf ds names (runs S ! p)" if "p < length (runs S)" for p
    using that ex wf by (simp_all add: runs_exact_nth sys_wf_run)
  show ?thesis
  proof (cases a)
    case (Start j ident source rd)
    then show ?thesis
      using step rel balanced_start[OF bal ex ok, of ident S' j "Name (mutexes S ! j)" source rd] by (simp split: if_splits)
  next
    case (Call p k f e)
    then show ?thesis using balanced_call[OF bal ex wf ok] step rel by simp
  next
    case (Send p k)
    then obtain g where g: "p < length (runs S)" "k < length (restClnts ds)" "goroutines (runs S ! p) ! k = Replied g"
      "S' = upd_run p (send_grant k g (runs S ! p)) S"
      using step by (auto simp: exec_send_def Let_def split: if_splits goroutine.splits)
    show ?thesis
      by (rule upd[OF g(1,4)]) (use send_grant_exact[OF r[OF g(1)] g(2,3)] send_grant_cred_eq[OF r(2)[OF g(1)] g(2,3)] in simp_all)
  next
    case (Recv p)
    then obtain g ch where g: "p < length (runs S)" "run_phase (runs S ! p) = Collecting" "chan (runs S ! p) = g # ch"
      "S' = upd_run p (recv_grant ds g ch (runs S ! p)) S"
      using step by (auto simp: exec_recv_def Let_def split: if_splits list.splits)
    show ?thesis
      by (rule upd[OF g(1,4)]) (use recv_grant_exact[OF r[OF g(1)] g(3,2)] recv_grant_cred_eq[OF r[OF g(1)] g(3,2)] in simp_all)
  next
    case (Timeout p)
    then have t: "p < length (runs S)" "run_phase (runs S ! p) = Collecting" "S' = upd_run p (timer_fires ds (runs S ! p)) S"
      using step by (auto split: if_splits)
    show ?thesis by (rule upd[OF t(1,3)]) (use collector_exact(1)[OF r[OF t(1)] n t(2)] in simp_all)
  next
    case (LoopEnd p)
    then have t: "p < length (runs S)" "run_phase (runs S ! p) = Collecting" "\<not> run_i (runs S ! p) < dNodeCount ds"
      "S' = upd_run p ((runs S ! p)\<lparr>run_phase := Deciding\<rparr>) S"
      using step by (auto split: if_splits)
    show ?thesis by (rule upd[OF t(1,4)]) (use collector_exact(2)[OF r[OF t(1)] n t(2,3)] in simp_all)
  next
    case (Release p f e)
    then show ?thesis using balanced_release[OF bal ex wf ok] step rel by simp
  next
    case (ReleaseEnd p)
    then obtain k where t: "p < length (runs S)" "run_phase (runs S ! p) = Releasing k" "\<not> k < nat (dNodeCount ds)"
      "S' = upd_run p ((runs S ! p)\<lparr>run_phase := Deciding\<rparr>) S"
      using step by (auto simp: exec_release_end_def Let_def split: if_splits phase.splits)
    show ?thesis by (rule upd[OF t(1,4)]) (use collector_exact(5)[OF r[OF t(1)] n t(2,3)] in simp_all)
  next
    case (Decide p)
    then have t: "p < length (runs S)" "run_phase (runs S ! p) = Deciding" "S' = upd_run p (decide ds (runs S ! p)) S"
      using step by (auto split: if_splits)
    show ?thesis by (rule upd[OF t(1,3)]) (use collector_exact(6)[OF r[OF t(1)] n t(2)] in simp_all)
  next
    case (Drain p f e)
    then show ?thesis using balanced_drain[OF bal ex wf ok] step rel by simp
  next
    case (Return p)
    then show ?thesis using balanced_return[OF bal ex wf ok one] step by simp
  next
    case (UnlockW j)
    then show ?thesis using balanced_unlock[OF bal wf ok] step ex by (simp add: runs_exact_def)
  next
    case (UnlockR j)
    then show ?thesis using balanced_unlock[OF bal wf ok] step ex by (simp add: runs_exact_def)
  next
    case (UnlockSend p f e)
    then show ?thesis using balanced_unlock_send[OF bal ok] step rel ex by (simp add: runs_exact_def)
  next
    case (Crash c)
    then show ?thesis using rel by simp
  qed
qed

lemma balanced_init: "dsync_ok ds \<Longrightarrow> balanced inv tok cls ds (sys_init init ds names)"
proof -
  assume ok: "dsync_ok ds"
  have "dm_cred cls nm rd u k (NewDRWMutex x ds) = 0" if "k < length (restClnts ds)" for nm rd u k x
    using that dsync_okD(1)[OF ok] by (simp add: dm_cred_def NewDRWMutex_def)
  then show ?thesis by (simp add: balanced_def cred_def sys_init_def o_def inv_init tok_init)
qed

lemma reliable_balanced:
  "reliable srv init ds names S \<Longrightarrow> dsync_ok ds \<Longrightarrow> balanced inv tok cls ds S \<and> runs_exact ds S"
proof (induction rule: reliable.induct)
  case initial
  then show ?case using balanced_init by (simp add: runs_exact_def sys_init_def)
next
  case (action S a S')
  note reach = reliable_reachable[OF action(1)]
  have "writers S nm \<le> 1" for nm
    using reachable_rw_safe[OF reach action(5) reliable_crashed[OF action(1)]] by (simp add: rw_safe_def rw_abs_def)
  then show ?case using balanced_exec[OF _ _ reachable_wf[OF reach action(5)] action(5) _ action(2,3)] action by blast
qed

end

text \<open>Nobody holds, waits for or releases anything.\<close>

definition quiescent :: "Dsync \<Rightarrow> 's sys \<Rightarrow> bool" where
  "quiescent ds S \<longleftrightarrow> (\<forall>r \<in> set (runs S). finished ds r) \<and>
     (\<forall>dm \<in> set (mutexes S). \<not> active (writeLocks dm) \<and> readersLocks dm = []) \<and>
     (\<forall>x \<in> set (releases S). rel_next x = length (restClnts ds))"

lemma quiescent_cred:
  assumes "sys_wf ds names S" and "quiescent ds S" and k: "k < length (restClnts ds)"
  shows "cred cls nm rd u k S = 0"
proof -
  have "run_cred cls nm rd u k r = 0" if "r \<in> set (runs S)" for r
  proof -
    have wf: "run_wf ds names r" and fin: "finished ds r" using that assms by (auto simp: sys_wf_def quiescent_def)
    then have "goroutines r ! k = Sent" using k by (intro returned_all_sent) (simp_all add: finished_def)
    moreover have "int (length (chan r)) + int (unsent r) = 0" using wf fin by (simp add: run_wf_def finished_def)
    then have "length (chan r) = 0" by linarith
    then have "chan r = []" by simp
    ultimately show ?thesis using fin by (simp add: run_cred_def finished_def)
  qed
  moreover have "dm_cred cls nm rd u k dm = 0" if "dm \<in> set (mutexes S)" for dm
    using that assms inactive_nth[of "writeLocks dm" k] by (auto simp: dm_cred_def sys_wf_def dm_wf_def quiescent_def)
  moreover have "rel_cred cls nm rd u k x = 0" if "x \<in> set (releases S)" for x
    using that assms k by (auto simp: rel_cred_def quiescent_def)
  ultimately show ?thesis by (simp add: cred_def cong: map_cong)
qed

text \<open>(C10) No lock leaks under concurrency: over chaos servers, when every attempt is made with a non-empty
  identifier, all messages are delivered and no server crashes, and all attempts have finished and all locks have been
  released, every lock map is empty. In the same runs the locks a server has recorded are at any time exactly those the
  clients account for.\<close>

theorem chaos_no_leaks:
  assumes "reliable chaos_server chaos_init ds names S" and "dsync_ok ds" and "k < length (restClnts ds)"
  shows "chaos_tok (servers S (restClnts ds ! k)) nm rd u = cred (\<lambda>u. u) nm rd u k S \<and>
    (quiescent ds S \<longrightarrow> lockMap (servers S (restClnts ds ! k)) = Map.empty)"
proof -
  let ?s = "servers S (restClnts ds ! k)"
  have bal: "balanced chaos_inv chaos_tok (\<lambda>u. u) ds S" using chaos.reliable_balanced[OF assms(1,2)] by blast
  then have eq: "chaos_tok ?s nm rd u = cred (\<lambda>u. u) nm rd u k S" and inv: "chaos_inv ?s" for nm rd u
    using assms(3) by (simp_all add: balanced_def)
  moreover have "lockMap ?s = Map.empty" if "quiescent ds S"
  proof
    fix nm
    have "chaos_tok ?s nm rd u = 0" for rd u
      using eq quiescent_cred[OF reachable_wf[OF reliable_reachable[OF assms(1)] assms(2)] that assms(3)] by metis
    then show "lockMap ?s nm = None" using chaos_tok_zero_iff[of ?s nm] chaos_entries_inv[OF inv] by simp
  qed
  ultimately show ?thesis by blast
qed

text \<open>A run in which two clients compete for the lock, one gets it and gives it back.\<close>

definition competing :: "clock action list" where
  "competing =
     [Start 0 ''a'' [] False, Start 1 ''b'' [] False, Call 0 0 Delivered (\<lambda>_. 1), Call 1 0 Delivered (\<lambda>_. 2),
      Call 0 1 Delivered (\<lambda>_. 3), Call 1 1 Delivered (\<lambda>_. 4), Send 0 0, Send 1 0, Send 0 1, Send 1 1,
      Recv 0, Recv 0, LoopEnd 0, Decide 0, Return 0,
      Recv 1, Release 1 Delivered (\<lambda>_. 5), Release 1 Delivered (\<lambda>_. 5), ReleaseEnd 1, Decide 1,
      Drain 1 Delivered (\<lambda>_. 6), Return 1, UnlockW 0, UnlockSend 0 Delivered (\<lambda>_. 7), UnlockSend 0 Delivered (\<lambda>_. 8)]"

lemma reliable_scenario:
  assumes "list_all reliable_action as" and "map_option f (exec_all srv init ds as (sys_init init ds names)) = Some v"
  shows "\<exists>S. reliable srv init ds names S \<and> f S = v"
proof -
  have "reliable srv init ds names S'" if "exec_all srv init ds as S = Some S'" "reliable srv init ds names S" for S S'
    using that assms(1) by (induction as arbitrary: S) (auto split: option.splits intro: reliable.action)
  with assms(2) show ?thesis by (auto simp: map_option_case split: option.splits intro: reliable.initial)
qed

theorem chaos_no_leaks_witness:
  "\<exists>S. reliable chaos_server chaos_init ds_two [''r'', ''r''] S \<and> length (runs S) = 2 \<and> lockMap (servers S 1) = Map.empty"
proof -
  have "map_option (\<lambda>S. (length (runs S), quiescent ds_two S))
     (exec_all chaos_server chaos_init ds_two competing (sys_init chaos_init ds_two [''r'', ''r''])) = Some (2, True)"
    by code_simp
  from reliable_scenario[OF _ this] obtain S where S: "reliable chaos_server chaos_init ds_two [''r'', ''r''] S"
    "length (runs S) = 2" "quiescent ds_two S" by (auto simp: competing_def)
  with chaos_no_leaks[OF S(1) ds_two_ok, of 1] show ?thesis by (auto simp: ds_two_def)
qed

end
