(* ===== verification/Driver.thy ===== *)
theory Driver
  imports Schedule System_Invariant
begin

section \<open>Programs that drive a cluster (chaos/chaos.go)\<close>

text \<open>
  The programs of the repository that exercise the package start lock servers as processes, kill
  them and start them again, and use mutexes from several goroutines. This theory gives the
  operations they are written with: the global list \<^verbatim>\<open>servers\<close> of launched processes with the functions
  that kill and launch, and goroutines that sleep, lock, unlock, spawn and select. A goroutine is a
  list of statements; a step of the world is one statement of one goroutine, one action of the
  transition system of \<open>Lock_System\<close>, a process that begins to listen, or the passing of time.

  A request reaches a server only while its process listens. A killed process takes its locks
  along, and also the goroutines and attempts of a client that ran in it. Killing a server that has
  not handled any request loses nothing, so only servers in \<open>used\<close> count as crashed. A mutex belongs to the
  state from the start, because \<open>NewDRWMutex\<close> talks to nobody.
\<close>

subsection \<open>Goroutines of the driver\<close>

text \<open>The last six statements are those a goroutine is in while it waits: for a time, for the
  attempt with a given number, for a channel or a time.\<close>

datatype stmt =
    KillAt nat
  | KillDownTo nat
  | KillLast
  | Launch nat nat
  | LaunchNext nat
  | LaunchUpTo nat
  | LaunchWithLocks "nat list" bool
  | MLock nat string
  | MRLock nat string
  | MUnlock nat
  | MRUnlock nat
  | Sleep duration
  | Go "stmt list"
  | SendCh
  | Select duration "stmt list" "stmt list"
  | WgAdd int
  | WgDone
  | WgWait
  | IfSince duration "stmt list" "stmt list"
  | Passed
  | LogFatal string
  | Until duration
  | Awaiting nat nat string bool
  | SelectUntil duration "stmt list" "stmt list"

record thread =
  proc :: ref
  body :: "stmt list"

datatype outcome = Running | HasPassed | HasFailed string | HasPanicked string

record 's world =
  sys :: "'s sys"
  cmds :: "ref list"
  booting :: "ref set"
  listening :: "ref set"
  used :: "ref set"
  threads :: "thread list"
  owner :: "(ref \<times> nat) list"
  dead :: "nat set"
  signals :: nat
  wait_count :: int
  now :: duration
  outcome :: outcome

text \<open>A server is named by the distance of its port from \<^verbatim>\<open>portStart\<close>; the process of the driver is the first.\<close>

definition driver_proc :: ref where
  "driver_proc = 0"

definition millisecond :: duration where
  "millisecond = 1000000"

definition second :: duration where
  "second = 1000000000"

subsection \<open>Killing and launching\<close>

text \<open>The first entry of \<^verbatim>\<open>servers\<close> is a fake command without a process, so that killing it dereferences nil.\<close>

definition killProcess :: "'s \<Rightarrow> ref \<Rightarrow> 's world \<Rightarrow> 's world" where
  "killProcess init c W =
     (if c = driver_proc then W\<lparr>outcome := HasPanicked ''nil pointer dereference''\<rparr>
      else W\<lparr>sys := (if c \<in> used W
                     then (sys W)\<lparr>servers := (servers (sys W))(c := init), crashed := insert c (crashed (sys W))\<rparr>
                     else sys W),
             booting := booting W - {c}, listening := listening W - {c}, used := used W - {c},
             threads := map (\<lambda>th. if proc th = c then th\<lparr>body := []\<rparr> else th) (threads W),
             dead := dead W \<union> set (map snd (filter (\<lambda>x. fst x = c) (owner W)))\<rparr>)"

definition killAt :: "'s \<Rightarrow> nat \<Rightarrow> 's world \<Rightarrow> 's world" where
  "killAt init k W =
     (if k < length (cmds W) then killProcess init (cmds W ! k) (W\<lparr>cmds := take k (cmds W)\<rparr>)
      else W\<lparr>outcome := HasPanicked ''index out of range''\<rparr>)"

definition killLastServer :: "'s \<Rightarrow> 's world \<Rightarrow> 's world" where
  "killLastServer init W =
     (if cmds W = [] then W\<lparr>outcome := HasPanicked ''index out of range''\<rparr>
      else killProcess init (last (cmds W)) (W\<lparr>cmds := butlast (cmds W)\<rparr>))"

text \<open>A launched process runs \<^verbatim>\<open>main\<close> with a port of its own: it becomes a lock server, and when it is given
  the name of a lock, a goroutine acquires that lock and never releases it.\<close>

definition client_of_child :: "'s sys \<Rightarrow> nat \<Rightarrow> bool \<Rightarrow> stmt list" where
  "client_of_child S j writeLock =
     (let nm = Name (mutexes S ! j)
      in [Sleep (100 * millisecond), if writeLock then MLock j nm else MRLock j nm])"

definition launchProcess :: "ref \<Rightarrow> (nat \<times> bool) option \<Rightarrow> 's world \<Rightarrow> 's world" where
  "launchProcess c client W =
     (let W' = W\<lparr>booting := insert c (booting W), cmds := cmds W @ [c]\<rparr>
      in case client of
           None \<Rightarrow> W'
         | Some (j, writeLock) \<Rightarrow>
             W'\<lparr>threads := threads W @ [\<lparr>proc = c, body = client_of_child (sys W) j writeLock\<rparr>],
                owner := owner W @ [(c, j)]\<rparr>)"

definition launchTestServers :: "nat \<Rightarrow> nat \<Rightarrow> 's world \<Rightarrow> 's world" where
  "launchTestServers start number W =
     fold (\<lambda>p. launchProcess p None) [start..<start + number] W"

definition launchTestServersWithLocks :: "nat \<Rightarrow> nat list \<Rightarrow> bool \<Rightarrow> 's world \<Rightarrow> 's world" where
  "launchTestServersWithLocks start js writeLock W =
     fold (\<lambda>(p, j). launchProcess p (Some (j, writeLock)))
       (zip [start..<start + length js] js) W"

subsection \<open>One statement\<close>

definition set_body :: "nat \<Rightarrow> stmt list \<Rightarrow> 's world \<Rightarrow> 's world" where
  "set_body t b W = W\<lparr>threads := (threads W)[t := (threads W ! t)\<lparr>body := b\<rparr>]\<rparr>"

text \<open>\<open>Lock\<close> and \<open>RLock\<close> start an attempt and wait for it; after a failed one they start the next.\<close>

definition begin_attempt :: "('e, 's) server \<Rightarrow> 's \<Rightarrow> Dsync \<Rightarrow> nat \<Rightarrow> nat \<Rightarrow> string \<Rightarrow> bool \<Rightarrow> stmt list \<Rightarrow> 's world
    \<Rightarrow> 's world option" where
  "begin_attempt srv init ds t j ident rd rest W =
     (case exec srv init ds (Start j ident [] rd) (sys W) of
        None \<Rightarrow> None
      | Some S \<Rightarrow> Some (set_body t (Awaiting (length (runs (sys W))) j ident rd # rest) (W\<lparr>sys := S\<rparr>)))"

definition release_mutex :: "('e, 's) server \<Rightarrow> 's \<Rightarrow> Dsync \<Rightarrow> nat \<Rightarrow> nat \<Rightarrow> bool \<Rightarrow> stmt list \<Rightarrow> 's world \<Rightarrow> 's world option" where
  "release_mutex srv init ds t j rd rest W =
     (if length (mutexes (sys W)) \<le> j then None
      else case exec srv init ds (if rd then UnlockR j else UnlockW j) (sys W) of
             None \<Rightarrow> Some (W\<lparr>outcome := HasPanicked ''unlock of an unlocked mutex''\<rparr>)
           | Some S \<Rightarrow> Some (set_body t rest (W\<lparr>sys := S\<rparr>)))"

fun run_stmt :: "('e, 's) server \<Rightarrow> 's \<Rightarrow> Dsync \<Rightarrow> nat \<Rightarrow> stmt \<Rightarrow> stmt list \<Rightarrow> 's world \<Rightarrow> 's world option" where
  "run_stmt srv init ds t (KillAt k) rest W = Some (killAt init k (set_body t rest W))"
| "run_stmt srv init ds t (KillDownTo m) rest W =
     (if m < length (cmds W) then Some (killAt init (length (cmds W) - 1) W) else Some (set_body t rest W))"
| "run_stmt srv init ds t KillLast rest W = Some (killLastServer init (set_body t rest W))"
| "run_stmt srv init ds t (Launch start number) rest W = Some (launchTestServers start number (set_body t rest W))"
| "run_stmt srv init ds t (LaunchNext number) rest W =
     Some (launchTestServers (length (cmds W)) number (set_body t rest W))"
| "run_stmt srv init ds t (LaunchUpTo m) rest W =
     (if length (cmds W) < m then Some (launchTestServers (length (cmds W)) 1 W) else Some (set_body t rest W))"
| "run_stmt srv init ds t (LaunchWithLocks js writeLock) rest W =
     Some (launchTestServersWithLocks (length (cmds W)) js writeLock (set_body t rest W))"
| "run_stmt srv init ds t (MLock j ident) rest W = begin_attempt srv init ds t j ident False rest W"
| "run_stmt srv init ds t (MRLock j ident) rest W = begin_attempt srv init ds t j ident True rest W"
| "run_stmt srv init ds t (Awaiting p j ident rd) rest W =
     (let r = runs (sys W) ! p in
      if \<not> run_returned r then None
      else if run_quorum r = Some True then Some (set_body t rest W)
      else begin_attempt srv init ds t j ident rd rest W)"
| "run_stmt srv init ds t (MUnlock j) rest W = release_mutex srv init ds t j False rest W"
| "run_stmt srv init ds t (MRUnlock j) rest W = release_mutex srv init ds t j True rest W"
| "run_stmt srv init ds t (Sleep d) rest W = Some (set_body t (Until (now W + d) # rest) W)"
| "run_stmt srv init ds t (Until d) rest W = (if now W < d then None else Some (set_body t rest W))"
| "run_stmt srv init ds t (Go b) rest W =
     Some ((set_body t rest W)\<lparr>threads := threads (set_body t rest W) @ [\<lparr>proc = proc (threads W ! t), body = b\<rparr>]\<rparr>)"
| "run_stmt srv init ds t SendCh rest W = Some ((set_body t rest W)\<lparr>signals := signals W + 1\<rparr>)"
| "run_stmt srv init ds t (Select d b1 b2) rest W = Some (set_body t (SelectUntil (now W + d) b1 b2 # rest) W)"
| "run_stmt srv init ds t (SelectUntil d b1 b2) rest W =
     (if signals W = 0 then None else Some ((set_body t (b1 @ rest) W)\<lparr>signals := signals W - 1\<rparr>))"
| "run_stmt srv init ds t (WgAdd k) rest W = Some ((set_body t rest W)\<lparr>wait_count := wait_count W + k\<rparr>)"
| "run_stmt srv init ds t WgDone rest W = Some ((set_body t rest W)\<lparr>wait_count := wait_count W - 1\<rparr>)"
| "run_stmt srv init ds t WgWait rest W = (if wait_count W = 0 then Some (set_body t rest W) else None)"
| "run_stmt srv init ds t (IfSince d b1 b2) rest W = Some (set_body t ((if now W > d then b1 else b2) @ rest) W)"
| "run_stmt srv init ds t Passed rest W = Some ((set_body t rest W)\<lparr>outcome := HasPassed\<rparr>)"
| "run_stmt srv init ds t (LogFatal msg) rest W = Some (W\<lparr>outcome := HasFailed msg\<rparr>)"

subsection \<open>The steps of the world\<close>

text \<open>The attempt an action belongs to, the node it talks to and what becomes of the message.\<close>

fun action_run :: "'e action \<Rightarrow> nat option" where
  "action_run (Call p k f e) = Some p"
| "action_run (Send p k) = Some p"
| "action_run (Recv p) = Some p"
| "action_run (Timeout p) = Some p"
| "action_run (LoopEnd p) = Some p"
| "action_run (Release p f e) = Some p"
| "action_run (ReleaseEnd p) = Some p"
| "action_run (Decide p) = Some p"
| "action_run (Drain p f e) = Some p"
| "action_run (Return p) = Some p"
| "action_run _ = None"

fun action_target :: "Dsync \<Rightarrow> 's sys \<Rightarrow> 'e action \<Rightarrow> ref option" where
  "action_target ds S (Call p k f e) = (if f = RequestLost then None else Some (restClnts ds ! k))"
| "action_target ds S (Release p f e) =
     (if f = RequestLost then None
      else case run_phase (runs S ! p) of
             Releasing k \<Rightarrow> if isLocked (run_locks (runs S ! p) ! k) then Some (restClnts ds ! k) else None
           | _ \<Rightarrow> None)"
| "action_target ds S (Drain p f e) =
     (if f = RequestLost then None
      else case chan (runs S ! p) of
             g # ch \<Rightarrow> if Granted_isLocked g then Some (restClnts ds ! index g) else None
           | [] \<Rightarrow> None)"
| "action_target ds S (UnlockSend q f e) =
     (let x = releases S ! q in
      if f = RequestLost \<or> \<not> isLocked (rel_locks x ! rel_next x) then None else Some (restClnts ds ! rel_next x))"
| "action_target ds S _ = None"

fun is_unlock_send :: "'e action \<Rightarrow> bool" where
  "is_unlock_send (UnlockSend q f e) = True"
| "is_unlock_send _ = False"

definition action_ok :: "Dsync \<Rightarrow> 's world \<Rightarrow> 'e action \<Rightarrow> bool" where
  "action_ok ds W a \<longleftrightarrow>
     (case action_run a of
        Some p \<Rightarrow> run_dm (runs (sys W) ! p) \<notin> dead W
      | None \<Rightarrow> is_unlock_send a) \<and>
     (case action_target ds (sys W) a of None \<Rightarrow> True | Some c \<Rightarrow> c \<in> listening W)"

datatype 'e event =
    Tick duration
  | Boot ref
  | Net "'e action"
  | Step nat
  | Expire nat

fun world_exec :: "('e, 's) server \<Rightarrow> 's \<Rightarrow> Dsync \<Rightarrow> 'e event \<Rightarrow> 's world \<Rightarrow> 's world option" where
  "world_exec srv init ds (Tick d) W = (if outcome W = Running \<and> 0 \<le> d then Some (W\<lparr>now := now W + d\<rparr>) else None)"
| "world_exec srv init ds (Boot c) W =
     (if outcome W = Running \<and> c \<in> booting W
      then Some (W\<lparr>booting := booting W - {c}, listening := insert c (listening W)\<rparr>) else None)"
| "world_exec srv init ds (Net a) W =
     (if outcome W = Running \<and> action_ok ds W a
      then case exec srv init ds a (sys W) of
             None \<Rightarrow> None
           | Some S \<Rightarrow> Some (W\<lparr>sys := S, used := (case action_target ds (sys W) a of None \<Rightarrow> used W | Some c \<Rightarrow> insert c (used W))\<rparr>)
      else None)"
| "world_exec srv init ds (Step t) W =
     (if outcome W = Running \<and> t < length (threads W)
      then case body (threads W ! t) of [] \<Rightarrow> None | s # rest \<Rightarrow> run_stmt srv init ds t s rest W
      else None)"
| "world_exec srv init ds (Expire t) W =
     (if outcome W = Running \<and> t < length (threads W)
      then case body (threads W ! t) of
             SelectUntil d b1 b2 # rest \<Rightarrow> if now W < d then None else Some (set_body t (b2 @ rest) W)
           | _ \<Rightarrow> None
      else None)"

fun world_all :: "('e, 's) server \<Rightarrow> 's \<Rightarrow> Dsync \<Rightarrow> 'e event list \<Rightarrow> 's world \<Rightarrow> 's world option" where
  "world_all srv init ds [] W = Some W"
| "world_all srv init ds (a # as) W =
     (case world_exec srv init ds a W of None \<Rightarrow> None | Some W' \<Rightarrow> world_all srv init ds as W')"

text \<open>The world in which a program starts: \<^verbatim>\<open>main\<close> has started its own server and launched the others,
  and gives them time to start.\<close>

definition world_init :: "'s \<Rightarrow> Dsync \<Rightarrow> string list \<Rightarrow> stmt list \<Rightarrow> 's world" where
  "world_init init ds names prog =
     \<lparr>sys = sys_init init ds names, cmds = restClnts ds, booting = {}, listening = set (restClnts ds), used = {},
      threads = [\<lparr>proc = driver_proc, body = prog\<rparr>], owner = [], dead = {}, signals = 0, wait_count = 0, now = 0,
      outcome = Running\<rparr>"

inductive world_reach :: "('e, 's) server \<Rightarrow> 's \<Rightarrow> Dsync \<Rightarrow> string list \<Rightarrow> stmt list \<Rightarrow> 's world \<Rightarrow> bool"
  for srv init ds names prog where
  initial: "world_reach srv init ds names prog (world_init init ds names prog)"
| step: "world_reach srv init ds names prog W \<Longrightarrow> world_exec srv init ds a W = Some W' \<Longrightarrow>
    world_reach srv init ds names prog W'"

subsection \<open>The world over the transition system\<close>

lemma sys_set_body [simp]: "sys (set_body t b W) = sys W"
  and used_set_body [simp]: "used (set_body t b W) = used W"
  and listening_set_body [simp]: "listening (set_body t b W) = listening W"
  and cmds_set_body [simp]: "cmds (set_body t b W) = cmds W"
  and dead_set_body [simp]: "dead (set_body t b W) = dead W"
  and owner_set_body [simp]: "owner (set_body t b W) = owner W"
  and outcome_set_body [simp]: "outcome (set_body t b W) = outcome W"
  and signals_set_body [simp]: "signals (set_body t b W) = signals W"
  and booting_set_body [simp]: "booting (set_body t b W) = booting W"
  and now_set_body [simp]: "now (set_body t b W) = now W"
  by (simp_all add: set_body_def)

lemma launchProcess_same [simp]:
  "sys (launchProcess c cl W) = sys W" "used (launchProcess c cl W) = used W"
  "listening (launchProcess c cl W) = listening W" "dead (launchProcess c cl W) = dead W"
  "outcome (launchProcess c cl W) = outcome W" "signals (launchProcess c cl W) = signals W"
  "now (launchProcess c cl W) = now W"
  by (simp_all add: launchProcess_def Let_def split: option.splits)

lemma launch_fold_same:
  "sys (fold (\<lambda>x. launchProcess (f x) (g x)) xs W) = sys W"
  "used (fold (\<lambda>x. launchProcess (f x) (g x)) xs W) = used W"
  "listening (fold (\<lambda>x. launchProcess (f x) (g x)) xs W) = listening W"
  "dead (fold (\<lambda>x. launchProcess (f x) (g x)) xs W) = dead W"
  "outcome (fold (\<lambda>x. launchProcess (f x) (g x)) xs W) = outcome W"
  "signals (fold (\<lambda>x. launchProcess (f x) (g x)) xs W) = signals W"
  "now (fold (\<lambda>x. launchProcess (f x) (g x)) xs W) = now W"
  by (induction xs arbitrary: W) simp_all

lemma launch_same [simp]:
  "sys (launchTestServers k m W) = sys W" "used (launchTestServers k m W) = used W"
  "listening (launchTestServers k m W) = listening W" "dead (launchTestServers k m W) = dead W"
  "outcome (launchTestServers k m W) = outcome W" "signals (launchTestServers k m W) = signals W"
  "now (launchTestServers k m W) = now W"
  by (simp_all add: launchTestServers_def launch_fold_same[where f = "\<lambda>p. p" and g = "\<lambda>_. None"])

lemma launch_locks_same [simp]:
  "sys (launchTestServersWithLocks k js w W) = sys W" "used (launchTestServersWithLocks k js w W) = used W"
  "listening (launchTestServersWithLocks k js w W) = listening W" "dead (launchTestServersWithLocks k js w W) = dead W"
  "outcome (launchTestServersWithLocks k js w W) = outcome W" "signals (launchTestServersWithLocks k js w W) = signals W"
  "now (launchTestServersWithLocks k js w W) = now W"
  by (simp_all add: launchTestServersWithLocks_def case_prod_unfold
      launch_fold_same[where f = fst and g = "\<lambda>x. Some (snd x, w)"])

text \<open>An action of an attempt or of an unlock talks to at most one server.\<close>

lemma action_ok_internal: "action_ok ds W a \<Longrightarrow> action_run a \<noteq> None \<or> is_unlock_send a"
  by (auto simp: action_ok_def split: option.splits)

lemma exec_other_servers:
  assumes "exec srv init ds a S = Some S'" and "action_run a \<noteq> None \<or> is_unlock_send a" and "action_target ds S a \<noteq> Some c"
  shows "servers S' c = servers S c"
  using assms by (cases a) (auto simp: exec_defs exec_return_def Let_def rpc_def split: exec_splits fault.splits)

lemma exec_crashed_same:
  assumes "exec srv init ds a S = Some S'" and "\<And>c. a \<noteq> Crash c"
  shows "crashed S' = crashed S"
  using assms by (cases a) (auto simp: exec_defs exec_return_def Let_def split: exec_splits)

lemma exec_target_node:
  assumes "exec srv init ds a S = Some S'" and "action_target ds S a = Some c" and "sys_wf ds names S" and "dsync_ok ds"
  shows "c \<in> set (restClnts ds)"
proof (cases a)
  case (Drain p f e)
  then have "p < length (runs S)" using assms(1) by (auto simp: exec_defs Let_def split: exec_splits)
  with sys_wf_run[OF assms(3)] have "\<forall>g \<in> set (chan (runs S ! p)). index g < length (restClnts ds)" by (simp add: run_wf_def)
  with assms(2) Drain show ?thesis by (auto split: if_splits list.splits)
qed (use assms(1,2) dsync_okD(1)[OF assms(4)] in \<open>auto simp: exec_defs Let_def split: exec_splits\<close>)

subsection \<open>Every run of the world is a run of the transition system\<close>

definition world_ok :: "'s \<Rightarrow> Dsync \<Rightarrow> 's world \<Rightarrow> bool" where
  "world_ok init ds W \<longleftrightarrow> used W \<subseteq> set (restClnts ds) \<and> (\<forall>c. c \<notin> used W \<longrightarrow> servers (sys W) c = init)"

text \<open>What a statement may do to the transition system: nothing, the start of an attempt, the
  critical section of an unlock, or the crash of a server.\<close>

inductive stmt_effect :: "'s \<Rightarrow> Dsync \<Rightarrow> 's world \<Rightarrow> 's world \<Rightarrow> bool" for init ds W W' where
  same: "sys W' = sys W \<Longrightarrow> used W' = used W \<Longrightarrow> stmt_effect init ds W W'"
| started: "j < length (mutexes (sys W)) \<Longrightarrow>
    sys W' = (sys W)\<lparr>runs := runs (sys W) @ [start_run ds j (Name (mutexes (sys W) ! j)) ident [] rd]\<rparr> \<Longrightarrow>
    used W' = used W \<Longrightarrow> stmt_effect init ds W W'"
| unlocked: "exec_unlock rd j (sys W) = Some (sys W') \<Longrightarrow> used W' = used W \<Longrightarrow> stmt_effect init ds W W'"
| killed: "c \<in> used W \<Longrightarrow>
    sys W' = (sys W)\<lparr>servers := (servers (sys W))(c := init), crashed := insert c (crashed (sys W))\<rparr> \<Longrightarrow>
    used W' = used W - {c} \<Longrightarrow> stmt_effect init ds W W'"

lemma begin_attempt_effect:
  "begin_attempt srv init ds t j ident rd rest W = Some W' \<Longrightarrow> stmt_effect init ds W W'"
  by (auto simp: begin_attempt_def split: if_splits intro: stmt_effect.started)

lemma release_mutex_effect:
  "release_mutex srv init ds t j rd rest W = Some W' \<Longrightarrow> stmt_effect init ds W W'"
  by (auto simp: release_mutex_def split: if_splits option.splits intro: stmt_effect.unlocked stmt_effect.same)

lemma killProcess_effect:
  assumes "sys W1 = sys W" and "used W1 = used W"
  shows "stmt_effect init ds W (killProcess init c W1)"
  using assms stmt_effect.killed[of c W "killProcess init c W1"] stmt_effect.same[of "killProcess init c W1" W]
  by (auto simp: killProcess_def)

lemma kill_effect:
  assumes "sys W1 = sys W" and "used W1 = used W"
  shows "stmt_effect init ds W (killAt init k W1)" and "stmt_effect init ds W (killLastServer init W1)"
  using assms killProcess_effect[of "W1\<lparr>cmds := ks\<rparr>" W for ks]
  by (simp_all add: killAt_def killLastServer_def stmt_effect.same)

lemma run_stmt_effect:
  assumes "run_stmt srv init ds t s rest W = Some W'"
  shows "stmt_effect init ds W W'"
proof (cases "\<exists>k. s = KillAt k \<or> s = KillDownTo k \<or> s = KillLast")
  case True
  with assms show ?thesis by (auto split: if_splits simp: kill_effect stmt_effect.same)
next
  case False
  with assms show ?thesis
    by (cases s) (auto simp: Let_def stmt_effect.same split: if_splits intro: begin_attempt_effect release_mutex_effect)
qed

lemma effect_step:
  assumes "stmt_effect init ds W W'" and "used W \<subseteq> set (restClnts ds)"
  shows "sys W' = sys W \<or> sys_step srv init ds (sys W) (sys W')"
  using assms
proof cases
  case (started j ident rd)
  then show ?thesis by (metis sys_step.start)
next
  case (unlocked rd j)
  then have "exec srv init ds (if rd then UnlockR j else UnlockW j) (sys W) = Some (sys W')" by (cases rd) simp_all
  then show ?thesis by (rule disjI2[OF exec_sound])
next
  case (killed c)
  then show ?thesis using sys_step.crash[of c ds srv init "sys W"] assms(2) by auto
qed simp

lemma effect_ok:
  assumes "stmt_effect init ds W W'" and "world_ok init ds W"
  shows "world_ok init ds W'"
  using assms
proof cases
  case (unlocked rd j)
  then have "servers (sys W') = servers (sys W)"
    by (auto simp: exec_unlock_def Let_def split: if_splits sum.splits dest!: sym[of _ "sys W'"])
  with unlocked assms(2) show ?thesis by (simp add: world_ok_def)
qed (auto simp: world_ok_def)

lemma world_step:
  assumes "world_exec srv init ds a W = Some W'" and "world_ok init ds W" and "sys_wf ds names (sys W)" and "dsync_ok ds"
  shows "(sys W' = sys W \<or> sys_step srv init ds (sys W) (sys W')) \<and> world_ok init ds W'"
proof -
  have used: "used W \<subseteq> set (restClnts ds)" using assms(2) by (simp add: world_ok_def)
  have eff: ?thesis if "stmt_effect init ds W W'" using effect_step[OF that used] effect_ok[OF that assms(2)] by blast
  show ?thesis
  proof (cases "\<exists>b. a = Net b")
    case True
    then obtain b where Net: "a = Net b" ..
    then have b: "action_ok ds W b" "exec srv init ds b (sys W) = Some (sys W')"
      and u: "used W' = (case action_target ds (sys W) b of None \<Rightarrow> used W | Some c \<Rightarrow> insert c (used W))"
      using assms(1) by (auto split: if_splits option.splits)
    have "servers (sys W') c = init" if "c \<notin> used W'" for c
      using exec_other_servers[OF b(2), of c] b(1) that u assms(2)
      by (auto simp: action_ok_def world_ok_def split: option.splits)
    moreover have "used W' \<subseteq> set (restClnts ds)"
      using u used exec_target_node[OF b(2) _ assms(3,4)] by (auto split: option.splits)
    ultimately show ?thesis using exec_sound[OF b(2)] by (auto simp: world_ok_def)
  next
    case False
    with assms(1) have "stmt_effect init ds W W'"
      by (cases a) (auto simp: stmt_effect.same split: if_splits list.splits stmt.splits intro: run_stmt_effect)
    then show ?thesis by (rule eff)
  qed
qed

theorem world_reach_sys:
  assumes "world_reach srv init ds names prog W" and "dsync_ok ds"
  shows "reachable srv init ds names (sys W) \<and> world_ok init ds W"
  using assms(1)
proof induction
  case initial
  then show ?case by (simp add: world_init_def world_ok_def sys_init_def reachable.initial[of _ init, unfolded sys_init_def])
next
  case (step W a W')
  then show ?case using world_step[OF step(2) _ reachable_wf[OF _ assms(2)] assms(2)] by (metis reachable.step)
qed

text \<open>The last state of a sequence of events is reachable.\<close>

lemma world_scenario:
  assumes "map_option f (world_all srv init ds as (world_init init ds names prog)) = Some v"
  shows "\<exists>W. world_reach srv init ds names prog W \<and> f W = v"
proof -
  have "world_reach srv init ds names prog W'" if "world_all srv init ds as W = Some W'" "world_reach srv init ds names prog W" for W W'
    using that by (induction as arbitrary: W) (auto split: option.splits intro: world_reach.step)
  with assms show ?thesis by (auto simp: map_option_case split: option.splits intro: world_reach.initial)
qed

end
