(* ===== verification/Driver_Frame.thy ===== *)
theory Driver_Frame
  imports Driver Rw_Spec
begin

section \<open>What the steps of a driver leave alone\<close>

text \<open>
  Frame lemmas for the proofs about programs of \<open>Driver\<close>: statements whose shape is kept by all
  steps, as a locale; what an action of an attempt does to the attempts and the mutexes; and the
  attempts that can only have been granted by a given set of servers.
\<close>

subsection \<open>The kinds of steps\<close>

lemma world_exec_cases:
  assumes "world_exec srv init ds a W = Some W'"
  obtains (tick) d where "W' = W\<lparr>now := now W + d\<rparr>" and "0 \<le> d"
    | (boot) c where "W' = W\<lparr>booting := booting W - {c}, listening := insert c (listening W)\<rparr>" and "c \<in> booting W"
    | (net) b S u where "W' = W\<lparr>sys := S, used := u\<rparr>" and "action_ok ds W b" and "exec srv init ds b (sys W) = Some S"
        and "outcome W = Running"
    | (step) t s rest where "t < length (threads W)" and "body (threads W ! t) = s # rest"
        and "run_stmt srv init ds t s rest W = Some W'" and "outcome W = Running"
    | (expire) t d b1 b2 rest where "t < length (threads W)" and "body (threads W ! t) = SelectUntil d b1 b2 # rest"
        and "W' = set_body t (b2 @ rest) W" and "outcome W = Running"
proof (cases a)
  case (Net b)
  then obtain S where "action_ok ds W b" "exec srv init ds b (sys W) = Some S" "outcome W = Running"
    "W' = W\<lparr>sys := S, used := (case action_target ds (sys W) b of None \<Rightarrow> used W | Some c \<Rightarrow> insert c (used W))\<rparr>"
    using assms by (auto simp del: option.case split: if_splits option.split_asm(1))
  then show ?thesis using that(3) by blast
next
  case (Step t)
  then show ?thesis using assms that(4) by (auto split: if_splits list.splits)
next
  case (Expire t)
  then show ?thesis using assms that(5) by (auto split: if_splits list.splits stmt.splits)
next
  case (Tick d)
  then show ?thesis using assms that(1)[of d] by (simp split: if_splits)
next
  case (Boot c)
  then show ?thesis using assms that(2)[of c] by (simp split: if_splits)
qed

lemma net_crashed:
  "action_ok ds W b \<Longrightarrow> exec srv init ds b (sys W) = Some S' \<Longrightarrow> crashed S' = crashed (sys W)"
  by (rule exec_crashed_same) (auto dest: action_ok_internal)

lemma net_needs_runs:
  assumes "action_ok ds W b" and "exec srv init ds b (sys W) = Some S'"
  shows "runs (sys W) \<noteq> [] \<or> releases (sys W) \<noteq> []"
  using action_ok_internal[OF assms(1)] assms(2)
  by (cases b) (auto simp: exec_defs exec_return_def Let_def split: if_splits)

lemma net_runs:
  assumes "action_ok ds W b" and "exec srv init ds b (sys W) = Some S"
  shows "length (runs S) = length (runs (sys W)) \<and>
    (\<forall>p < length (runs S). run_dm (runs S ! p) = run_dm (runs (sys W) ! p) \<and>
       run_read (runs S ! p) = run_read (runs (sys W) ! p) \<and>
       (run_quorum (runs S ! p) \<noteq> run_quorum (runs (sys W) ! p) \<longrightarrow> run_returned (runs S ! p) = run_returned (runs (sys W) ! p) \<and>
          run_phase (runs (sys W) ! p) = Deciding))"
  using assms(2) action_ok_internal[OF assms(1)]
  by (cases b) (auto simp: exec_defs exec_return_def step_defs Let_def nth_list_update split: exec_splits)

lemma start_run_simps [simp]:
  "run_dm (start_run ds j nm ident source rd) = j" "run_read (start_run ds j nm ident source rd) = rd"
  "\<not> run_returned (start_run ds j nm ident source rd)" "run_quorum (start_run ds j nm ident source rd) = None"
  by (simp_all add: start_run_def)

lemma nth_update_if: "k < length xs \<Longrightarrow> xs[i := x] ! k = (if i = k then x else xs ! k)"
  by (metis nth_list_update_eq nth_list_update_neq)

lemma net_not_return:
  assumes "action_ok ds W b" and "exec srv init ds b (sys W) = Some S" and "\<And>p. b \<noteq> Return p"
  shows "mutexes S = mutexes (sys W) \<and> (\<forall>p < length (runs S). run_returned (runs S ! p) = run_returned (runs (sys W) ! p))"
  using assms action_ok_internal[OF assms(1)]
  by (cases b) (auto simp: exec_defs step_defs Let_def nth_list_update split: exec_splits)

text \<open>The quorum of an attempt that has returned is settled.\<close>

lemma net_quorum_returned:
  assumes wf: "sys_wf ds names (sys W)" and b: "action_ok ds W b" "exec srv init ds b (sys W) = Some S"
    and p: "p < length (runs S)" "run_returned (runs S ! p)" and "\<And>p. b \<noteq> Return p"
  shows "run_quorum (runs S ! p) = run_quorum (runs (sys W) ! p)"
proof (rule ccontr)
  assume "run_quorum (runs S ! p) \<noteq> run_quorum (runs (sys W) ! p)"
  with net_runs[OF b] p have "run_phase (runs (sys W) ! p) = Deciding" "p < length (runs (sys W))" by auto
  moreover have "run_returned (runs (sys W) ! p)" using net_not_return[OF b assms(6)] p by simp
  ultimately show False using sys_wf_run[OF wf, of p] by (auto simp: run_wf_def)
qed

text \<open>A goroutine waits for an attempt.\<close>

definition awaits :: "stmt list \<Rightarrow> nat \<Rightarrow> bool" where
  "awaits b p \<longleftrightarrow> (\<exists>j ident rd rest. b = Awaiting p j ident rd # rest)"

text \<open>An invariant of a program: it holds at the start and every kind of step keeps it.\<close>

locale driver_invariant =
  fixes srv :: "('e, 's) server" and init :: 's and ds :: Dsync and names :: "string list" and prog :: "stmt list"
    and I :: "'s world \<Rightarrow> bool"
  assumes initially: "I (world_init init ds names prog)"
    and tick: "I W \<Longrightarrow> 0 \<le> d \<Longrightarrow> I (W\<lparr>now := now W + d\<rparr>)"
    and boot: "I W \<Longrightarrow> c \<in> booting W \<Longrightarrow> I (W\<lparr>booting := booting W - {c}, listening := insert c (listening W)\<rparr>)"
    and net: "world_reach srv init ds names prog W \<Longrightarrow> I W \<Longrightarrow> action_ok ds W b \<Longrightarrow> exec srv init ds b (sys W) = Some S \<Longrightarrow>
      I (W\<lparr>sys := S, used := u\<rparr>)"
    and stmt: "world_reach srv init ds names prog W \<Longrightarrow> I W \<Longrightarrow> t < length (threads W) \<Longrightarrow>
      body (threads W ! t) = s # rest \<Longrightarrow> run_stmt srv init ds t s rest W = Some W' \<Longrightarrow> I W'"
    and expire: "I W \<Longrightarrow> t < length (threads W) \<Longrightarrow> body (threads W ! t) = SelectUntil d b1 b2 # rest \<Longrightarrow>
      I (set_body t (b2 @ rest) W)"
begin

lemma reach: "world_reach srv init ds names prog W \<Longrightarrow> I W"
proof (induction rule: world_reach.induct)
  case (step W a W')
  note W = step(1,3)
  from step(2) show ?case
    using tick[OF W(2)] boot[OF W(2)] net[OF W] stmt[OF W] expire[OF W(2)] by (cases rule: world_exec_cases) simp_all
qed (rule initially)

end

subsection \<open>Properties of statements that the goroutines keep\<close>

locale stmt_shape =
  fixes Q :: "stmt \<Rightarrow> bool"
  assumes Go_ok: "Q (Go b) \<Longrightarrow> list_all Q b"
    and Select_ok: "Q (Select d b1 b2) \<Longrightarrow> Q (SelectUntil d' b1 b2)"
    and SelectUntil_ok: "Q (SelectUntil d b1 b2) \<Longrightarrow> list_all Q b1 \<and> list_all Q b2"
    and IfSince_ok: "Q (IfSince d b1 b2) \<Longrightarrow> list_all Q b1 \<and> list_all Q b2"
    and Sleep_ok: "Q (Sleep d) \<Longrightarrow> Q (Until d')"
    and MLock_ok: "Q (MLock j ident) \<Longrightarrow> Q (Awaiting p j ident False)"
    and MRLock_ok: "Q (MRLock j ident) \<Longrightarrow> Q (Awaiting p j ident True)"
    and Awaiting_ok: "Q (Awaiting p j ident rd) \<Longrightarrow> Q (Awaiting p' j ident rd)"
    and Launch_ok: "Q (LaunchWithLocks js w) \<Longrightarrow> j \<in> set js \<Longrightarrow> Q (Sleep d) \<and> Q (if w then MLock j nm else MRLock j nm)"
begin

definition shaped :: "'s world \<Rightarrow> bool" where
  "shaped W \<longleftrightarrow> (\<forall>th \<in> set (threads W). list_all Q (body th))"

lemma shaped_set_body:
  assumes "shaped W" and "list_all Q b"
  shows "shaped (set_body t b W)"
  using assms ball_set_update[of "threads W" "\<lambda>th. list_all Q (body th)" "(threads W ! t)\<lparr>body := b\<rparr>" t]
  by (simp add: shaped_def set_body_def)

lemma shaped_other [simp]:
  "shaped (W\<lparr>sys := S\<rparr>) = shaped W" "shaped (W\<lparr>now := x\<rparr>) = shaped W" "shaped (W\<lparr>outcome := y\<rparr>) = shaped W"
  "shaped (W\<lparr>cmds := z\<rparr>) = shaped W" "shaped (W\<lparr>signals := m\<rparr>) = shaped W" "shaped (W\<lparr>wait_count := i\<rparr>) = shaped W"
  by (simp_all add: shaped_def)

lemma shaped_kill: "shaped W \<Longrightarrow> shaped (killProcess init c W)"
  by (auto simp: shaped_def killProcess_def)

lemma shaped_launchProcess:
  "shaped W \<Longrightarrow> shaped (launchProcess c None W)"
  "shaped W \<Longrightarrow> Q (LaunchWithLocks js w) \<Longrightarrow> j \<in> set js \<Longrightarrow> shaped (launchProcess c (Some (j, w)) W)"
  using Launch_ok[of js w j] by (auto simp: shaped_def launchProcess_def client_of_child_def Let_def)

lemma shaped_launch: "shaped W \<Longrightarrow> shaped (launchTestServers k m W)"
proof -
  have "shaped W \<Longrightarrow> shaped (fold (\<lambda>p. launchProcess p None) ps W)" for ps
    by (induction ps arbitrary: W) (simp_all add: shaped_launchProcess)
  then show "shaped W \<Longrightarrow> shaped (launchTestServers k m W)" by (simp add: launchTestServers_def)
qed

lemma shaped_launch_locks:
  assumes "shaped W" and "Q (LaunchWithLocks js w)"
  shows "shaped (launchTestServersWithLocks k js w W)"
proof -
  have "snd ` set xs \<subseteq> set js \<Longrightarrow> shaped W \<Longrightarrow> shaped (fold (\<lambda>(p, j). launchProcess p (Some (j, w))) xs W)" for xs
    by (induction xs arbitrary: W) (auto simp: shaped_launchProcess(2)[OF _ assms(2)])
  moreover have "snd ` set (zip [k..<k + length js] js) \<subseteq> set js" by (auto dest: set_zip_rightD)
  ultimately show ?thesis using assms(1) by (simp add: launchTestServersWithLocks_def)
qed

lemma run_stmt_shaped:
  assumes "run_stmt srv init ds t s rest W = Some W'" and "shaped W" and "Q s" and "list_all Q rest"
  shows "shaped W'"
proof -
  have b: "shaped (set_body t b W)" if "list_all Q b" for b using shaped_set_body[OF assms(2) that] .
  have att: "shaped W'" if "begin_attempt srv init ds t j ident rd rest W = Some W'" "Q (Awaiting (length (runs (sys W))) j ident rd)" for j ident rd
    using that assms by (auto simp: begin_attempt_def split: if_splits intro!: shaped_set_body)
  have release: "shaped W'" if "release_mutex srv init ds t j rd rest W = Some W'" for j rd
    using that assms by (auto simp: release_mutex_def split: if_splits option.splits intro!: shaped_set_body)
  show ?thesis
  proof (cases s)
    case (Go b')
    then have "W' = (set_body t rest W)\<lparr>threads := threads (set_body t rest W) @ [\<lparr>proc = proc (threads W ! t), body = b'\<rparr>]\<rparr>"
      using assms(1) by simp
    with b[OF assms(4)] Go_ok[of b'] Go assms(3) show ?thesis by (simp add: shaped_def)
  next
    case (LaunchWithLocks js w)
    with assms b[OF assms(4)] show ?thesis by (auto intro!: shaped_launch_locks)
  next
    case (Awaiting p j ident rd)
    with assms b[OF assms(4)] att Awaiting_ok show ?thesis by (auto simp: Let_def split: if_splits)
  qed (use assms b att release in \<open>auto simp: killAt_def killLastServer_def MLock_ok MRLock_ok Sleep_ok Select_ok
     dest: SelectUntil_ok IfSince_ok split: if_splits intro!: shaped_kill shaped_launch\<close>)
qed

lemma world_exec_shaped:
  assumes "world_exec srv init ds a W = Some W'" and "shaped W"
  shows "shaped W'"
  using assms(1)
proof (cases rule: world_exec_cases)
  case (net b S u)
  then show ?thesis using assms(2) by (simp add: shaped_def)
next
  case (step t s rest)
  moreover from this assms(2) have "list_all Q (s # rest)" by (metis nth_mem shaped_def)
  ultimately show ?thesis using run_stmt_shaped assms(2) by auto
next
  case (expire t d b1 b2 rest)
  then have "list_all Q (SelectUntil d b1 b2 # rest)" using assms(2) by (metis nth_mem shaped_def)
  with expire(3) SelectUntil_ok[of d b1 b2] assms(2) show ?thesis by (auto intro!: shaped_set_body)
qed (use assms(2) in \<open>auto simp: shaped_def\<close>)

end

subsection \<open>Programs without kills\<close>

fun killfree :: "stmt \<Rightarrow> bool" where
  "killfree (KillAt k) = False"
| "killfree (KillDownTo k) = False"
| "killfree KillLast = False"
| "killfree (Go b) = list_all killfree b"
| "killfree (Select d b1 b2) = (list_all killfree b1 \<and> list_all killfree b2)"
| "killfree (SelectUntil d b1 b2) = (list_all killfree b1 \<and> list_all killfree b2)"
| "killfree (IfSince d b1 b2) = (list_all killfree b1 \<and> list_all killfree b2)"
| "killfree _ = True"

interpretation killfree: stmt_shape killfree
  by unfold_locales auto

lemma run_stmt_crashed:
  assumes "run_stmt srv init ds t s rest W = Some W'" and "killfree s"
  shows "crashed (sys W') = crashed (sys W)"
  using assms
  by (cases s) (auto simp: begin_attempt_def release_mutex_def exec_unlock_def Let_def split: if_splits option.splits sum.splits)

lemma killfree_crashed:
  assumes "world_exec srv init ds a W = Some W'" and "killfree.shaped W"
  shows "crashed (sys W') = crashed (sys W)"
  using assms(1)
proof (cases rule: world_exec_cases)
  case (net b S u)
  then show ?thesis using net_crashed by simp
next
  case (step t s rest)
  then have "list_all killfree (s # rest)" using assms(2) by (metis nth_mem killfree.shaped_def)
  then show ?thesis using step(3) by (simp add: run_stmt_crashed)
qed simp_all

end
