(* ===== verification/Chaos_Scenarios.thy ===== *)
theory Chaos_Scenarios
  imports Driver_Frame Mutual_Exclusion
begin

section \<open>The scenarios of the chaos program (chaos/chaos.go)\<close>

text \<open>
  The tests of \<^verbatim>\<open>chaos/chaos.go\<close> as programs of \<open>Driver\<close>, one definition per test with its statements in
  order. The mutexes of a test are numbered; \<open>names\<close> gives their resources. Each test is taken on a
  cluster as \<^verbatim>\<open>main\<close> starts it, at time zero. Log messages and the wait group of \<^verbatim>\<open>main\<close> are left out. A loop that
  launches one server at a time until \<^verbatim>\<open>n\<close> run is the statement \<open>LaunchUpTo\<close>.
\<close>

definition chaos_n :: nat where
  "chaos_n = 4"

definition chaos_clients :: "ref list" where
  "chaos_clients = [0..<chaos_n]"

lemma New_chaos_clients: "New chaos_clients = Inr ds_four"
  by (simp add: New_Inr_iff chaos_clients_def chaos_n_def ds_four_def upt_conv_Cons)

subsection \<open>The tests\<close>

definition testNotEnoughServersForQuorum :: "stmt list" where
  "testNotEnoughServersForQuorum =
     [KillDownTo (chaos_n div 2),
      Go [Sleep (7 * second), Launch (chaos_n div 2) 1],
      MLock 0 ''test'',
      Sleep (2 * second),
      KillAt (chaos_n div 2),
      MUnlock 0,
      Go [Sleep (5 * second), Launch (chaos_n div 2) 1],
      MLock 0 ''test'',
      MUnlock 0,
      LaunchUpTo chaos_n,
      Passed]"

definition testServerGoingDown :: "stmt list" where
  "testServerGoingDown =
     [MLock 0 ''test'',
      Sleep (100 * millisecond),
      MUnlock 0,
      KillDownTo (chaos_n div 2),
      Go [Sleep (5 * second), LaunchUpTo chaos_n],
      MLock 0 ''test'',
      MUnlock 0,
      Passed]"

definition testSingleServerOverQuorumDownDuringLock :: "stmt list" where
  "testSingleServerOverQuorumDownDuringLock =
     [KillDownTo (chaos_n div 2 + 1),
      MLock 0 ''test'',
      KillAt (chaos_n div 2),
      Go [Sleep (2 * second), LaunchUpTo chaos_n, Sleep (100 * millisecond), Sleep (6 * second), MUnlock 0],
      MLock 1 ''test'',
      MUnlock 1,
      Passed]"

definition testMultipleServersOverQuorumDownDuringLockKnownError :: "stmt list" where
  "testMultipleServersOverQuorumDownDuringLockKnownError =
     [MLock 0 ''test'',
      KillDownTo (chaos_n - (chaos_n div 2 + 1)),
      Go [Sleep (2 * second), LaunchUpTo chaos_n, Sleep (100 * millisecond), Sleep (5 * second), MUnlock 0],
      MLock 1 ''test'',
      Sleep (6 * second),
      MUnlock 1,
      Passed]"

text \<open>The end that the tests on stale locks share: a goroutine tries to lock, and the test waits for it
  or for a timeout.\<close>

definition lock_in_goroutine :: "nat \<Rightarrow> stmt list" where
  "lock_in_goroutine j = [MLock j ''test'', SendCh]"

definition stale_lock_select :: "nat \<Rightarrow> bool \<Rightarrow> stmt" where
  "stale_lock_select j beforeMaintenanceKicksIn =
     Select (if \<not> beforeMaintenanceKicksIn then 60 * second else 2 * second)
       ((if beforeMaintenanceKicksIn then [LogFatal ''Acquired lock -- SHOULD NOT HAPPEN''] else []) @
        [MUnlock j, Sleep (250 * millisecond)])
       (if beforeMaintenanceKicksIn then [] else [LogFatal ''Timed out -- SHOULD NOT HAPPEN''])"

definition testSingleStaleLock :: "bool \<Rightarrow> stmt list" where
  "testSingleStaleLock beforeMaintenanceKicksIn =
     [Sleep (500 * millisecond),
      KillLast,
      LaunchWithLocks [0] True,
      Sleep (500 * millisecond),
      KillDownTo 1,
      Sleep (500 * millisecond),
      LaunchUpTo chaos_n,
      Sleep (500 * millisecond),
      Go (lock_in_goroutine 1),
      stale_lock_select 1 beforeMaintenanceKicksIn,
      Passed]"

definition testMultipleStaleLocks :: "bool \<Rightarrow> stmt list" where
  "testMultipleStaleLocks beforeMaintenanceKicksIn =
     [Sleep (500 * millisecond),
      KillLast,
      LaunchWithLocks [0] True,
      Sleep (500 * millisecond),
      KillDownTo (chaos_n div 2),
      Sleep (500 * millisecond),
      LaunchUpTo chaos_n,
      Sleep (500 * millisecond),
      Go (lock_in_goroutine 1),
      stale_lock_select 1 beforeMaintenanceKicksIn,
      Passed]"

definition crashed_client_select :: "nat \<Rightarrow> stmt" where
  "crashed_client_select j =
     Select (60 * second) [MUnlock j, Sleep second] [LogFatal ''Timed out -- SHOULD NOT HAPPEN'']"

definition testClientThatHasLockCrashes :: "stmt list" where
  "testClientThatHasLockCrashes =
     [Sleep (500 * millisecond),
      KillLast,
      LaunchWithLocks [0] True,
      Sleep (3 * second),
      KillLast,
      Sleep (10 * second),
      LaunchNext 1,
      Go (lock_in_goroutine 1),
      crashed_client_select 1,
      Passed]"

definition testTwoClientsThatHaveReadLocksCrash :: "stmt list" where
  "testTwoClientsThatHaveReadLocksCrash =
     [Sleep (500 * millisecond),
      KillLast, KillLast,
      LaunchWithLocks [0, 1] False,
      Sleep (3 * second),
      KillLast, KillLast,
      Sleep (10 * second),
      LaunchNext 2,
      Go (lock_in_goroutine 2),
      crashed_client_select 2,
      Passed]"

subsection \<open>Schedules\<close>

text \<open>All actions of an attempt whose requests reach the nodes in \<open>ks\<close>, up to the return of one that is granted.\<close>

definition ask_nodes :: "nat \<Rightarrow> nat list \<Rightarrow> 'e \<Rightarrow> 'e event list" where
  "ask_nodes p ks e =
     map (\<lambda>k. Net (Call p k (if k \<in> set ks then Delivered else RequestLost) e)) [0..<4] @
     map (\<lambda>k. Net (Send p k)) [0..<4]"

definition granted :: "nat \<Rightarrow> nat list \<Rightarrow> 'e \<Rightarrow> 'e event list" where
  "granted p ks e = ask_nodes p ks e @ replicate 4 (Net (Recv p)) @ [Net (LoopEnd p), Net (Decide p), Net (Return p)]"

text \<open>On four nodes one crash does not break the exclusion of writers.\<close>

lemma one_crash_one_writer:
  assumes "world_reach chaos_server chaos_init ds_four names prog W" and "card (crashed (sys W)) \<le> 1"
  shows "writers (sys W) nm \<le> 1"
proof (rule chaos.at_most_one_writer[OF _ ds_four_ok])
  show "reachable chaos_server chaos_init ds_four names (sys W)" using world_reach_sys[OF assms(1) ds_four_ok] by blast
  show "int (card (crashed (sys W))) < 2 * dquorum ds_four - dNodeCount ds_four"
    using assms(2) by (simp add: ds_four_def)
qed

subsection \<open>One server down during a lock\<close>

text \<open>In \<open>testSingleServerOverQuorumDownDuringLock\<close> only the second kill can lose a lock: at the first nobody
  has asked for one, and there is no third.\<close>

abbreviation driver_at :: "stmt list \<Rightarrow> thread list" where
  "driver_at b \<equiv> [\<lparr>proc = driver_proc, body = b\<rparr>]"

abbreviation single_down_rest :: "stmt list" where
  "single_down_rest \<equiv> drop 2 testSingleServerOverQuorumDownDuringLock"

inductive single_down :: "'s world \<Rightarrow> bool" where
  before: "threads W = driver_at (KillDownTo 3 # MLock 0 ''test'' # single_down_rest) \<Longrightarrow> crashed (sys W) = {} \<Longrightarrow>
    used W = {} \<Longrightarrow> runs (sys W) = [] \<Longrightarrow> releases (sys W) = [] \<Longrightarrow> single_down W"
| locking: "threads W = driver_at (MLock 0 ''test'' # single_down_rest) \<Longrightarrow> crashed (sys W) = {} \<Longrightarrow> single_down W"
| waiting: "threads W = driver_at (Awaiting p 0 ''test'' False # single_down_rest) \<Longrightarrow> crashed (sys W) = {} \<Longrightarrow> single_down W"
| locked: "threads W = driver_at single_down_rest \<Longrightarrow> crashed (sys W) = {} \<Longrightarrow> single_down W"
| killed: "killfree.shaped W \<Longrightarrow> card (crashed (sys W)) \<le> 1 \<Longrightarrow> single_down W"

lemma single_down_init: "single_down (world_init init ds names testSingleServerOverQuorumDownDuringLock)"
  by (rule single_down.before)
     (simp_all add: world_init_def sys_init_def testSingleServerOverQuorumDownDuringLock_def chaos_n_def)

lemma single_down_net:
  assumes "single_down W" and "action_ok ds W b" and "exec srv init ds b (sys W) = Some S"
  shows "single_down (W\<lparr>sys := S, used := u\<rparr>)"
  using assms(1)
proof cases
  case before
  then show ?thesis using net_needs_runs[OF assms(2,3)] by simp
qed (simp_all add: single_down.intros net_crashed[OF assms(2,3)] killfree.shaped_def)

lemma single_down_stmt:
  assumes "single_down W" and "t < length (threads W)" and "body (threads W ! t) = s # rest"
    and "run_stmt srv init ds t s rest W = Some W'"
  shows "single_down W'"
  using assms(1)
proof cases
  case before
  then have "t = 0" "s = KillDownTo 3" "rest = MLock 0 ''test'' # single_down_rest" using assms(2,3) by auto
  then have W': "W' = (if 3 < length (cmds W) then killAt init (length (cmds W) - 1) W
      else set_body 0 (MLock 0 ''test'' # single_down_rest) W)" using assms(4) by (simp split: if_splits)
  show ?thesis
  proof (cases "3 < length (cmds W)")
    case True
    have "single_down (killAt init k W)" for k
      by (rule single_down.before) (simp_all add: before killAt_def killProcess_def)
    with W' True show ?thesis by simp
  next
    case False
    with W' before show ?thesis by (simp add: set_body_def single_down.locking)
  qed
next
  case locking
  then have "t = 0" "s = MLock 0 ''test''" "rest = single_down_rest" using assms(2,3) by auto
  then show ?thesis using locking assms(4)
    by (auto simp: set_body_def begin_attempt_def split: if_splits intro: single_down.waiting)
next
  case (waiting p)
  then have "t = 0" "s = Awaiting p 0 ''test'' False" "rest = single_down_rest" using assms(2,3) by auto
  then show ?thesis using waiting assms(4)
    by (auto simp: set_body_def begin_attempt_def Let_def split: if_splits intro: single_down.waiting single_down.locked)
next
  case locked
  obtain c where r: "single_down_rest = KillAt 2 # c" "list_all killfree c"
    by (simp add: testSingleServerOverQuorumDownDuringLock_def chaos_n_def)
  then have W': "W' = killAt init 2 (set_body 0 c W)" using locked assms(2-4) by (auto simp: killAt_def)
  have "killfree.shaped W'" using locked r(2) W' by (auto simp: killfree.shaped_def killAt_def killProcess_def set_body_def)
  moreover have "card (crashed (sys W')) \<le> 1" using locked W' by (simp add: killAt_def killProcess_def)
  ultimately show ?thesis by (rule single_down.killed)
next
  case killed
  then have "list_all killfree (s # rest)" using assms(2,3) by (metis killfree.shaped_def nth_mem)
  then show ?thesis using killed killfree.run_stmt_shaped[OF assms(4)] run_stmt_crashed[OF assms(4)]
    by (simp add: single_down.killed)
qed

lemma single_down_other:
  "single_down W \<Longrightarrow> single_down (W\<lparr>now := x\<rparr>)"
  "single_down W \<Longrightarrow> single_down (W\<lparr>booting := y, listening := z\<rparr>)"
  by (auto elim!: single_down.cases simp: single_down.intros killfree.shaped_def)

lemma single_down_expire:
  assumes "single_down W" and "t < length (threads W)" and "body (threads W ! t) = SelectUntil d b1 b2 # rest"
  shows "single_down (set_body t (b2 @ rest) W)"
  using assms(1)
proof cases
  case killed
  then have "list_all killfree (SelectUntil d b1 b2 # rest)" using assms(2,3) by (metis killfree.shaped_def nth_mem)
  then show ?thesis using killed killfree.shaped_set_body[of W "b2 @ rest" t] by (simp add: single_down.killed)
qed (use assms(2,3) in \<open>simp_all add: testSingleServerOverQuorumDownDuringLock_def chaos_n_def\<close>)

interpretation single_down: driver_invariant srv init ds names testSingleServerOverQuorumDownDuringLock single_down
  for srv init ds names
  by unfold_locales
     (blast intro: single_down_init single_down_other single_down_net single_down_stmt single_down_expire)+

text \<open>(C16) A single server that loses its locks does not lead to two writers: in every run of
  \<open>testSingleServerOverQuorumDownDuringLock\<close> at most one of the two clients holds the lock at any time.\<close>

theorem single_server_down_one_writer:
  assumes "world_reach chaos_server chaos_init ds_four [''test'', ''test''] testSingleServerOverQuorumDownDuringLock W"
  shows "writers (sys W) nm \<le> 1"
proof -
  have "card (crashed (sys W)) \<le> 1" using single_down.reach[OF assms]
    by (auto elim!: single_down.cases)
  then show ?thesis by (rule one_crash_one_writer[OF assms])
qed

text \<open>A refused attempt: the first two nodes refuse, the others grant and get a release.\<close>

definition refused :: "nat \<Rightarrow> 'e \<Rightarrow> 'e event list" where
  "refused p e = ask_nodes p [0, 1, 2, 3] e @ replicate 2 (Net (Recv p)) @ replicate 4 (Net (Release p Delivered e)) @
     [Net (ReleaseEnd p), Net (Decide p), Net (Drain p Delivered e), Net (Drain p Delivered e), Net (Return p)]"

definition single_down_schedule :: "clock event list" where
  "single_down_schedule =
     replicate 3 (Step 0) @ granted 0 [0, 1, 2] (\<lambda>_. 1) @ replicate 4 (Step 0) @
     [Step 1, Tick (2 * second)] @ replicate 4 (Step 1) @ [Boot 2, Boot 3, Step 1, Tick second, Step 1] @
     refused 1 (\<lambda>_. 2) @ [Step 1, Tick (6 * second), Step 1, Step 1] @ replicate 4 (Net (UnlockSend 0 Delivered (\<lambda>_. 3))) @
     [Step 0] @ granted 2 [0, 1, 2, 3] (\<lambda>_. 4) @ replicate 3 (Step 0)"

theorem single_server_down_one_writer_witness:
  "\<exists>W. world_reach chaos_server chaos_init ds_four [''test'', ''test''] testSingleServerOverQuorumDownDuringLock W \<and>
     crashed (sys W) = {2} \<and> length (runs (sys W)) = 3 \<and> outcome W = HasPassed \<and> writers (sys W) ''test'' \<le> 1"
proof -
  have "map_option (\<lambda>W. (crashed (sys W), length (runs (sys W)), outcome W))
     (world_all chaos_server chaos_init ds_four single_down_schedule
       (world_init chaos_init ds_four [''test'', ''test''] testSingleServerOverQuorumDownDuringLock)) = Some ({2}, 3, HasPassed)"
    by code_simp
  from world_scenario[OF this] show ?thesis using single_server_down_one_writer by blast
qed

end
