(* ===== verification/Stale_Locks.thy ===== *)
theory Stale_Locks
  imports Chaos_Scenarios
begin

section \<open>Locks of a client that is gone\<close>

text \<open>
  The scenarios of \<^verbatim>\<open>chaos/chaos.go\<close> in which a client is killed while it holds a lock. They wait for a
  maintenance of the lock servers that removes such locks; no server runs one, so the locks stay.
\<close>

declare One_nat_def [simp del]

subsection \<open>A mutex nobody uses any more\<close>

fun untouched :: "nat \<Rightarrow> stmt \<Rightarrow> bool" where
  "untouched j (MLock i ident) = (i \<noteq> j)"
| "untouched j (MRLock i ident) = (i \<noteq> j)"
| "untouched j (Awaiting p i ident rd) = (i \<noteq> j)"
| "untouched j (MUnlock i) = (i \<noteq> j)"
| "untouched j (MRUnlock i) = (i \<noteq> j)"
| "untouched j (LaunchWithLocks js w) = (j \<notin> set js)"
| "untouched j (Go b) = list_all (untouched j) b"
| "untouched j (Select d b1 b2) = (list_all (untouched j) b1 \<and> list_all (untouched j) b2)"
| "untouched j (SelectUntil d b1 b2) = (list_all (untouched j) b1 \<and> list_all (untouched j) b2)"
| "untouched j (IfSince d b1 b2) = (list_all (untouched j) b1 \<and> list_all (untouched j) b2)"
| "untouched j _ = True"

interpretation untouched: stmt_shape "untouched j" for j
  by unfold_locales auto

lemma untouched_stmt_mutex:
  assumes "run_stmt srv init ds t s rest W = Some W'" and "untouched j s"
  shows "mutexes (sys W') ! j = mutexes (sys W) ! j"
  using assms
  by (cases s) (auto simp: begin_attempt_def release_mutex_def exec_unlock_def killAt_def killLastServer_def
      killProcess_def Let_def split: if_splits option.splits sum.splits)

lemma net_mutex:
  assumes "action_ok ds W b" and "exec srv init ds b (sys W) = Some S" and "j \<in> dead W"
  shows "mutexes S ! j = mutexes (sys W) ! j"
  using assms action_ok_internal[OF assms(1)]
  by (cases b) (auto simp: action_ok_def exec_defs exec_return_def Let_def split: exec_splits intro!: nth_list_update_neq)

lemma stmt_dead:
  assumes "run_stmt srv init ds t s rest W = Some W'"
  shows "dead W \<subseteq> dead W'"
  using assms
  by (cases s) (auto simp: begin_attempt_def release_mutex_def killAt_def killLastServer_def killProcess_def Let_def
      split: if_splits option.splits)

subsection \<open>The client that has the lock crashes\<close>

abbreviation gone_tail :: "stmt list" where
  "gone_tail \<equiv> [LaunchNext 1, Go (lock_in_goroutine 1), crashed_client_select 1, Passed]"

text \<open>The driver after it has killed the client, as long as its own lock is not granted; and the goroutine
  that tries to get the lock.\<close>

inductive waiting_driver :: "stmt list \<Rightarrow> bool" where
  "waiting_driver (Sleep (10 * second) # gone_tail)"
| "waiting_driver (Until d # gone_tail)"
| "waiting_driver gone_tail"
| "waiting_driver (tl gone_tail)"
| "waiting_driver (tl (tl gone_tail))"
| "waiting_driver [SelectUntil d [MUnlock 1, Sleep second] [LogFatal ''Timed out -- SHOULD NOT HAPPEN''], Passed]"
| "waiting_driver [LogFatal ''Timed out -- SHOULD NOT HAPPEN'', Passed]"

inductive waiting_locker :: "'s sys \<Rightarrow> stmt list \<Rightarrow> bool" for S where
  "waiting_locker S (lock_in_goroutine 1)"
| "p < length (runs S) \<Longrightarrow> run_dm (runs S ! p) = 1 \<Longrightarrow> waiting_locker S [Awaiting p 1 ''test'' False, SendCh]"

inductive_cases waiting_driver_step: "waiting_driver (s # rest)"
inductive_cases waiting_locker_step: "waiting_locker S (s # rest)"

definition other_refused :: "'s sys \<Rightarrow> bool" where
  "other_refused S \<longleftrightarrow> (\<forall>r \<in> set (runs S). \<not> run_read r \<and> (run_dm r \<noteq> 0 \<longrightarrow> run_quorum r \<noteq> Some True))"

definition holds_first :: "'s sys \<Rightarrow> bool" where
  "holds_first S \<longleftrightarrow> active (writeLocks (mutexes S ! 0))"

text \<open>The driver is stuck: the mutex of the dead client holds the lock, the driver and its goroutine wait.\<close>

inductive stuck :: "'s world \<Rightarrow> bool" where
  waits: "holds_first (sys W) \<Longrightarrow> 0 \<in> dead W \<Longrightarrow> card (crashed (sys W)) \<le> 1 \<Longrightarrow> signals W = 0 \<Longrightarrow> outcome W \<noteq> HasPassed \<Longrightarrow>
   other_refused (sys W) \<Longrightarrow> threads W = \<lparr>proc = driver_proc, body = m\<rparr> # \<lparr>proc = 3, body = []\<rparr> # lockers \<Longrightarrow> waiting_driver m \<Longrightarrow>
   (\<forall>th \<in> set lockers. proc th = driver_proc \<and> waiting_locker (sys W) (body th)) \<Longrightarrow> stuck W"

lemma other_refused_net:
  assumes "reachable chaos_server chaos_init ds_four [nm, nm] (sys W)" and "action_ok ds_four W b"
    and "exec chaos_server chaos_init ds_four b (sys W) = Some S"
    and "other_refused (sys W)" and "holds_first (sys W)" and "0 \<in> dead W" and "card (crashed (sys W)) \<le> 1"
  shows "other_refused S"
proof -
  have reach: "reachable chaos_server chaos_init ds_four [nm, nm] S"
    using assms(1) exec_sound[OF assms(3)] by (rule reachable.step)
  have one: "writers S nm \<le> 1"
    using chaos.at_most_one_writer[OF reach ds_four_ok, of nm] assms(7) net_crashed[OF assms(2,3)] by (simp add: ds_four_def)
  have wf: "sys_wf ds_four [nm, nm] S" "sys_wf ds_four [nm, nm] (sys W)"
    using reach assms(1) ds_four_ok by (auto intro: reachable_wf)
  then have two: "length (mutexes S) = 2" "Name (mutexes S ! 0) = nm" by (auto simp: sys_wf_def map_eq_Cons_conv)
  have held: "active (writeLocks (mutexes S ! 0))"
    using assms(5) net_mutex[OF assms(2,3,6)] by (simp add: holds_first_def)
  have "\<not> run_read (runs S ! p) \<and> (run_dm (runs S ! p) \<noteq> 0 \<longrightarrow> run_quorum (runs S ! p) \<noteq> Some True)" if p: "p < length (runs S)" for p
  proof -
    let ?r = "runs S ! p" and ?q = "runs (sys W) ! p"
    have q: "\<not> run_read ?q" "run_dm ?q \<noteq> 0 \<longrightarrow> run_quorum ?q \<noteq> Some True"
      using assms(4) net_runs[OF assms(2,3)] p by (auto simp: other_refused_def)
    have same: "run_dm ?r = run_dm ?q" "run_read ?r = run_read ?q"
      "run_quorum ?r \<noteq> run_quorum ?q \<Longrightarrow> run_returned ?r = run_returned ?q \<and> run_phase ?q = Deciding"
      using net_runs[OF assms(2,3)] p by auto
    have wfr: "run_wf ds_four [nm, nm] ?r" "run_wf ds_four [nm, nm] ?q"
      using wf p net_runs[OF assms(2,3)] by (auto intro: sys_wf_run)
    have "run_quorum ?r \<noteq> Some True" if "run_dm ?r \<noteq> 0"
    proof
      assume yes: "run_quorum ?r = Some True"
      with q(2) same that have "run_returned ?r = run_returned ?q" "run_phase ?q = Deciding" by auto
      then have "\<not> run_returned ?r" using wfr(2) by (auto simp: run_wf_def)
      moreover have "run_name ?r = nm" using wfr(1) by (auto simp: run_wf_def nth_Cons split: nat.splits)
      ultimately show False using writer_slot_free[OF p, of 0] yes same(2) q(1) two one held by simp
    qed
    then show ?thesis using q(1) same by simp
  qed
  then show ?thesis by (auto simp: other_refused_def in_set_conv_nth)
qed

lemma waiting_locker_runs:
  assumes "waiting_locker S b" and "length (runs S) \<le> length (runs S')"
    and "\<And>p. p < length (runs S) \<Longrightarrow> run_dm (runs S' ! p) = run_dm (runs S ! p)"
  shows "waiting_locker S' b"
  using assms by cases (auto intro: waiting_locker.intros)

lemma stuck_net:
  assumes "reachable chaos_server chaos_init ds_four [nm, nm] (sys W)" and "stuck W" and "action_ok ds_four W b"
    and "exec chaos_server chaos_init ds_four b (sys W) = Some S"
  shows "stuck (W\<lparr>sys := S, used := u\<rparr>)"
  using assms(2)
proof cases
  case (waits m lockers)
  have "holds_first S" using waits net_mutex[OF assms(3,4), of 0] by (simp add: holds_first_def)
  moreover have "other_refused S" using other_refused_net[OF assms(1,3,4)] waits by blast
  moreover have "\<forall>th \<in> set lockers. proc th = driver_proc \<and> waiting_locker S (body th)"
    using waits waiting_locker_runs[of "sys W" _ S] net_runs[OF assms(3,4)] by auto
  ultimately show ?thesis using waits net_crashed[OF assms(3,4)] by (auto intro!: stuck.intros[of _ m lockers])
qed

lemma stuck_driver:
  assumes "stuck W" and "threads W = \<lparr>proc = driver_proc, body = s # rest\<rparr> # \<lparr>proc = 3, body = []\<rparr> # lockers"
    and "waiting_driver m" and "waiting_driver (s # rest)"
  shows "stuck (set_body 0 m W)"
  using assms(1)
proof cases
  case (waits m' lockers')
  then show ?thesis using assms(2,3) by (auto simp: set_body_def intro!: stuck.intros[of _ m lockers])
qed

lemma stuck_outcome: "stuck W \<Longrightarrow> y \<noteq> HasPassed \<Longrightarrow> stuck (W\<lparr>outcome := y\<rparr>)"
  and stuck_other: "stuck W \<Longrightarrow> stuck (W\<lparr>now := x\<rparr>)" "stuck W \<Longrightarrow> stuck (W\<lparr>booting := bs, listening := ls\<rparr>)"
    "stuck W \<Longrightarrow> stuck (W\<lparr>booting := bs, cmds := cs\<rparr>)"
  by (auto elim!: stuck.cases intro!: stuck.intros)

lemma stuck_spawn:
  assumes "stuck W"
  shows "stuck (W\<lparr>threads := threads W @ [\<lparr>proc = driver_proc, body = lock_in_goroutine 1\<rparr>]\<rparr>)"
  using assms
proof cases
  case (waits m lockers)
  then show ?thesis
    by (auto intro!: stuck.intros[of _ m "lockers @ [\<lparr>proc = driver_proc, body = lock_in_goroutine 1\<rparr>]"] waiting_locker.intros)
qed

lemma stuck_driver_stmt:
  assumes "stuck W" and "body (threads W ! 0) = s # rest" and "run_stmt srv init ds 0 s rest W = Some W'"
  shows "stuck W'"
  using assms(1)
proof cases
  case (waits m lockers)
  then have m: "m = s # rest" and thr: "threads W = \<lparr>proc = driver_proc, body = s # rest\<rparr> # \<lparr>proc = 3, body = []\<rparr> # lockers"
    using assms(2) by auto
  have go: "stuck (set_body 0 m' W)" if "waiting_driver m'" for m'
    using stuck_driver[OF assms(1) thr that] waits(8) m by simp
  have tails: "waiting_driver gone_tail" "waiting_driver (tl gone_tail)" "waiting_driver (tl (tl gone_tail))"
    by (rule waiting_driver.intros)+
  from waits(8) m have "waiting_driver (s # rest)" by simp
  then show ?thesis
  proof (cases rule: waiting_driver_step[consumes 1])
    case 1
    then show ?thesis using assms(3) go by (auto intro: waiting_driver.intros)
  next
    case 2
    then show ?thesis using assms(3) go tails by (auto split: if_splits)
  next
    case 3
    then have "W' = launchTestServers (length (cmds W)) 1 (set_body 0 rest W)" "stuck (set_body 0 rest W)"
      using assms(3) go[OF tails(2)] by simp_all
    then show ?thesis using stuck_other(3)[of "set_body 0 rest W"] by (simp add: launchTestServers_def launchProcess_def One_nat_def)
  next
    case 4
    then show ?thesis using assms(3) stuck_spawn[OF go[OF tails(3)]] thr by simp
  next
    case 5
    then show ?thesis using assms(3) go by (auto simp: crashed_client_select_def intro: waiting_driver.intros)
  next
    case 6
    then show ?thesis using assms(3) \<open>signals W = 0\<close> by simp
  next
    case 7
    then show ?thesis using assms(3) stuck_outcome[OF assms(1)] by auto
  qed
qed

lemma stuck_begin:
  assumes "stuck W" and "2 \<le> t" and "t < length (threads W)"
    and "begin_attempt srv init ds t 1 ''test'' False [SendCh] W = Some W'"
  shows "stuck W'"
  using assms(1)
proof cases
  case (waits m lockers)
  let ?r = "start_run ds 1 (Name (mutexes (sys W) ! 1)) ''test'' [] False"
  let ?S = "(sys W)\<lparr>runs := runs (sys W) @ [?r]\<rparr>" and ?b = "[Awaiting (length (runs (sys W))) 1 ''test'' False, SendCh]"
  have W': "W' = set_body t ?b (W\<lparr>sys := ?S\<rparr>)"
    using assms(4) by (auto simp: begin_attempt_def split: if_splits)
  obtain k where k: "t = Suc (Suc k)" using assms(2) by (metis add_2_eq_Suc le_Suc_ex)
  then have kl: "k < length lockers" using assms(3) waits by simp
  have "threads W' = \<lparr>proc = driver_proc, body = m\<rparr> # \<lparr>proc = 3, body = []\<rparr> # lockers[k := (lockers ! k)\<lparr>body := ?b\<rparr>]"
    using waits k by (simp add: W' set_body_def)
  moreover have "waiting_locker ?S (body th)" "proc th = driver_proc" if "th \<in> set (lockers[k := (lockers ! k)\<lparr>body := ?b\<rparr>])" for th
  proof -
    have "waiting_locker ?S ?b" by (rule waiting_locker.intros) (simp_all add: start_run_def)
    moreover have "waiting_locker ?S (body x) \<and> proc x = driver_proc" if "x \<in> set lockers" for x
      using that waits waiting_locker_runs[of "sys W" "body x" ?S] by (auto simp: nth_append)
    moreover have "th = (lockers ! k)\<lparr>body := ?b\<rparr> \<or> th \<in> set lockers" using that set_update_subset_insert by fastforce
    ultimately show "waiting_locker ?S (body th)" "proc th = driver_proc" using kl by auto
  qed
  moreover have "other_refused ?S" using waits by (simp add: other_refused_def start_run_def)
  ultimately show ?thesis using waits
    by (auto simp: W' holds_first_def intro!: stuck.intros[of _ m "lockers[k := (lockers ! k)\<lparr>body := ?b\<rparr>]"])
qed

lemma stuck_stmt:
  assumes "stuck W" and t: "t < length (threads W)" "body (threads W ! t) = s # rest"
    and "run_stmt srv init ds t s rest W = Some W'"
  shows "stuck W'"
proof (cases "t = 0")
  case True
  with stuck_driver_stmt[OF assms(1)] t assms(4) show ?thesis by blast
next
  case False
  from assms(1) show ?thesis
  proof cases
    case (waits m lockers)
    with False t obtain k where k: "t = Suc (Suc k)" "k < length lockers"
      by (cases t; cases "t - 1") auto
    then have "waiting_locker (sys W) (s # rest)" using waits t by (metis nth_Cons_Suc nth_mem)
    then show ?thesis
    proof (cases rule: waiting_locker_step[consumes 1])
      case 1
      then show ?thesis using stuck_begin[OF assms(1) _ t(1)] assms(4) k by (simp add: lock_in_goroutine_def)
    next
      case (2 p)
      then have "run_quorum (runs (sys W) ! p) \<noteq> Some True" using \<open>other_refused (sys W)\<close>
        by (auto simp: other_refused_def One_nat_def)
      with 2 show ?thesis using stuck_begin[OF assms(1) _ t(1)] assms(4) k by (simp add: Let_def split: if_splits)
    qed
  qed
qed

lemma stuck_expire:
  assumes "stuck W" and "t < length (threads W)" and "body (threads W ! t) = SelectUntil d b1 b2 # rest"
  shows "stuck (set_body t (b2 @ rest) W)"
  using assms(1)
proof cases
  case (waits m lockers)
  have "t = 0"
  proof (rule ccontr)
    assume "t \<noteq> 0"
    with assms(2,3) waits obtain k where k: "t = Suc (Suc k)" "k < length lockers" by (cases t; cases "t - 1") auto
    then have "waiting_locker (sys W) (SelectUntil d b1 b2 # rest)" using waits assms(3) by (metis nth_Cons_Suc nth_mem)
    then show False by (auto elim!: waiting_locker_step simp: lock_in_goroutine_def)
  qed
  with waits assms(3) have m: "m = SelectUntil d b1 b2 # rest" by simp
  with waits(8) have "waiting_driver (b2 @ rest)"
    by (auto elim!: waiting_driver_step simp: crashed_client_select_def intro: waiting_driver.intros)
  then show ?thesis using stuck_driver[OF assms(1)] waits m \<open>t = 0\<close> by simp
qed

subsection \<open>The whole test\<close>

abbreviation crash_prog :: "stmt list" where
  "crash_prog \<equiv> testClientThatHasLockCrashes"

text \<open>The driver before it launches the client, the driver while the client runs, and the client.\<close>

inductive early_driver :: "stmt list \<Rightarrow> bool" where
  "early_driver crash_prog"
| "early_driver (Until d # tl crash_prog)"
| "early_driver (tl crash_prog)"

inductive child_driver :: "stmt list \<Rightarrow> bool" where
  "child_driver (drop 3 crash_prog)"
| "child_driver (Until d # drop 4 crash_prog)"
| "child_driver (drop 4 crash_prog)"

inductive child_client :: "stmt list \<Rightarrow> bool" where
  "child_client [Sleep d, MLock 0 nm]"
| "child_client [Until d, MLock 0 nm]"
| "child_client [MLock 0 nm]"
| "child_client [Awaiting p 0 nm False]"
| "child_client []"

inductive_cases early_driver_step: "early_driver (s # rest)"
inductive_cases child_driver_step: "child_driver (s # rest)"
inductive_cases child_client_step: "child_client (s # rest)"

definition fresh :: "'s world \<Rightarrow> bool" where
  "fresh W \<longleftrightarrow> crashed (sys W) = {} \<and> signals W = 0 \<and> outcome W = Running"

inductive client_crash :: "'s world \<Rightarrow> bool" where
  early: "threads W = driver_at m \<Longrightarrow> early_driver m \<Longrightarrow> cmds W = [0, 1, 2, 3] \<Longrightarrow> fresh W \<Longrightarrow> owner W = [] \<Longrightarrow>
    used W = {} \<Longrightarrow> runs (sys W) = [] \<Longrightarrow> releases (sys W) = [] \<Longrightarrow> client_crash W"
| launching: "threads W = driver_at (drop 2 crash_prog) \<Longrightarrow> cmds W = [0, 1, 2] \<Longrightarrow> fresh W \<Longrightarrow> owner W = [] \<Longrightarrow>
    used W = {} \<Longrightarrow> runs (sys W) = [] \<Longrightarrow> releases (sys W) = [] \<Longrightarrow> client_crash W"
| child: "threads W = [\<lparr>proc = driver_proc, body = m\<rparr>, \<lparr>proc = 3, body = c\<rparr>] \<Longrightarrow> child_driver m \<Longrightarrow> child_client c \<Longrightarrow>
    cmds W = [0, 1, 2, 3] \<Longrightarrow> fresh W \<Longrightarrow> owner W = [(3, 0)] \<Longrightarrow>
    (\<forall>r \<in> set (runs (sys W)). run_dm r = 0 \<and> \<not> run_read r) \<Longrightarrow> client_crash W"
| stuck: "stuck W \<Longrightarrow> client_crash W"
| free: "\<not> holds_first (sys W) \<Longrightarrow> 0 \<in> dead W \<Longrightarrow> untouched.shaped 0 W \<Longrightarrow> client_crash W"

lemma client_crash_init: "client_crash (world_init init ds_four names crash_prog)"
  by (rule client_crash.early) (auto simp: world_init_def sys_init_def ds_four_def fresh_def One_nat_def intro: early_driver.intros)

lemma client_crash_net:
  assumes "reachable chaos_server chaos_init ds_four [nm, nm] (sys W)" and "client_crash W" and "action_ok ds_four W b"
    and "exec chaos_server chaos_init ds_four b (sys W) = Some S"
  shows "client_crash (W\<lparr>sys := S, used := u\<rparr>)"
  using assms(2)
proof cases
  case (child m c)
  have "run_dm r = 0 \<and> \<not> run_read r" if "r \<in> set (runs S)" for r
  proof -
    obtain p where p: "p < length (runs S)" "r = runs S ! p" using \<open>r \<in> set (runs S)\<close> by (metis in_set_conv_nth)
    with net_runs[OF assms(3,4)] have "run_dm r = run_dm (runs (sys W) ! p)" "run_read r = run_read (runs (sys W) ! p)"
      "p < length (runs (sys W))" by simp_all
    with child(7) show ?thesis by simp
  qed
  then show ?thesis using child net_crashed[OF assms(3,4)] by (intro client_crash.child[of _ m c]) (simp_all add: fresh_def)
next
  case stuck
  then show ?thesis using stuck_net[OF assms(1) _ assms(3,4)] client_crash.stuck by blast
next
  case free
  then show ?thesis using net_mutex[OF assms(3,4), of 0]
    by (simp add: holds_first_def untouched.shaped_def client_crash.free)
qed (use net_needs_runs[OF assms(3,4)] in auto)

lemma client_crash_other:
  assumes "client_crash W"
  shows "client_crash (W\<lparr>now := x\<rparr>)" and "client_crash (W\<lparr>booting := bs, listening := ls\<rparr>)"
  using assms
  by (cases; simp add: stuck_other untouched.shaped_def fresh_def client_crash.intros)+

lemma stuck_or_free:
  assumes "threads W = [\<lparr>proc = driver_proc, body = Sleep (10 * second) # gone_tail\<rparr>, \<lparr>proc = 3, body = []\<rparr>]"
    and "card (crashed (sys W)) \<le> 1" and "signals W = 0" and "outcome W = Running" and "0 \<in> dead W"
    and "\<forall>r \<in> set (runs (sys W)). run_dm r = 0 \<and> \<not> run_read r"
  shows "client_crash W"
proof (cases "holds_first (sys W)")
  case True
  then have "stuck W"
    using assms by (intro stuck.waits[of W "Sleep (10 * second) # gone_tail" "[]"]) (simp_all add: other_refused_def waiting_driver.intros)
  then show ?thesis by (rule client_crash.stuck)
next
  case False
  then show ?thesis using assms
    by (intro client_crash.free) (simp_all add: untouched.shaped_def lock_in_goroutine_def crashed_client_select_def)
qed

lemma client_crash_early:
  assumes "client_crash W" and "threads W = driver_at (s # rest)" and "early_driver (s # rest)" and "fresh W" and "owner W = []"
    and "cmds W = [0, 1, 2, 3]" and "used W = {}" and "runs (sys W) = []" and "releases (sys W) = []"
    and "run_stmt srv init ds 0 s rest W = Some W'"
  shows "client_crash W'"
proof -
  have go: "client_crash (set_body 0 m W)" if "early_driver m" for m
    using assms that by (intro client_crash.early[of _ m]) (simp_all add: set_body_def fresh_def)
  from assms(3) show ?thesis
  proof (cases rule: early_driver_step[consumes 1])
    case 1
    then show ?thesis using assms(10) go[OF early_driver.intros(2)] by (auto simp: testClientThatHasLockCrashes_def)
  next
    case (2 d)
    then show ?thesis using assms(10) go[OF early_driver.intros(3)] by (auto split: if_splits)
  next
    case 3
    then have "W' = killLastServer init (set_body 0 (drop 2 crash_prog) W)"
      using assms(10) by (simp add: testClientThatHasLockCrashes_def)
    then show ?thesis using assms
      by (intro client_crash.launching) (simp_all add: killLastServer_def killProcess_def set_body_def fresh_def driver_proc_def)
  qed
qed

lemma client_crash_child:
  assumes thr: "threads W = [\<lparr>proc = driver_proc, body = m\<rparr>, \<lparr>proc = 3, body = c\<rparr>]" and m: "child_driver m" and c: "child_client c"
    and "cmds W = [0, 1, 2, 3]" and "fresh W" and "owner W = [(3, 0)]"
    and runs: "\<forall>r \<in> set (runs (sys W)). run_dm r = 0 \<and> \<not> run_read r"
    and t: "t < length (threads W)" "body (threads W ! t) = s # rest" and "run_stmt srv init ds t s rest W = Some W'"
  shows "client_crash W'"
proof (cases "t = 0")
  case True
  then have ms: "m = s # rest" using thr t by simp
  have go: "client_crash (set_body 0 m' W)" if "child_driver m'" for m'
    using assms that by (intro client_crash.child[of _ m' c]) (simp_all add: set_body_def fresh_def)
  from m[unfolded ms] show ?thesis
  proof (cases rule: child_driver_step[consumes 1])
    case 1
    then show ?thesis using assms(10) True go[OF child_driver.intros(2)] by (auto simp: testClientThatHasLockCrashes_def)
  next
    case (2 d)
    then show ?thesis using assms(10) True go[OF child_driver.intros(3)] by (auto split: if_splits)
  next
    case 3
    then have "W' = killLastServer init (set_body 0 (Sleep (10 * second) # gone_tail) W)"
      using assms(10) True by (simp add: testClientThatHasLockCrashes_def)
    then show ?thesis using assms True
      by (intro stuck_or_free) (simp_all add: killLastServer_def killProcess_def set_body_def fresh_def driver_proc_def One_nat_def)
  qed
next
  case False
  then have t1: "t = Suc 0" and cs: "c = s # rest" using thr t by (auto simp: less_Suc_eq)
  have go: "client_crash (set_body (Suc 0) c' W)" if "child_client c'" for c'
    using assms that by (intro client_crash.child[of _ m c']) (simp_all add: set_body_def fresh_def)
  have att: "client_crash W'" if "begin_attempt srv init ds (Suc 0) 0 nm False [] W = Some W'" for nm
    using that assms
    by (intro client_crash.child[of _ m "[Awaiting (length (runs (sys W))) 0 nm False]"])
       (auto simp: begin_attempt_def set_body_def fresh_def start_run_def child_client.intros split: if_splits)
  from c[unfolded cs] show ?thesis
    by (cases rule: child_client_step[consumes 1])
       (use assms(10) go att t1 in \<open>auto simp: Let_def child_client.intros split: if_splits\<close>)
qed

lemma client_crash_stmt:
  assumes "client_crash W" and t: "t < length (threads W)" "body (threads W ! t) = s # rest"
    and "run_stmt srv init ds t s rest W = Some W'"
  shows "client_crash W'"
  using assms(1)
proof cases
  case (early m)
  then have "t = 0" "m = s # rest" using t by simp_all
  then show ?thesis using client_crash_early[OF assms(1) _ _ early(4,5,3,6-8), of s rest] early(1,2) assms(4) by simp
next
  case launching
  then have "t = 0" "s = LaunchWithLocks [0] True" "rest = drop 3 crash_prog" using t by (simp_all add: testClientThatHasLockCrashes_def)
  then have W': "W' = launchProcess 3 (Some (0, True)) (set_body 0 (drop 3 crash_prog) W)"
    using assms(4) launching by (simp add: launchTestServersWithLocks_def flip: numeral_3_eq_3)
  show ?thesis unfolding W' using launching
    by (intro client_crash.child[of _ "drop 3 crash_prog" "client_of_child (sys W) 0 True"])
       (simp_all add: launchProcess_def set_body_def fresh_def client_of_child_def Let_def child_driver.intros child_client.intros)
next
  case (child m c)
  then show ?thesis using client_crash_child[OF child t assms(4)] by blast
next
  case stuck
  then show ?thesis using stuck_stmt[OF stuck t assms(4)] client_crash.stuck by blast
next
  case free
  then have "list_all (untouched 0) (s # rest)" using t by (metis untouched.shaped_def nth_mem)
  then show ?thesis
    using free untouched.run_stmt_shaped[OF assms(4)] untouched_stmt_mutex[OF assms(4)] stmt_dead[OF assms(4)]
    by (intro client_crash.free) (auto simp: holds_first_def)
qed

lemma client_crash_expire:
  assumes "client_crash W" and "t < length (threads W)" and "body (threads W ! t) = SelectUntil d b1 b2 # rest"
  shows "client_crash (set_body t (b2 @ rest) W)"
  using assms(1)
proof cases
  case stuck
  then show ?thesis using stuck_expire[OF stuck assms(2,3)] client_crash.stuck by blast
next
  case free
  then have "list_all (untouched 0) (SelectUntil d b1 b2 # rest)" using assms(2,3) by (metis untouched.shaped_def nth_mem)
  then show ?thesis using free untouched.shaped_set_body[of 0 W "b2 @ rest" t] by (intro client_crash.free) simp_all
next
  case (early m)
  then show ?thesis using assms(2,3)
    by (auto elim!: early_driver_step simp: testClientThatHasLockCrashes_def)
next
  case launching
  then show ?thesis using assms(2,3) by (simp add: testClientThatHasLockCrashes_def)
next
  case (child m c)
  then show ?thesis using assms(2,3)
    by (auto simp: less_Suc_eq testClientThatHasLockCrashes_def elim!: child_driver_step child_client_step)
qed

interpretation client_crash: driver_invariant chaos_server chaos_init ds_four "[nm, nm]" crash_prog client_crash for nm
proof unfold_locales
  show "client_crash (W\<lparr>sys := S, used := u\<rparr>)"
    if "world_reach chaos_server chaos_init ds_four [nm, nm] crash_prog W" "client_crash W" "action_ok ds_four W b"
      "exec chaos_server chaos_init ds_four b (sys W) = Some S" for W b S u
    using client_crash_net[OF _ that(2-4)] world_reach_sys[OF that(1) ds_four_ok] by blast
qed (blast intro: client_crash_init client_crash_other client_crash_stmt client_crash_expire)+

declare One_nat_def [simp]

text \<open>(C18) The locks of a dead client are never given up: \<open>testClientThatHasLockCrashes\<close> passes only in runs in
  which the client did not hold the lock when it was killed. In the others the lock that the test
  waits for is never granted, because nothing removes the stale locks.\<close>

theorem stale_lock_blocks_test:
  assumes "world_reach chaos_server chaos_init ds_four [nm, nm] testClientThatHasLockCrashes W" and "outcome W = HasPassed"
  shows "\<not> active (writeLocks (mutexes (sys W) ! 0))"
  using client_crash.reach[OF assms(1)] assms(2)
  by (auto elim!: client_crash.cases stuck.cases simp: fresh_def holds_first_def)

definition child_starts :: "clock event list" where
  "child_starts = [Step 0, Tick second] @ replicate 3 (Step 0) @ [Boot 3, Step 0, Step 1, Tick (3 * second), Step 1, Step 1]"

definition lock_again :: "clock event list" where
  "lock_again = replicate 3 (Step 0) @ [Tick (10 * second), Step 0, Step 0, Boot 3, Step 0, Step 0, Step 2]"

theorem stale_lock_blocks_test_witness:
  "\<exists>W. world_reach chaos_server chaos_init ds_four [''r'', ''r''] testClientThatHasLockCrashes W \<and> outcome W = HasPassed \<and>
     \<not> active (writeLocks (mutexes (sys W) ! 0))"
proof -
  have "map_option outcome
     (world_all chaos_server chaos_init ds_four
       (child_starts @ lock_again @ granted 1 [0, 1, 2, 3] (\<lambda>_. 6) @ [Step 2, Step 2, Step 0, Step 0, Step 0, Tick second, Step 0, Step 0])
       (world_init chaos_init ds_four [''r'', ''r''] testClientThatHasLockCrashes)) = Some HasPassed"
    by code_simp
  from world_scenario[OF this] show ?thesis using stale_lock_blocks_test by blast
qed

text \<open>Such runs exist: the client gets the lock, and the test ends in the failure it should not have.\<close>

lemma stale_lock_times_out:
  "\<exists>W. world_reach chaos_server chaos_init ds_four [''r'', ''r''] testClientThatHasLockCrashes W \<and>
     outcome W = HasFailed ''Timed out -- SHOULD NOT HAPPEN'' \<and> active (writeLocks (mutexes (sys W) ! 0))"
proof -
  have "map_option (\<lambda>W. (outcome W, active (writeLocks (mutexes (sys W) ! 0))))
     (world_all chaos_server chaos_init ds_four
       (child_starts @ granted 0 [0, 1, 2, 3] (\<lambda>_. 5) @ [Step 1] @ lock_again @ ask_nodes 1 [0, 1, 2, 3] (\<lambda>_. 6) @
        [Tick (60 * second), Expire 0, Step 0])
       (world_init chaos_init ds_four [''r'', ''r''] testClientThatHasLockCrashes)) =
     Some (HasFailed ''Timed out -- SHOULD NOT HAPPEN'', True)"
    by code_simp
  from world_scenario[OF this] show ?thesis by simp
qed

end
