(* ===== verification/Quorum_Blocks.thy ===== *)
theory Quorum_Blocks
  imports Chaos_Scenarios
begin

section \<open>No lock without a quorum of servers\<close>

text \<open>
  An attempt can only have been granted by servers that listened while it ran. When fewer servers
  than a quorum do, no attempt succeeds, and \<open>Lock\<close> blocks until another server is launched: the scenario
  \<open>testNotEnoughServersForQuorum\<close>.
\<close>

subsection \<open>The servers that can have granted an attempt\<close>

definition run_within :: "ref set \<Rightarrow> Dsync \<Rightarrow> lock_run \<Rightarrow> bool" where
  "run_within U ds r \<longleftrightarrow>
     (\<forall>k g. k < length (goroutines r) \<longrightarrow> goroutines r ! k = Replied g \<longrightarrow> Granted_isLocked g \<longrightarrow> restClnts ds ! k \<in> U) \<and>
     (\<forall>g \<in> set (chan r). Granted_isLocked g \<longrightarrow> restClnts ds ! index g \<in> U) \<and>
     (\<forall>k < length (run_locks r). isLocked (run_locks r ! k) \<longrightarrow> restClnts ds ! k \<in> U)"

lemma isLocked_Nil [simp]: "\<not> isLocked []"
  by (simp add: isLocked_def)

lemma start_within: "run_within U ds (start_run ds j nm ident source rd)"
  by (auto simp: run_within_def start_run_def)

lemma reply_within:
  "run_within U ds r \<Longrightarrow> locked \<longrightarrow> restClnts ds ! k \<in> U \<Longrightarrow> run_within U ds (got_reply k locked r)"
  by (auto simp: run_within_def got_reply_def nth_update_if Granted_isLocked_def split: if_splits)

lemma send_within:
  "run_within U ds r \<Longrightarrow> run_wf ds names r \<Longrightarrow> k < length (restClnts ds) \<Longrightarrow> goroutines r ! k = Replied g \<Longrightarrow>
    run_within U ds (send_grant k g r)"
  by (auto simp: run_within_def send_grant_def nth_update_if run_wf_def)

lemma collector_within:
  assumes "run_within U ds r"
  shows "chan r = g # ch \<Longrightarrow> run_within U ds (recv_grant ds g ch r)"
    and "run_within U ds (timer_fires ds r)"
    and "run_within U ds (released_one k r)"
    and "run_within U ds (decide ds r)"
    and "chan r = g # ch \<Longrightarrow> run_within U ds (drained_one ch r)"
    and "run_within U ds (r\<lparr>run_phase := ph\<rparr>)"
    and "run_within U ds (r\<lparr>run_returned := x\<rparr>)"
  using assms by (auto simp: run_within_def step_defs nth_update_if Granted_isLocked_def split: if_splits)

lemma within_update:
  "(\<forall>r \<in> set rs. run_within U ds r) \<Longrightarrow> run_within U ds r' \<Longrightarrow> (\<forall>r \<in> set (rs[p := r']). run_within U ds r)"
  by (rule ball_set_update)

text \<open>What the collector goroutine and the return do to an attempt.\<close>

definition collected :: "Dsync \<Rightarrow> lock_run \<Rightarrow> lock_run \<Rightarrow> bool" where
  "collected ds r r' \<longleftrightarrow>
     (\<exists>g ch. chan r = g # ch \<and> (r' = recv_grant ds g ch r \<or> r' = drained_one ch r)) \<or> (\<exists>k. r' = released_one k r) \<or>
     (\<exists>ph. r' = r\<lparr>run_phase := ph\<rparr>) \<or> r' = timer_fires ds r \<or> r' = decide ds r \<or> r' = r\<lparr>run_returned := True\<rparr>"

lemma exec_collector:
  assumes "exec srv init ds b S = Some S'" and "action_run b = Some p" and "\<And>k f e. b \<noteq> Call p k f e" and "\<And>k. b \<noteq> Send p k"
  obtains r' where "p < length (runs S)" and "runs S' = (runs S)[p := r']" and "collected ds (runs S ! p) r'"
proof -
  have "p < length (runs S)"
    using assms by (cases b) (auto simp: exec_defs exec_return_def Let_def split: if_splits)
  moreover have "runs S' = (runs S)[p := runs S' ! p] \<and> collected ds (runs S ! p) (runs S' ! p)"
    using assms
    by (cases b) (auto simp: exec_defs exec_return_def Let_def collected_def split: if_splits list.splits phase.splits option.splits)
  ultimately show thesis using that by blast
qed

lemma net_within:
  assumes ok: "action_ok ds W b" and "exec srv init ds b (sys W) = Some S" and "sys_wf ds names (sys W)"
    and "listening W \<subseteq> U" and "\<forall>r \<in> set (runs (sys W)). run_within U ds r"
  shows "\<forall>r \<in> set (runs S). run_within U ds r"
proof -
  have r: "run_within U ds (runs (sys W) ! p)" "run_wf ds names (runs (sys W) ! p)" if "p < length (runs (sys W))" for p
    using assms(3,5) that by (auto intro: sys_wf_run)
  have col: ?thesis if act: "action_run b = Some p" "\<And>k f e. b \<noteq> Call p k f e" "\<And>k. b \<noteq> Send p k" for p
  proof -
    obtain r' where r': "p < length (runs (sys W))" "runs S = (runs (sys W))[p := r']" "collected ds (runs (sys W) ! p) r'"
      using exec_collector[OF assms(2) act] .
    then have "run_within U ds r'"
      using collector_within[OF r(1)[OF r'(1)]] unfolding collected_def by auto
    then show ?thesis unfolding r'(2) by (rule within_update[OF assms(5)])
  qed
  show ?thesis
  proof (cases b)
    case (Call p k f e)
    then obtain locked err s' where c: "p < length (runs (sys W))"
      "rpc srv f e (lock_method (run_read (runs (sys W) ! p))) (run_args (runs (sys W) ! p)) (servers (sys W) (restClnts ds ! k)) = ((locked, err), s')"
      "runs S = (runs (sys W))[p := got_reply k locked (runs (sys W) ! p)]"
      using assms(2) by (auto simp: exec_call_def Let_def split: if_splits prod.splits)
    have "locked \<longrightarrow> restClnts ds ! k \<in> U"
      using ok c(2) assms(4) Call by (auto simp: action_ok_def rpc_def split: fault.splits if_splits)
    then show ?thesis unfolding c(3) by (rule within_update[OF assms(5) reply_within[OF r(1)[OF c(1)]]])
  next
    case (Send p k)
    then obtain g where g: "p < length (runs (sys W))" "k < length (restClnts ds)" "goroutines (runs (sys W) ! p) ! k = Replied g"
      "runs S = (runs (sys W))[p := send_grant k g (runs (sys W) ! p)]"
      using assms(2) by (auto simp: exec_send_def upd_run_def Let_def split: if_splits goroutine.splits)
    then show ?thesis unfolding g(4) by (intro within_update[OF assms(5)] send_within[OF r]) (use g in simp_all)
  next
    case (UnlockSend p f e)
    then show ?thesis using assms(2,5) by (auto simp: exec_unlock_send_def Let_def split: if_splits)
  qed (use action_ok_internal[OF ok] in \<open>simp_all add: col\<close>)
qed

lemma within_quorum:
  assumes "run_within U ds r" and "run_wf ds names r" and "dsync_ok ds" and "finite U"
    and "quorumMet (run_locks r) (run_read r) (dquorum ds) (dquorumReads ds)"
  shows "quorum_of ds (run_read r) \<le> int (card U)"
proof -
  let ?K = "idx_where (\<lambda>u. u \<noteq> []) (run_locks r)"
  have len: "length (run_locks r) = length (restClnts ds)" using assms(2) by (simp add: run_wf_def)
  have "(!) (restClnts ds) ` ?K \<subseteq> U" using assms(1) by (auto simp: run_within_def isLocked_def)
  moreover have "inj_on ((!) (restClnts ds)) ?K"
    using len dsync_okD(6)[OF assms(3)] by (auto simp: inj_on_def nth_eq_iff_index_eq)
  ultimately have "card ?K \<le> card U" using assms(4) card_inj_on_le by blast
  moreover have "quorum_of ds (run_read r) \<le> int (card ?K)" using assms(5) by (simp add: quorumMet_card)
  ultimately show ?thesis by simp
qed

subsection \<open>The first lock of testNotEnoughServersForQuorum\<close>

abbreviation few_prog :: "stmt list" where
  "few_prog \<equiv> testNotEnoughServersForQuorum"

definition no_grants :: "'s world \<Rightarrow> bool" where
  "no_grants W \<longleftrightarrow> (\<forall>r \<in> set (runs (sys W)). run_within {0, 1} ds_four r \<and> \<not> run_read r) \<and>
     (\<forall>dm \<in> set (mutexes (sys W)). \<not> active (writeLocks dm))"

inductive few_driver :: "stmt list \<Rightarrow> bool" where
  "few_driver (drop 2 few_prog)"
| "few_driver (Awaiting p 0 ''test'' False # drop 3 few_prog)"

inductive few_launcher :: "stmt list \<Rightarrow> bool" where
  "few_launcher [Sleep (7 * second), Launch 2 1]"
| "7 * second \<le> d \<Longrightarrow> few_launcher [Until d, Launch 2 1]"

inductive_cases few_driver_step: "few_driver (s # rest)"
inductive_cases few_launcher_step: "few_launcher (s # rest)"

inductive few_servers :: "'s world \<Rightarrow> bool" where
  killing: "threads W = driver_at few_prog \<Longrightarrow> listening W \<subseteq> set (cmds W) \<Longrightarrow> cmds W = [0..<k] \<Longrightarrow> booting W = {} \<Longrightarrow> 2 \<le> k \<Longrightarrow>
    runs (sys W) = [] \<Longrightarrow> releases (sys W) = [] \<Longrightarrow> no_grants W \<Longrightarrow> 0 \<le> now W \<Longrightarrow> few_servers W"
| killed: "threads W = driver_at (tl few_prog) \<Longrightarrow> listening W \<subseteq> {0, 1} \<Longrightarrow> booting W = {} \<Longrightarrow>
    runs (sys W) = [] \<Longrightarrow> releases (sys W) = [] \<Longrightarrow> no_grants W \<Longrightarrow> 0 \<le> now W \<Longrightarrow> few_servers W"
| waiting: "threads W = [\<lparr>proc = driver_proc, body = m\<rparr>, \<lparr>proc = driver_proc, body = g\<rparr>] \<Longrightarrow> few_driver m \<Longrightarrow> few_launcher g \<Longrightarrow>
    (\<forall>p rest. m = Awaiting p 0 ''test'' False # rest \<longrightarrow> p < length (runs (sys W))) \<Longrightarrow>
    listening W \<subseteq> {0, 1} \<Longrightarrow> booting W = {} \<Longrightarrow> no_grants W \<Longrightarrow> 0 \<le> now W \<Longrightarrow> few_servers W"
| later: "7 * second \<le> now W \<Longrightarrow> few_servers W"

text \<open>Two servers are fewer than the quorum of three.\<close>

lemma no_grant_quorum:
  assumes "no_grants W" and "sys_wf ds_four names (sys W)" and "r \<in> set (runs (sys W))"
  shows "run_quorum r \<noteq> Some True"
proof
  assume "run_quorum r = Some True"
  moreover have wf: "run_wf ds_four names r" and "run_within {0, 1} ds_four r" "\<not> run_read r"
    using assms by (auto simp: sys_wf_def no_grants_def)
  ultimately have "quorum_of ds_four False \<le> int (card {0, 1 :: ref})"
    using within_quorum[of "{0, 1}" ds_four r names] ds_four_ok by (simp add: run_wf_def)
  then show False by (simp add: quorum_of_def ds_four_def)
qed

lemma no_grants_net:
  assumes "no_grants W" and wf: "sys_wf ds_four names (sys W)" and "action_ok ds_four W b"
    and "exec srv init ds_four b (sys W) = Some S" and "listening W \<subseteq> {0, 1}"
  shows "no_grants (W\<lparr>sys := S, used := u\<rparr>)"
proof -
  have within: "\<forall>r \<in> set (runs S). run_within {0, 1} ds_four r"
    using net_within[OF assms(3,4) wf assms(5)] assms(1) by (auto simp: no_grants_def)
  have "\<not> run_read r" if "r \<in> set (runs S)" for r
    using that net_runs[OF assms(3,4)] assms(1) by (metis in_set_conv_nth no_grants_def)
  moreover have "mutexes S = mutexes (sys W)"
  proof (cases "\<exists>p. b = Return p")
    case True
    then obtain p q where "p < length (runs (sys W))" "run_quorum (runs (sys W) ! p) = Some q"
      "mutexes S = (if q then (mutexes (sys W))[run_dm (runs (sys W) ! p) := store_locks (run_read (runs (sys W) ! p))
         (run_locks (runs (sys W) ! p)) (mutexes (sys W) ! run_dm (runs (sys W) ! p))] else mutexes (sys W))"
      using assms(4) by (auto simp: exec_return_def Let_def split: if_splits option.splits)
    then show ?thesis using no_grant_quorum[OF assms(1) wf, of "runs (sys W) ! p"] by (cases q) auto
  next
    case False
    then show ?thesis using assms(4) action_ok_internal[OF assms(3)]
      by (cases b) (auto simp: exec_defs Let_def split: exec_splits)
  qed
  ultimately show ?thesis using within assms(1) by (simp add: no_grants_def)
qed

lemma few_servers_init: "few_servers (world_init init ds_four names few_prog)"
  by (rule few_servers.killing[where k = 4])
     (auto simp: world_init_def sys_init_def ds_four_def no_grants_def NewDRWMutex_def upt_conv_Cons)

lemma few_servers_net:
  assumes "sys_wf ds_four names (sys W)" and "few_servers W" and "action_ok ds_four W b"
    and "exec srv init ds_four b (sys W) = Some S"
  shows "few_servers (W\<lparr>sys := S, used := u\<rparr>)"
  using assms(2)
proof cases
  case (waiting m g)
  then show ?thesis
    using no_grants_net[OF waiting(7) assms(1,3,4) waiting(5)] net_runs[OF assms(3,4)]
    by (intro few_servers.waiting[of _ m g]) simp_all
next
  case later
  then show ?thesis by (simp add: few_servers.later)
qed (use net_needs_runs[OF assms(3,4)] in auto)

lemma few_servers_tick: "few_servers W \<Longrightarrow> 0 \<le> d \<Longrightarrow> few_servers (W\<lparr>now := now W + d\<rparr>)"
  by (cases W rule: few_servers.cases) (simp_all add: no_grants_def few_servers.intros)

lemma few_servers_boot:
  "few_servers W \<Longrightarrow> c \<in> booting W \<Longrightarrow> few_servers (W\<lparr>booting := booting W - {c}, listening := insert c (listening W)\<rparr>)"
  by (cases W rule: few_servers.cases) (simp_all add: few_servers.later)

lemma few_killing_stmt:
  assumes "threads W = driver_at few_prog" and "listening W \<subseteq> set (cmds W)" and "cmds W = [0..<k]" and "booting W = {}" and "2 \<le> k"
    and "runs (sys W) = []" and "releases (sys W) = []" and "no_grants W" and "0 \<le> now W"
    and "W' = (if 2 < length (cmds W) then killAt init (length (cmds W) - 1) W else set_body 0 (tl few_prog) W)"
  shows "few_servers W'"
proof (cases "2 < k")
  case True
  then have W': "W' = killAt init (k - 1) W" and c: "cmds W ! (k - 1) = k - 1" "k - 1 \<noteq> driver_proc" "take (k - 1) (cmds W) = [0..<k - 1]"
    using assms by (simp_all add: driver_proc_def take_upt)
  have l: "listening W - {k - 1} \<subseteq> set [0..<k - 1]" using assms(2,3) by auto
  then show ?thesis unfolding W' using assms c True
    by (intro few_servers.killing[where k = "k - 1"]) (auto simp: killAt_def killProcess_def no_grants_def)
next
  case False
  with assms(3,5) have "set (cmds W) = {0, 1}" "W' = set_body 0 (tl few_prog) W"
    using assms(10) by (auto simp: upt_conv_Cons)
  then show ?thesis using assms by (intro few_servers.killed) (simp_all add: set_body_def no_grants_def)
qed

lemma few_waiting_stmt:
  assumes "sys_wf ds_four names (sys W)"
    and thr: "threads W = [\<lparr>proc = driver_proc, body = m\<rparr>, \<lparr>proc = driver_proc, body = g\<rparr>]" and m: "few_driver m" and g: "few_launcher g"
    and p: "\<forall>p rest. m = Awaiting p 0 ''test'' False # rest \<longrightarrow> p < length (runs (sys W))"
    and "listening W \<subseteq> {0, 1}" and "booting W = {}" and "no_grants W" and "0 \<le> now W"
    and t: "t < length (threads W)" "body (threads W ! t) = s # rest" and run: "run_stmt srv init ds_four t s rest W = Some W'"
  shows "few_servers W'"
proof (cases "t = 0")
  case True
  then have ms: "m = s # rest" using thr t by simp
  have att: "few_servers W'" if "begin_attempt srv init ds_four 0 0 ''test'' False (drop 3 few_prog) W = Some W'"
    using that assms
    by (intro few_servers.waiting[of _ "Awaiting (length (runs (sys W))) 0 ''test'' False # drop 3 few_prog" g])
       (auto simp: begin_attempt_def set_body_def no_grants_def start_within few_driver.intros split: if_splits)
  from m[unfolded ms] show ?thesis
  proof (cases rule: few_driver_step[consumes 1])
    case 1
    then show ?thesis using run att True by (simp add: testNotEnoughServersForQuorum_def)
  next
    case (2 p)
    then have "run_quorum (runs (sys W) ! p) \<noteq> Some True" using no_grant_quorum[OF assms(8,1)] p ms by simp
    with 2 show ?thesis using run att True by (simp add: Let_def split: if_splits)
  qed
next
  case False
  then have t1: "t = Suc 0" and gs: "g = s # rest" using thr t by (auto simp: less_Suc_eq)
  from g[unfolded gs] show ?thesis
  proof (cases rule: few_launcher_step[consumes 1])
    case 1
    then have "W' = set_body (Suc 0) [Until (now W + 7 * second), Launch 2 1] W" using run t1 by simp
    then show ?thesis using assms
      by (intro few_servers.waiting[of _ m "[Until (now W + 7 * second), Launch 2 1]"] few_launcher.intros)
         (simp_all add: set_body_def no_grants_def)
  next
    case (2 d)
    then have "7 * second \<le> now W" "W' = set_body (Suc 0) [Launch 2 1] W" using run t1 by (auto split: if_splits)
    then show ?thesis by (simp add: few_servers.later set_body_def)
  qed
qed

lemma now_run_stmt: "run_stmt srv init ds t s rest W = Some W' \<Longrightarrow> now W' = now W"
  by (cases s) (auto simp: begin_attempt_def release_mutex_def killAt_def killLastServer_def killProcess_def Let_def
      split: if_splits option.splits)

lemma few_servers_stmt:
  assumes "sys_wf ds_four names (sys W)" and "few_servers W" and t: "t < length (threads W)" "body (threads W ! t) = s # rest"
    and run: "run_stmt srv init ds_four t s rest W = Some W'"
  shows "few_servers W'"
  using assms(2)
proof cases
  case (killing k)
  then have "t = 0" "s = KillDownTo 2" "rest = tl few_prog" using t by (simp_all add: testNotEnoughServersForQuorum_def chaos_n_def)
  then have "W' = (if 2 < length (cmds W) then killAt init (length (cmds W) - 1) W else set_body 0 (tl few_prog) W)"
    using run by (simp split: if_splits)
  then show ?thesis by (rule few_killing_stmt[OF killing])
next
  case killed
  let ?g = "[Sleep (7 * second), Launch 2 1]"
  have "t = 0" "s = Go ?g" "rest = drop 2 few_prog"
    using t killed by (simp_all add: testNotEnoughServersForQuorum_def chaos_n_def)
  then have "W' = (set_body 0 (drop 2 few_prog) W)\<lparr>threads := [\<lparr>proc = driver_proc, body = drop 2 few_prog\<rparr>, \<lparr>proc = driver_proc, body = ?g\<rparr>]\<rparr>"
    using run killed by (simp add: set_body_def)
  then show ?thesis using killed
    by (intro few_servers.waiting[of _ "drop 2 few_prog" ?g] few_driver.intros few_launcher.intros)
       (simp_all add: no_grants_def set_body_def testNotEnoughServersForQuorum_def)
next
  case (waiting m g)
  then show ?thesis using few_waiting_stmt[OF assms(1) waiting t run] by blast
next
  case later
  then show ?thesis using now_run_stmt[OF run] by (simp add: few_servers.later)
qed

lemma few_servers_expire:
  assumes "few_servers W" and "t < length (threads W)" and "body (threads W ! t) = SelectUntil d b1 b2 # rest"
  shows "few_servers (set_body t (b2 @ rest) W)"
  using assms(1)
proof cases
  case later
  then show ?thesis by (simp add: few_servers.later set_body_def)
next
  case (waiting m g)
  then show ?thesis using assms(2,3)
    by (auto simp: less_Suc_eq testNotEnoughServersForQuorum_def elim!: few_driver_step few_launcher_step)
qed (use assms(2,3) in \<open>simp_all add: testNotEnoughServersForQuorum_def\<close>)

interpretation few_servers: driver_invariant srv init ds_four names few_prog few_servers for srv init names
proof unfold_locales
  fix W :: "'b world" assume "world_reach srv init ds_four names few_prog W"
  from world_reach_sys[OF this ds_four_ok] have "sys_wf ds_four names (sys W)" by (blast intro: reachable_wf[OF _ ds_four_ok])
  note wf = this
  show "few_servers W \<Longrightarrow> action_ok ds_four W b \<Longrightarrow> exec srv init ds_four b (sys W) = Some S \<Longrightarrow>
      few_servers (W\<lparr>sys := S, used := u\<rparr>)" for b S u
    using wf by (rule few_servers_net)
  show "few_servers W \<Longrightarrow> t < length (threads W) \<Longrightarrow> body (threads W ! t) = s # rest \<Longrightarrow>
      run_stmt srv init ds_four t s rest W = Some W' \<Longrightarrow> few_servers W'" for t s rest W'
    using wf by (rule few_servers_stmt)
qed (blast intro: few_servers_init few_servers_tick few_servers_boot few_servers_expire)+

text \<open>(C19) Without a quorum of servers \<open>Lock\<close> blocks: in every run of \<open>testNotEnoughServersForQuorum\<close> nobody holds
  the lock in the first seven seconds, until the extra server is launched.\<close>

theorem lock_blocks_without_quorum:
  assumes "world_reach srv init ds_four [''test''] testNotEnoughServersForQuorum W" and "now W < 7 * second"
  shows "writers (sys W) nm = 0"
proof -
  have "no_grants W" using few_servers.reach[OF assms(1)] assms(2) by (auto elim!: few_servers.cases)
  moreover have wf: "sys_wf ds_four [''test''] (sys W)"
    using world_reach_sys[OF assms(1) ds_four_ok] by (blast intro: reachable_wf[OF _ ds_four_ok])
  ultimately have "\<forall>r \<in> set (runs (sys W)). run_held nm False r = []" "\<forall>dm \<in> set (mutexes (sys W)). dm_held nm False dm = []"
    using no_grant_quorum[OF _ wf] by (auto simp: run_held_def dm_held_def no_grants_def)
  then show ?thesis by (simp add: writers_def held_def)
qed

text \<open>In this run the first attempt fails for want of a quorum, and the test waits for the extra server.\<close>

definition no_quorum_attempt :: "clock event list" where
  "no_quorum_attempt =
     replicate 5 (Step 0) @ ask_nodes 0 [0, 1] (\<lambda>_. 1) @ replicate 4 (Net (Recv 0)) @ replicate 4 (Net (Release 0 Delivered (\<lambda>_. 2))) @
     [Net (ReleaseEnd 0), Net (Decide 0), Net (Return 0), Step 0]"

theorem lock_blocks_without_quorum_witness:
  "\<exists>W. world_reach chaos_server chaos_init ds_four [''test''] testNotEnoughServersForQuorum W \<and> now W < 7 * second \<and>
     length (runs (sys W)) = 2 \<and> writers (sys W) ''test'' = 0"
proof -
  have "map_option (\<lambda>W. (now W < 7 * second, length (runs (sys W))))
     (world_all chaos_server chaos_init ds_four no_quorum_attempt
       (world_init chaos_init ds_four [''test''] testNotEnoughServersForQuorum)) = Some (True, 2)"
    by code_simp
  from world_scenario[OF this] show ?thesis using lock_blocks_without_quorum by fastforce
qed

text \<open>Once the extra server is up the lock is granted, and the test passes.\<close>

lemma testNotEnoughServersForQuorum_passes:
  "\<exists>W. world_reach chaos_server chaos_init ds_four [''test''] testNotEnoughServersForQuorum W \<and> outcome W = HasPassed"
proof -
  have "map_option outcome
     (world_all chaos_server chaos_init ds_four
       (no_quorum_attempt @ [Step 1, Tick (7 * second), Step 1, Step 1, Boot 2] @ granted 1 [0, 1, 2] (\<lambda>_. 3) @
        [Step 0, Step 0, Tick (2 * second)] @ replicate 3 (Step 0) @
        map (\<lambda>f. Net (UnlockSend 0 f (\<lambda>_. 4))) [Delivered, Delivered, RequestLost, Delivered] @
        [Step 0, Step 2, Step 0, Tick (5 * second), Step 2, Step 2, Boot 2] @ granted 2 [0, 1, 2] (\<lambda>_. 5) @ replicate 5 (Step 0))
       (world_init chaos_init ds_four [''test''] testNotEnoughServersForQuorum)) = Some HasPassed"
    by code_simp
  from world_scenario[OF this] show ?thesis by simp
qed

end
