(* ===== verification/No_Starvation.thy ===== *)
theory No_Starvation
  imports Chaos_Scenarios
begin

section \<open>A mutex that does not starve writers (chaos/chaos.go)\<close>

text \<open>
  \<open>DRWMutexNoWriterStarvation\<close> guards a readers-writer mutex with a second one: whoever wants the lock,
  for reading or writing, first takes the guard exclusively and holds it while it waits for the
  lock. Object \<open>d\<close> has the mutexes \<open>2 * d\<close> (\<^verbatim>\<open>excl\<close>) and \<open>2 * d + 1\<close> (\<^verbatim>\<open>rw\<close>). The operations are statements of
  \<open>Driver\<close>; the deferred unlock of the guard comes after the call on \<^verbatim>\<open>rw\<close>.
\<close>

subsection \<open>The operations\<close>

definition excl_suffix :: string where
  "excl_suffix = ''-excl-no-writer-starvation''"

definition NewDRWMutexNoWriterStarvation :: "string \<Rightarrow> string list" where
  "NewDRWMutexNoWriterStarvation nm = [nm @ excl_suffix, nm]"

definition excl :: "nat \<Rightarrow> nat" where
  "excl d = 2 * d"

definition rw :: "nat \<Rightarrow> nat" where
  "rw d = 2 * d + 1"

definition ns_Lock :: "nat \<Rightarrow> string \<Rightarrow> stmt list" where
  "ns_Lock d ident = [MLock (excl d) (ident @ excl_suffix), MLock (rw d) ident, MUnlock (excl d)]"

definition ns_Unlock :: "nat \<Rightarrow> stmt list" where
  "ns_Unlock d = [MUnlock (rw d)]"

definition ns_RLock :: "nat \<Rightarrow> string \<Rightarrow> stmt list" where
  "ns_RLock d ident = [MLock (excl d) (ident @ excl_suffix), MRLock (rw d) ident, MUnlock (excl d)]"

definition ns_RUnlock :: "nat \<Rightarrow> stmt list" where
  "ns_RUnlock d = [MRUnlock (rw d)]"

text \<open>\<open>RWLocker\<close>: the interface that the plain mutex and the guarded one share.\<close>

record RWLocker =
  rwl_Lock :: "string \<Rightarrow> stmt list"
  rwl_RLock :: "string \<Rightarrow> stmt list"
  rwl_Unlock :: "stmt list"
  rwl_RUnlock :: "stmt list"

definition writer_starvation_locker :: "bool \<Rightarrow> RWLocker" where
  "writer_starvation_locker noWriterStarvation =
     (if noWriterStarvation
      then \<lparr>rwl_Lock = ns_Lock 0, rwl_RLock = ns_RLock 0, rwl_Unlock = ns_Unlock 0, rwl_RUnlock = ns_RUnlock 0\<rparr>
      else \<lparr>rwl_Lock = (\<lambda>ident. [MLock 0 ident]), rwl_RLock = (\<lambda>ident. [MRLock 0 ident]), rwl_Unlock = [MUnlock 0],
            rwl_RUnlock = [MRUnlock 0]\<rparr>)"

definition testWriterStarvation :: "bool \<Rightarrow> stmt list" where
  "testWriterStarvation noWriterStarvation =
     (let m = writer_starvation_locker noWriterStarvation in
      rwl_RLock m ''test'' @
      [WgAdd 2,
       Go ([Sleep (2 * second)] @ rwl_RUnlock m @ [WgDone]),
       Go ([Sleep (10 * millisecond)] @ rwl_RLock m ''RLock'' @ [Sleep (2 * second)] @ rwl_RUnlock m @ [WgDone])] @
      rwl_Lock m ''Lock'' @ [Sleep (2 * second)] @ rwl_Unlock m @
      [WgWait,
       IfSince (5 * second)
         (if noWriterStarvation then [Passed]
          else [LogFatal ''Second read lock did not get preference over write lock -- NOT EXPECTED''])
         (if noWriterStarvation then [LogFatal ''Second read lock got preference over write lock -- SHOULD NOT HAPPEN'']
          else [Passed])])"

subsection \<open>Programs that use guarded mutexes only\<close>

text \<open>Where a goroutine is with respect to the guard: outside, holding guard \<open>j\<close> and about to take the lock,
  about to give guard \<open>j\<close> back.\<close>

datatype gate = Outside | Entering nat | Leaving nat

definition gate_next :: "gate \<Rightarrow> stmt \<Rightarrow> gate option" where
  "gate_next g s =
     (case s of
        MLock j ident \<Rightarrow>
          (case g of Outside \<Rightarrow> if even j then Some (Entering j) else None
           | Entering i \<Rightarrow> if j = Suc i then Some (Leaving i) else None
           | Leaving i \<Rightarrow> None)
      | MRLock j ident \<Rightarrow> (case g of Entering i \<Rightarrow> if j = Suc i then Some (Leaving i) else None | _ \<Rightarrow> None)
      | MUnlock j \<Rightarrow>
          (case g of Outside \<Rightarrow> if odd j then Some Outside else None
           | Leaving i \<Rightarrow> if j = i then Some Outside else None
           | Entering i \<Rightarrow> None)
      | MRUnlock j \<Rightarrow> if g = Outside \<and> odd j then Some Outside else None
      | _ \<Rightarrow> if g = Outside then Some Outside else None)"

fun allowed :: "stmt \<Rightarrow> bool" where
  "allowed (Go b) = True"
| "allowed (IfSince d b1 b2) = True"
| "allowed (MLock j ident) = True"
| "allowed (MRLock j ident) = True"
| "allowed (MUnlock j) = True"
| "allowed (MRUnlock j) = True"
| "allowed (Sleep d) = True"
| "allowed (Until d) = True"
| "allowed (WgAdd k) = True"
| "allowed WgDone = True"
| "allowed WgWait = True"
| "allowed Passed = True"
| "allowed (LogFatal msg) = True"
| "allowed _ = False"

fun gated :: "gate \<Rightarrow> stmt list \<Rightarrow> bool" where
  "gated g [] = (g = Outside)"
| "gated g (s # b) =
     (allowed s \<and>
      (case s of Go b' \<Rightarrow> gated Outside b' | IfSince d b1 b2 \<Rightarrow> gated Outside b1 \<and> gated Outside b2 | _ \<Rightarrow> True) \<and>
      (case gate_next g s of None \<Rightarrow> False | Some g' \<Rightarrow> gated g' b))"

lemma gated_append: "gated g b \<Longrightarrow> gated Outside b' \<Longrightarrow> gated g (b @ b')"
proof (induction b arbitrary: g)
  case (Cons s b)
  then show ?case by (auto split: option.splits)
qed simp

lemma gated_ops:
  "gated Outside (ns_Lock d ident)" "gated Outside (ns_RLock d ident)" "gated Outside (ns_Unlock d)" "gated Outside (ns_RUnlock d)"
  by (simp_all add: ns_Lock_def ns_RLock_def ns_Unlock_def ns_RUnlock_def excl_def rw_def gate_next_def)

text \<open>The programs the theorem is about: a goroutine uses guarded mutexes by their operations, spawns such
  goroutines, sleeps and waits, in any order and number.\<close>

inductive guarded_program :: "stmt list \<Rightarrow> bool" where
  ends: "guarded_program []"
| lock: "guarded_program b \<Longrightarrow> guarded_program (ns_Lock d ident @ b)"
| unlock: "guarded_program b \<Longrightarrow> guarded_program (ns_Unlock d @ b)"
| rlock: "guarded_program b \<Longrightarrow> guarded_program (ns_RLock d ident @ b)"
| runlock: "guarded_program b \<Longrightarrow> guarded_program (ns_RUnlock d @ b)"
| spawn: "guarded_program b' \<Longrightarrow> guarded_program b \<Longrightarrow> guarded_program (Go b' # b)"
| since: "guarded_program b1 \<Longrightarrow> guarded_program b2 \<Longrightarrow> guarded_program b \<Longrightarrow> guarded_program (IfSince dur b1 b2 # b)"
| sleep: "guarded_program b \<Longrightarrow> guarded_program (Sleep dur # b)"
| wg_add: "guarded_program b \<Longrightarrow> guarded_program (WgAdd k # b)"
| wg_done: "guarded_program b \<Longrightarrow> guarded_program (WgDone # b)"
| wg_wait: "guarded_program b \<Longrightarrow> guarded_program (WgWait # b)"
| passed: "guarded_program b \<Longrightarrow> guarded_program (Passed # b)"
| fatal: "guarded_program b \<Longrightarrow> guarded_program (LogFatal msg # b)"

lemma guarded_program_gated: "guarded_program b \<Longrightarrow> gated Outside b"
  by (induction rule: guarded_program.induct) (simp_all add: gated_append[OF gated_ops(1)] gated_append[OF gated_ops(2)]
      gated_append[OF gated_ops(3)] gated_append[OF gated_ops(4)] gate_next_def)

lemma guarded_testWriterStarvation: "guarded_program (testWriterStarvation True)"
  by (auto simp: testWriterStarvation_def writer_starvation_locker_def Let_def intro!: guarded_program.intros)

subsection \<open>Who holds the guard\<close>

definition unwait :: "stmt list \<Rightarrow> stmt list" where
  "unwait b = (case b of Awaiting p j ident rd # rest \<Rightarrow> (if rd then MRLock j ident else MLock j ident) # rest | _ \<Rightarrow> b)"

definition has_guard :: "'s sys \<Rightarrow> gate \<Rightarrow> stmt list \<Rightarrow> nat \<Rightarrow> bool" where
  "has_guard S g b j \<longleftrightarrow> g = Entering j \<or> g = Leaving j \<or>
     g = Outside \<and> (\<exists>p ident rd rest. b = Awaiting p j ident rd # rest \<and> run_returned (runs S ! p) \<and> run_quorum (runs S ! p) = Some True)"

text \<open>The invariant over the goroutines \<open>bs\<close> with the gates \<open>gs\<close>: a waiting goroutine waits for an attempt of its own,
  every attempt that has not returned is waited for, a goroutine that has a guard holds the lock
  of its mutex, and only one has a guard.\<close>

definition bodies_ok :: "'s sys \<Rightarrow> gate list \<Rightarrow> stmt list list \<Rightarrow> bool" where
  "bodies_ok S gs bs \<longleftrightarrow> length gs = length bs \<and>
     (\<forall>t < length bs. gated (gs ! t) (unwait (bs ! t)) \<and> (\<forall>j. gs ! t = Entering j \<or> gs ! t = Leaving j \<longrightarrow> even j) \<and>
        (\<forall>p j ident rd rest. bs ! t = Awaiting p j ident rd # rest \<longrightarrow>
           p < length (runs S) \<and> run_dm (runs S ! p) = j \<and> run_read (runs S ! p) = rd))"

definition waits_ok :: "'s sys \<Rightarrow> stmt list list \<Rightarrow> bool" where
  "waits_ok S bs \<longleftrightarrow>
     (\<forall>t < length bs. \<forall>t' < length bs. \<forall>p. awaits (bs ! t) p \<and> awaits (bs ! t') p \<longrightarrow> t = t') \<and>
     (\<forall>p < length (runs S). run_returned (runs S ! p) \<or> (\<exists>t < length bs. awaits (bs ! t) p))"

definition guards_ok :: "'s sys \<Rightarrow> gate list \<Rightarrow> stmt list list \<Rightarrow> bool" where
  "guards_ok S gs bs \<longleftrightarrow>
     (\<forall>t < length bs. \<forall>j. has_guard S (gs ! t) (bs ! t) j \<longrightarrow> j < length (mutexes S) \<and> active (writeLocks (mutexes S ! j)) \<and>
        (\<forall>t' < length bs. \<forall>j'. has_guard S (gs ! t') (bs ! t') j' \<longrightarrow> t = t'))"

definition gates_ok :: "'s sys \<Rightarrow> gate list \<Rightarrow> stmt list list \<Rightarrow> bool" where
  "gates_ok S gs bs \<longleftrightarrow> bodies_ok S gs bs \<and> waits_ok S bs \<and> guards_ok S gs bs"

lemma not_awaits: "gated g b \<Longrightarrow> \<not> awaits b p" and unwait_gated: "gated g b \<Longrightarrow> unwait b = b"
  by (auto simp: awaits_def unwait_def split: list.splits stmt.splits)

lemma has_guard_gated: "gated g b \<Longrightarrow> has_guard S g b j \<longleftrightarrow> g = Entering j \<or> g = Leaving j"
  by (auto simp: has_guard_def)

lemma guard_even: "bodies_ok S gs bs \<Longrightarrow> t < length bs \<Longrightarrow> has_guard S (gs ! t) (bs ! t) j \<Longrightarrow> even j"
  by (fastforce simp: bodies_ok_def has_guard_def unwait_def gate_next_def split: if_splits)

text \<open>A goroutine goes on to \<open>b'\<close>, a list of statements that does not wait.\<close>

lemma gates_ok_goto:
  assumes "gates_ok S gs bs" and "gated g' b'" and "t < length bs"
    and "\<And>j. g' = Entering j \<or> g' = Leaving j \<Longrightarrow> has_guard S (gs ! t) (bs ! t) j"
    and "\<And>p. awaits (bs ! t) p \<Longrightarrow> run_returned (runs S ! p)"
  shows "gates_ok S (gs[t := g']) (bs[t := b'])"
proof -
  have even: "even j" if "g' = Entering j \<or> g' = Leaving j" for j
    using guard_even[of S gs bs t j] assms(1,3) assms(4)[OF that] by (simp add: gates_ok_def)
  have "bodies_ok S (gs[t := g']) (bs[t := b'])"
    using assms(1,2) not_awaits[OF assms(2)] unwait_gated[OF assms(2)] even
    by (auto simp: gates_ok_def bodies_ok_def nth_update_if awaits_def)
  moreover have "waits_ok S (bs[t := b'])"
  proof -
    have same: "awaits (bs[t := b'] ! k) p \<longleftrightarrow> k \<noteq> t \<and> awaits (bs ! k) p" if "k < length bs" for k p
      using that not_awaits[OF assms(2)] by (simp add: nth_update_if)
    have "run_returned (runs S ! p) \<or> (\<exists>k < length bs. k \<noteq> t \<and> awaits (bs ! k) p)" if "p < length (runs S)" for p
      using assms(1,5) that unfolding gates_ok_def waits_ok_def by blast
    then show ?thesis using assms(1) same by (simp add: gates_ok_def waits_ok_def cong: conj_cong) blast
  qed
  moreover have "guards_ok S (gs[t := g']) (bs[t := b'])"
  proof -
    have len: "length gs = length bs" using assms(1) by (simp add: gates_ok_def bodies_ok_def)
    have sub: "has_guard S (gs ! k) (bs ! k) j" if "has_guard S (gs[t := g'] ! k) (bs[t := b'] ! k) j" "k < length bs" for k j
      using that assms(4)[of j] has_guard_gated[OF assms(2), of S j] len by (auto simp: nth_update_if split: if_splits)
    then show ?thesis using assms(1) unfolding gates_ok_def guards_ok_def by (metis length_list_update)
  qed
  ultimately show ?thesis by (simp add: gates_ok_def)
qed

text \<open>A goroutine starts an attempt on mutex \<open>j\<close>; its gate does not change.\<close>

lemma gates_ok_begin:
  assumes ok: "gates_ok S gs bs" and t: "t < length bs"
    and g: "gated (gs ! t) ((if rd then MRLock j ident else MLock j ident) # rest)"
    and free: "\<And>p. awaits (bs ! t) p \<Longrightarrow> run_returned (runs S ! p) \<and> (run_quorum (runs S ! p) \<noteq> Some True \<or> gs ! t \<noteq> Outside)"
    and S': "S' = S\<lparr>runs := runs S @ [r]\<rparr>" and r: "run_dm r = j" "run_read r = rd" "\<not> run_returned r"
  shows "gates_ok S' gs (bs[t := Awaiting (length (runs S)) j ident rd # rest])"
proof -
  let ?b = "Awaiting (length (runs S)) j ident rd # rest"
  have old: "awaits (bs ! k) p \<Longrightarrow> k < length bs \<Longrightarrow> p < length (runs S)" for k p
    using ok by (fastforce simp: gates_ok_def bodies_ok_def awaits_def)
  have len: "length gs = length bs" using ok by (simp add: gates_ok_def bodies_ok_def)
  have same: "awaits (bs[t := ?b] ! k) p \<longleftrightarrow> (if k = t then p = length (runs S) else awaits (bs ! k) p)" if "k < length bs" for k p
    using that by (auto simp: nth_update_if awaits_def)
  have "bodies_ok S' gs (bs[t := ?b])"
    using ok g r by (auto simp: gates_ok_def bodies_ok_def nth_update_if unwait_def S' nth_append)
  moreover have "waits_ok S' (bs[t := ?b])"
  proof -
    have "run_returned (runs S' ! p) \<or> (\<exists>k < length bs. awaits (bs[t := ?b] ! k) p)" if p: "p < length (runs S')" for p
    proof (cases "p = length (runs S)")
      case True
      then show ?thesis using same[OF t] t by auto
    next
      case False
      then have p': "p < length (runs S)" "runs S' ! p = runs S ! p" using p by (auto simp: S' nth_append)
      then have "run_returned (runs S ! p) \<or> (\<exists>k < length bs. awaits (bs ! k) p)"
        using ok by (simp add: gates_ok_def waits_ok_def)
      then show ?thesis using p' free same False by (metis (full_types))
    qed
    moreover have "k = k'" if "k < length bs" "k' < length bs" "awaits (bs[t := ?b] ! k) p" "awaits (bs[t := ?b] ! k') p" for k k' p
      using that same old ok unfolding gates_ok_def waits_ok_def by (metis less_irrefl)
    ultimately show ?thesis by (simp add: waits_ok_def) blast
  qed
  moreover have "guards_ok S' gs (bs[t := ?b])"
  proof -
    have "has_guard S (gs ! k) (bs ! k) i" if "has_guard S' (gs ! k) (bs[t := ?b] ! k) i" "k < length bs" for k i
    proof (cases "k = t")
      case True
      then show ?thesis using that r(3) by (auto simp: has_guard_def S' nth_append)
    next
      case False
      then show ?thesis using that old[of k] by (auto simp: has_guard_def S' nth_append awaits_def)
    qed
    moreover have "mutexes S' = mutexes S" by (simp add: S')
    ultimately show ?thesis using ok len unfolding gates_ok_def guards_ok_def by (metis length_list_update)
  qed
  ultimately show ?thesis by (simp add: gates_ok_def)
qed

lemma gates_ok_spawn:
  assumes "gates_ok S gs bs" and "gated Outside b"
  shows "gates_ok S (gs @ [Outside]) (bs @ [b])"
proof -
  have len: "length gs = length bs" using assms(1) by (simp add: gates_ok_def bodies_ok_def)
  have same: "awaits ((bs @ [b]) ! k) p \<longleftrightarrow> k < length bs \<and> awaits (bs ! k) p" if "k < length (bs @ [b])" for k p
    using that not_awaits[OF assms(2)] by (auto simp: nth_append less_Suc_eq)
  have guard: "has_guard S ((gs @ [Outside]) ! k) ((bs @ [b]) ! k) j \<longleftrightarrow> k < length bs \<and> has_guard S (gs ! k) (bs ! k) j"
    if "k < length (bs @ [b])" for k j
    using that has_guard_gated[OF assms(2), of S] len by (auto simp: nth_append less_Suc_eq)
  have "bodies_ok S (gs @ [Outside]) (bs @ [b])"
    using assms not_awaits[OF assms(2)] unwait_gated[OF assms(2)]
    by (auto simp: gates_ok_def bodies_ok_def nth_append less_Suc_eq awaits_def)
  moreover have "waits_ok S (bs @ [b])"
    using assms(1) same unfolding gates_ok_def waits_ok_def by (metis length_append_singleton less_SucI)
  moreover have "guards_ok S (gs @ [Outside]) (bs @ [b])"
    using assms(1) guard unfolding gates_ok_def guards_ok_def by metis
  ultimately show ?thesis by (simp add: gates_ok_def)
qed

text \<open>The locks of a mutex \<open>j\<close> change that is not a guard, or is the guard of nobody.\<close>

lemma gates_ok_mutex:
  assumes "gates_ok S gs bs" and "odd j \<or> (\<forall>t < length bs. \<forall>i. \<not> has_guard S (gs ! t) (bs ! t) i)" and "runs S' = runs S"
    and "length (mutexes S') = length (mutexes S)" and "\<And>i. i \<noteq> j \<Longrightarrow> mutexes S' ! i = mutexes S ! i"
  shows "gates_ok S' gs bs"
proof -
  have same: "has_guard S' = has_guard S" using assms(3) by (simp add: has_guard_def fun_eq_iff)
  have b: "bodies_ok S gs bs" and w: "waits_ok S bs" and g: "guards_ok S gs bs" using assms(1) by (auto simp: gates_ok_def)
  have "active (writeLocks (mutexes S' ! i))" if "t < length bs" "has_guard S (gs ! t) (bs ! t) i" for t i
    using g that guard_even[OF b that] assms(2,5) by (metis guards_ok_def)
  then have "guards_ok S' gs bs" using g assms(4) unfolding guards_ok_def same by simp
  then show ?thesis using b w assms(3) by (simp add: gates_ok_def bodies_ok_def waits_ok_def)
qed

text \<open>The attempts go on without a return.\<close>

lemma gates_ok_runs:
  assumes "gates_ok S gs bs" and "mutexes S' = mutexes S" and "length (runs S') = length (runs S)"
    and "\<And>p. p < length (runs S) \<Longrightarrow> run_dm (runs S' ! p) = run_dm (runs S ! p) \<and> run_read (runs S' ! p) = run_read (runs S ! p) \<and>
      (run_returned (runs S ! p) \<longrightarrow> run_returned (runs S' ! p)) \<and>
      (even (run_dm (runs S ! p)) \<and> run_returned (runs S' ! p) \<and> run_quorum (runs S' ! p) = Some True \<longrightarrow>
         run_returned (runs S ! p) \<and> run_quorum (runs S ! p) = Some True)"
  shows "gates_ok S' gs bs"
proof -
  have b: "bodies_ok S gs bs" and w: "waits_ok S bs" and g: "guards_ok S gs bs" using assms(1) by (auto simp: gates_ok_def)
  have "has_guard S (gs ! t) (bs ! t) j" if "t < length bs" "has_guard S' (gs ! t) (bs ! t) j" for t j
  proof (cases "gs ! t = Outside")
    case True
    then obtain q ident rd rest where q: "bs ! t = Awaiting q j ident rd # rest" "run_returned (runs S' ! q)" "run_quorum (runs S' ! q) = Some True"
      using \<open>has_guard S' (gs ! t) (bs ! t) j\<close> by (auto simp: has_guard_def)
    then have "q < length (runs S)" "run_dm (runs S ! q) = j" "even j"
      using b \<open>t < length bs\<close> True by (fastforce simp: bodies_ok_def unwait_def gate_next_def split: if_splits)+
    with assms(4)[of q] q True show ?thesis by (auto simp: has_guard_def)
  qed (use that in \<open>auto simp: has_guard_def\<close>)
  then have "guards_ok S' gs bs" using g assms(2) unfolding guards_ok_def by metis
  moreover have "bodies_ok S' gs bs" using b assms(3,4) unfolding bodies_ok_def by metis
  moreover have "waits_ok S' bs" using w assms(3,4) unfolding waits_ok_def by metis
  ultimately show ?thesis by (simp add: gates_ok_def)
qed

text \<open>A guard attempt returns with its quorum: nobody had a guard before.\<close>

lemma gates_ok_enter:
  assumes ok: "gates_ok S gs bs" and p: "p < length (runs S)" and ret: "\<not> run_returned (runs S ! p)"
    and none: "\<And>t i. t < length bs \<Longrightarrow> \<not> has_guard S (gs ! t) (bs ! t) i"
    and S': "runs S' = (runs S)[p := (runs S ! p)\<lparr>run_returned := True\<rparr>]"
    and act: "run_dm (runs S ! p) < length (mutexes S')" "active (writeLocks (mutexes S' ! run_dm (runs S ! p)))"
  shows "gates_ok S' gs bs"
proof -
  have b: "bodies_ok S gs bs" and w: "waits_ok S bs" using ok by (auto simp: gates_ok_def)
  have guard: "awaits (bs ! t) p \<and> j = run_dm (runs S ! p)" if "t < length bs" "has_guard S' (gs ! t) (bs ! t) j" for t j
  proof -
    obtain q ident rd rest where q: "bs ! t = Awaiting q j ident rd # rest" "run_returned (runs S' ! q)" "run_quorum (runs S' ! q) = Some True" "gs ! t = Outside"
      using \<open>has_guard S' (gs ! t) (bs ! t) j\<close> none[OF \<open>t < length bs\<close>, of j] by (auto simp: has_guard_def)
    moreover have "q < length (runs S)" "run_dm (runs S ! q) = j" using b that(1) q(1) by (auto simp: bodies_ok_def)
    moreover have "q = p"
    proof (rule ccontr)
      assume "q \<noteq> p"
      then have "has_guard S (gs ! t) (bs ! t) j" using q S' by (auto simp: has_guard_def)
      with none that(1) show False by blast
    qed
    ultimately show ?thesis by (auto simp: awaits_def)
  qed
  have "guards_ok S' gs bs"
    using guard w act unfolding guards_ok_def waits_ok_def by metis
  moreover have same: "run_dm (runs S' ! k) = run_dm (runs S ! k)" "run_read (runs S' ! k) = run_read (runs S ! k)"
    "run_returned (runs S ! k) \<Longrightarrow> run_returned (runs S' ! k)" "length (runs S') = length (runs S)" for k
    using p S' by (cases "p = k"; simp)+
  moreover have "bodies_ok S' gs bs" using b same by (simp add: bodies_ok_def)
  moreover have "waits_ok S' bs" using w same(3,4) by (auto simp: waits_ok_def)
  ultimately show ?thesis by (simp add: gates_ok_def)
qed

subsection \<open>The invariant of a guarded program\<close>

definition ns_names :: "nat \<Rightarrow> string \<Rightarrow> string list" where
  "ns_names m nm = concat (replicate m (NewDRWMutexNoWriterStarvation nm))"

lemma ns_names_nth: "j < length (ns_names m nm) \<Longrightarrow> ns_names m nm ! j = (if even j then nm @ excl_suffix else nm)"
proof (induction m arbitrary: j)
  case (Suc m)
  have "ns_names (Suc m) nm = (nm @ excl_suffix) # nm # ns_names m nm"
    by (simp add: ns_names_def NewDRWMutexNoWriterStarvation_def)
  with Suc show ?case by (cases j; cases "j - 1") auto
qed (simp add: ns_names_def)

definition ns_inv :: "'s world \<Rightarrow> bool" where
  "ns_inv W \<longleftrightarrow> crashed (sys W) = {} \<and> dead W = {} \<and> (\<exists>gs. gates_ok (sys W) gs (map body (threads W)))"

lemma ns_inv_return:
  assumes reach: "reachable chaos_server chaos_init ds (ns_names m nm) S" and ok: "dsync_ok ds" and "crashed S = {}"
    and inv: "gates_ok S gs bs" and p: "p < length (runs S)" and ret: "\<not> run_returned (runs S ! p)"
    and q: "run_quorum (runs S ! p) = Some True" and j: "j = run_dm (runs S ! p)"
    and S': "S' = S\<lparr>runs := (runs S)[p := (runs S ! p)\<lparr>run_returned := True\<rparr>],
      mutexes := (mutexes S)[j := store_locks (run_read (runs S ! p)) (run_locks (runs S ! p)) (mutexes S ! j)]\<rparr>"
  shows "gates_ok S' gs bs"
proof -
  have wf: "sys_wf ds (ns_names m nm) S" using reach ok by (rule reachable_wf)
  have r: "run_wf ds (ns_names m nm) (runs S ! p)" using wf p by (rule sys_wf_run)
  have "map Name (mutexes S) = ns_names m nm" using wf by (simp add: sys_wf_def)
  then have names: "i < length (mutexes S) \<Longrightarrow> Name (mutexes S ! i) = ns_names m nm ! i" "length (mutexes S) = length (ns_names m nm)" for i
    by (metis nth_map, metis length_map)
  have jl: "j < length (mutexes S)" "run_name (runs S ! p) = ns_names m nm ! j" using r j names(2) by (auto simp: run_wf_def)
  show ?thesis
  proof (cases "even j")
    case True
    have wr: "\<not> run_read (runs S ! p)"
    proof -
      obtain t where "t < length bs" "awaits (bs ! t) p" using inv p ret by (auto simp: gates_ok_def waits_ok_def)
      then obtain ident rest where "gated (gs ! t) ((if run_read (runs S ! p) then MRLock j ident else MLock j ident) # rest)"
        "\<forall>i. gs ! t = Entering i \<or> gs ! t = Leaving i \<longrightarrow> even i"
        using inv j unfolding gates_ok_def bodies_ok_def awaits_def unwait_def by fastforce
      then show ?thesis using True by (auto simp: gate_next_def split: gate.splits if_splits)
    qed
    have none: "\<not> has_guard S (gs ! t) (bs ! t) i" if "t < length bs" for t i
    proof
      assume guard: "has_guard S (gs ! t) (bs ! t) i"
      then have i: "i < length (mutexes S)" "active (writeLocks (mutexes S ! i))" "even i"
        using inv that guard_even[OF _ that guard] by (auto simp: gates_ok_def guards_ok_def)
      moreover have "writers S (Name (mutexes S ! i)) \<le> 1"
        using chaos.at_most_one_writer[OF reach ok] assms(3) dsync_okD[OF ok] by simp
      moreover have "run_name (runs S ! p) = Name (mutexes S ! i)"
        using names i jl True ns_names_nth[of _ m nm] by simp
      ultimately show False using writer_slot_free[OF p i(1) q ret wr] by blast
    qed
    have "active (run_locks (runs S ! p))" "length (run_locks (runs S ! p)) = length (writeLocks (mutexes S ! j))"
      using quorum_active[OF ok, of "run_locks (runs S ! p)" "run_read (runs S ! p)"] r q sys_wf_dm[OF wf jl(1)]
      by (simp_all add: run_wf_def dm_wf_def)
    then have "active (writeLocks (mutexes S' ! j))" "j < length (mutexes S')"
      using wr jl(1) by (simp_all add: S' store_locks_def go_copy_same)
    with gates_ok_enter[OF inv p ret none, of S'] j show ?thesis by (simp add: S')
  next
    case False
    let ?S = "S\<lparr>runs := (runs S)[p := (runs S ! p)\<lparr>run_returned := True\<rparr>]\<rparr>"
    have "gates_ok ?S gs bs"
      by (rule gates_ok_runs[OF inv]) (use p False j in \<open>auto simp: nth_list_update\<close>)
    then show ?thesis by (rule gates_ok_mutex[where j = j]) (use False in \<open>simp_all add: S'\<close>)
  qed
qed

lemma ns_inv_net:
  assumes reach: "reachable chaos_server chaos_init ds (ns_names m nm) (sys W)" and ok: "dsync_ok ds" and inv: "ns_inv W"
    and b: "action_ok ds W b" "exec chaos_server chaos_init ds b (sys W) = Some S"
  shows "ns_inv (W\<lparr>sys := S, used := u\<rparr>)"
proof -
  obtain gs where gs: "gates_ok (sys W) gs (map body (threads W))" using inv by (auto simp: ns_inv_def)
  have cr: "crashed (sys W) = {}" "crashed S = {}" using inv net_crashed[OF b] by (auto simp: ns_inv_def)
  have "gates_ok S gs (map body (threads W))"
  proof (cases "\<exists>p. b = Return p")
    case True
    then obtain p q where p: "p < length (runs (sys W))" "\<not> run_returned (runs (sys W) ! p)" "run_quorum (runs (sys W) ! p) = Some q"
      and S: "S = (sys W)\<lparr>runs := (runs (sys W))[p := (runs (sys W) ! p)\<lparr>run_returned := True\<rparr>],
        mutexes := (if q then (mutexes (sys W))[run_dm (runs (sys W) ! p) := store_locks (run_read (runs (sys W) ! p))
         (run_locks (runs (sys W) ! p)) (mutexes (sys W) ! run_dm (runs (sys W) ! p))] else mutexes (sys W))\<rparr>"
      using b(2) by (auto simp: exec_return_def Let_def split: if_splits option.splits)
    show ?thesis
    proof (cases q)
      case True
      with ns_inv_return[OF reach ok cr(1) gs p(1,2) _ refl] p(3) S show ?thesis by simp
    next
      case False
      then show ?thesis using S p by (intro gates_ok_runs[OF gs]) (auto simp: nth_list_update)
    qed
  next
    case False
    then have same: "mutexes S = mutexes (sys W)" "\<And>p. p < length (runs S) \<Longrightarrow> run_returned (runs S ! p) = run_returned (runs (sys W) ! p)"
      using net_not_return[OF b] by auto
    have decided: "run_quorum (runs S ! p) = run_quorum (runs (sys W) ! p)" if "p < length (runs S)" "run_returned (runs S ! p)" for p
    proof (rule ccontr)
      assume "run_quorum (runs S ! p) \<noteq> run_quorum (runs (sys W) ! p)"
      then have "run_phase (runs (sys W) ! p) = Deciding" "run_returned (runs (sys W) ! p)" "p < length (runs (sys W))"
        using net_runs[OF b] that by auto
      with sys_wf_run[OF reachable_wf[OF reach ok]] show False by (fastforce simp: run_wf_def)
    qed
    show ?thesis
      using net_runs[OF b] same decided by (intro gates_ok_runs[OF gs]) auto
  qed
  then show ?thesis using inv cr by (auto simp: ns_inv_def)
qed

lemma run_stmt_no_kill:
  assumes "run_stmt srv init ds t s rest W = Some W'" and "allowed s \<or> (\<exists>p j ident rd. s = Awaiting p j ident rd)"
  shows "crashed (sys W') = crashed (sys W) \<and> dead W' = dead W"
  using assms
  by (cases s) (auto simp: begin_attempt_def release_mutex_def exec_unlock_def Let_def split: if_splits option.splits sum.splits)

text \<open>One statement of goroutine \<open>t\<close>; what it does to the goroutines and to the transition system.\<close>

lemma ns_unlock:
  assumes "gates_ok S gs bs" and t: "t < length bs" "bs ! t = s # rest" "gated (gs ! t) (s # rest)"
    and s: "s = (if rd then MRUnlock j else MUnlock j)" and "exec_unlock rd j S = Some S'"
  shows "\<exists>gs'. gates_ok S' gs' (bs[t := rest])"
proof -
  have S': "runs S' = runs S" "length (mutexes S') = length (mutexes S)" "\<And>i. i \<noteq> j \<Longrightarrow> mutexes S' ! i = mutexes S ! i"
    using assms(6) by (auto simp: exec_unlock_def Let_def split: if_splits sum.splits)
  have rest: "gated Outside rest" "gs ! t = Outside \<and> odd j \<or> gs ! t = Leaving j"
    using t(3) s by (auto simp: gate_next_def split: if_splits gate.splits)
  have "\<not> awaits (bs ! t) p" for p using not_awaits[OF t(3)] t(2) by simp
  then have out: "gates_ok S (gs[t := Outside]) (bs[t := rest])"
    using gates_ok_goto[OF assms(1) rest(1) t(1)] by simp
  moreover have "\<not> has_guard S (gs[t := Outside] ! k) (bs[t := rest] ! k) i" if "k < length bs" "gs ! t = Leaving j" for k i
  proof (cases "k = t")
    case True
    then show ?thesis using that has_guard_gated[OF rest(1)] assms(1) by (simp add: gates_ok_def bodies_ok_def)
  next
    case False
    moreover have "has_guard S (gs ! t) (bs ! t) j" using that(2) by (simp add: has_guard_def)
    ultimately show ?thesis using assms(1) that(1) t(1) by (metis gates_ok_def guards_ok_def nth_list_update_neq)
  qed
  ultimately have "gates_ok S' (gs[t := Outside]) (bs[t := rest])"
    using rest(2) by (intro gates_ok_mutex[OF _ _ S']) auto
  then show ?thesis ..
qed

lemma ns_begin:
  assumes "gates_ok (sys W) gs (map body (threads W))" and t: "t < length (threads W)"
    and "gated (gs ! t) ((if rd then MRLock j ident else MLock j ident) # rest)"
    and "\<And>p. awaits (body (threads W ! t)) p \<Longrightarrow> run_returned (runs (sys W) ! p) \<and> run_quorum (runs (sys W) ! p) \<noteq> Some True"
    and "begin_attempt srv init ds t j ident rd rest W = Some W'"
  shows "gates_ok (sys W') gs (map body (threads W'))"
proof -
  have W': "W' = set_body t (Awaiting (length (runs (sys W))) j ident rd # rest)
      (W\<lparr>sys := (sys W)\<lparr>runs := runs (sys W) @ [start_run ds j (Name (mutexes (sys W) ! j)) ident [] rd]\<rparr>\<rparr>)"
    using assms(5) by (auto simp: begin_attempt_def split: if_splits)
  have "map body (threads W') = (map body (threads W))[t := Awaiting (length (runs (sys W))) j ident rd # rest]"
    by (simp add: W' set_body_def map_update)
  moreover have "gates_ok (sys W') gs ((map body (threads W))[t := Awaiting (length (runs (sys W))) j ident rd # rest])"
    by (rule gates_ok_begin[OF assms(1) _ assms(3), where r = "start_run ds j (Name (mutexes (sys W) ! j)) ident [] rd"]) (use assms(4) t in \<open>simp_all add: W'\<close>)
  ultimately show ?thesis by simp
qed

lemma ns_goto:
  assumes "gates_ok (sys W) gs (map body (threads W))" and "t < length (threads W)" and "gated g' b"
    and "\<And>j. g' = Entering j \<or> g' = Leaving j \<Longrightarrow> has_guard (sys W) (gs ! t) (body (threads W ! t)) j"
    and "\<And>p. awaits (body (threads W ! t)) p \<Longrightarrow> run_returned (runs (sys W) ! p)"
  shows "gates_ok (sys W) (gs[t := g']) (map body (threads (set_body t b W)))"
  using gates_ok_goto[OF assms(1,3), of t] assms(2,4,5) by (simp add: set_body_def map_update)

lemma ns_await:
  assumes ok: "gates_ok (sys W) gs (map body (threads W))" and t: "t < length (threads W)" "body (threads W ! t) = Awaiting p j ident rd # rest"
    and run: "run_stmt srv init ds t (Awaiting p j ident rd) rest W = Some W'"
  shows "\<exists>gs'. gates_ok (sys W') gs' (map body (threads W'))"
proof -
  let ?s = "if rd then MRLock j ident else MLock j ident"
  have ret: "run_returned (runs (sys W) ! p)" using run by (auto simp: Let_def split: if_splits)
  have g: "gated (gs ! t) (?s # rest)"
    using ok t by (fastforce simp: gates_ok_def bodies_ok_def unwait_def)
  then obtain g' where g': "gate_next (gs ! t) ?s = Some g'" "gated g' rest" by (auto split: option.splits if_splits)
  have aw: "awaits (body (threads W ! t)) k \<longleftrightarrow> k = p" for k using t(2) by (auto simp: awaits_def)
  show ?thesis
  proof (cases "run_quorum (runs (sys W) ! p) = Some True")
    case True
    have "has_guard (sys W) (gs ! t) (body (threads W ! t)) i" if "g' = Entering i \<or> g' = Leaving i" for i
      using that g'(1) ret True t(2) by (auto simp: has_guard_def gate_next_def split: gate.splits if_splits)
    then have "gates_ok (sys W) (gs[t := g']) (map body (threads (set_body t rest W)))"
      using ns_goto[OF ok t(1) g'(2)] aw ret by simp
    then show ?thesis using run ret True by (auto simp: Let_def)
  next
    case False
    then have "begin_attempt srv init ds t j ident rd rest W = Some W'" using run ret by (simp add: Let_def)
    then have "gates_ok (sys W') gs (map body (threads W'))"
      by (rule ns_begin[OF ok t(1) g, rotated]) (use aw ret False in auto)
    then show ?thesis ..
  qed
qed

lemma ns_release:
  assumes ok: "gates_ok (sys W) gs (map body (threads W))" and t: "t < length (threads W)"
    and b: "body (threads W ! t) = (if rd then MRUnlock j else MUnlock j) # rest"
    and run: "release_mutex srv init ds t j rd rest W = Some W'"
  shows "\<exists>gs'. gates_ok (sys W') gs' (map body (threads W'))"
proof (cases "exec_unlock rd j (sys W)")
  case None
  then show ?thesis using run ok by (cases rd) (auto simp: release_mutex_def split: if_splits)
next
  case (Some S)
  then have W': "W' = set_body t rest (W\<lparr>sys := S\<rparr>)" using run by (cases rd) (auto simp: release_mutex_def split: if_splits)
  have "gated (gs ! t) (unwait (body (threads W ! t)))" using ok t by (simp add: gates_ok_def bodies_ok_def)
  then have "gated (gs ! t) ((if rd then MRUnlock j else MUnlock j) # rest)" using b by (simp add: unwait_def split: if_splits)
  then show ?thesis
    using ns_unlock[OF ok _ _ _ refl Some, of t rest] t b W' by (simp add: set_body_def map_update)
qed

lemma ns_inv_stmt:
  assumes inv: "ns_inv W" and t: "t < length (threads W)" "body (threads W ! t) = s # rest"
    and run: "run_stmt srv init ds t s rest W = Some W'"
  shows "ns_inv W'"
proof -
  obtain gs where gs: "gates_ok (sys W) gs (map body (threads W))" using inv by (auto simp: ns_inv_def)
  have g: "gated (gs ! t) (unwait (s # rest))" using gs t by (fastforce simp: gates_ok_def bodies_ok_def)
  have kind: "allowed s \<or> (\<exists>p j ident rd. s = Awaiting p j ident rd)"
    using g by (auto simp: unwait_def split: stmt.splits)
  have out: "gates_ok (sys W) (gs[t := Outside]) (map body (threads (set_body t b W)))"
    if "gated Outside b" "gated (gs ! t) (s # rest)" for b
    using ns_goto[OF gs t(1) that(1)] not_awaits[OF that(2)] t(2) by simp
  have goes: "\<exists>gs'. gates_ok (sys W') gs' (map body (threads W'))"
    if "gated (gs ! t) (s # rest)" "gated Outside b" "sys W' = sys W" "threads W' = threads (set_body t b W)" for b
    using out[OF that(2,1)] that(3,4) by auto
  have rest: "gated Outside rest" if "gated (gs ! t) (s # rest)" "gate_next (gs ! t) s = (if gs ! t = Outside then Some Outside else None)"
    using that by (auto split: if_splits)
  have "\<exists>gs'. gates_ok (sys W') gs' (map body (threads W'))"
  proof (cases s)
    case (Awaiting p j ident rd)
    then show ?thesis using ns_await[OF gs t(1)] t(2) run by blast
  next
    case (MLock j ident)
    with g run have "gated (gs ! t) ((if False then MRLock j ident else MLock j ident) # rest)"
      "begin_attempt srv init ds t j ident False rest W = Some W'" by (simp_all add: unwait_def)
    moreover have "\<not> awaits (body (threads W ! t)) p" for p using MLock t(2) by (simp add: awaits_def)
    ultimately have "gates_ok (sys W') gs (map body (threads W'))" by (intro ns_begin[OF gs t(1)]) auto
    then show ?thesis ..
  next
    case (MRLock j ident)
    with g run have "gated (gs ! t) ((if True then MRLock j ident else MLock j ident) # rest)"
      "begin_attempt srv init ds t j ident True rest W = Some W'" by (simp_all add: unwait_def)
    moreover have "\<not> awaits (body (threads W ! t)) p" for p using MRLock t(2) by (simp add: awaits_def)
    ultimately have "gates_ok (sys W') gs (map body (threads W'))" by (intro ns_begin[OF gs t(1)]) auto
    then show ?thesis ..
  next
    case (MUnlock j)
    then show ?thesis using t(2) run by (intro ns_release[OF gs t(1), where rd = False and j = j and rest = rest]) auto
  next
    case (MRUnlock j)
    then show ?thesis using t(2) run by (intro ns_release[OF gs t(1), where rd = True and j = j and rest = rest]) auto
  next
    case (Go b)
    with g have "gated Outside rest" "gated Outside b" by (auto simp: unwait_def gate_next_def split: if_splits)
    moreover have "gated (gs ! t) (s # rest)" using g Go by (simp add: unwait_def)
    ultimately have "gates_ok (sys W) (gs[t := Outside] @ [Outside]) (map body (threads (set_body t rest W)) @ [b])"
      using gates_ok_spawn[OF out] by blast
    then show ?thesis using Go run by auto
  next
    case (Sleep d)
    then show ?thesis using g rest run
      by (intro goes[of "Until (now W + d) # rest"]) (auto simp: unwait_def gate_next_def)
  next
    case (IfSince d b1 b2)
    with g rest have "gated Outside rest" "gated Outside b1" "gated Outside b2" by (simp_all add: unwait_def gate_next_def)
    then show ?thesis using g IfSince run gated_append
      by (intro goes[of "(if now W > d then b1 else b2) @ rest"]) (auto simp: unwait_def)
  next
    case (LogFatal msg)
    then show ?thesis using gs run by auto
  next
    case (Until d)
    with g rest run show ?thesis by (intro goes[of rest]) (auto simp: unwait_def gate_next_def split: if_splits)
  next
    case (WgAdd k)
    with g rest run show ?thesis by (intro goes[of rest]) (auto simp: unwait_def gate_next_def split: if_splits)
  next
    case WgDone
    with g rest run show ?thesis by (intro goes[of rest]) (auto simp: unwait_def gate_next_def split: if_splits)
  next
    case WgWait
    with g rest run show ?thesis by (intro goes[of rest]) (auto simp: unwait_def gate_next_def split: if_splits)
  next
    case Passed
    with g rest run show ?thesis by (intro goes[of rest]) (auto simp: unwait_def gate_next_def split: if_splits)
  qed (use kind in auto)
  then show ?thesis using inv run_stmt_no_kill[OF run kind] by (auto simp: ns_inv_def)
qed

lemma ns_inv_init:
  assumes "gated Outside prog"
  shows "ns_inv (world_init init ds names prog)"
proof -
  let ?S = "sys_init init ds names"
  have "bodies_ok ?S [Outside] [prog]"
    using not_awaits[OF assms] assms by (auto simp: bodies_ok_def unwait_gated[OF assms] awaits_def)
  moreover have "waits_ok ?S [prog]" by (simp add: waits_ok_def sys_init_def)
  moreover have "guards_ok ?S [Outside] [prog]" by (simp add: guards_ok_def has_guard_gated[OF assms])
  ultimately have "gates_ok ?S [Outside] [prog]" by (simp add: gates_ok_def)
  then show ?thesis by (auto simp: ns_inv_def world_init_def sys_init_def intro!: exI[of _ "[Outside]"])
qed

lemma ns_inv_other:
  "ns_inv W \<Longrightarrow> ns_inv (W\<lparr>now := x\<rparr>)" "ns_inv W \<Longrightarrow> ns_inv (W\<lparr>booting := y, listening := z\<rparr>)"
  by (simp_all add: ns_inv_def)

lemma ns_inv_expire:
  assumes "ns_inv W" and "t < length (threads W)" and "body (threads W ! t) = SelectUntil d b1 b2 # rest"
  shows False
  using assms by (fastforce simp: ns_inv_def gates_ok_def bodies_ok_def unwait_def)

lemma ns_reach:
  assumes "world_reach chaos_server chaos_init ds (ns_names m nm) prog W" and "dsync_ok ds" and "gated Outside prog"
  shows "ns_inv W"
proof (rule driver_invariant.reach[OF _ assms(1)], unfold_locales)
  show "ns_inv (W\<lparr>sys := S, used := u\<rparr>)"
    if "world_reach chaos_server chaos_init ds (ns_names m nm) prog W" "ns_inv W" "action_ok ds W b"
      "exec chaos_server chaos_init ds b (sys W) = Some S" for W b S u
    using ns_inv_net[OF _ assms(2) that(2-4)] world_reach_sys[OF that(1) assms(2)] by blast
qed (blast intro: ns_inv_init[OF assms(3)] ns_inv_other ns_inv_stmt dest: ns_inv_expire)+

subsection \<open>No reader overtakes a waiting writer\<close>

text \<open>The number of holders grows only when an attempt counts its quorum.\<close>

lemma holders_grow:
  assumes "sys_step srv init ds S S'" and ok: "dsync_ok ds" and wf: "sys_wf ds names S" and one: "\<And>nm. writers S nm \<le> 1"
    and more: "holders nm rd S < holders nm rd S'"
  shows "\<exists>p < length (runs S). run_phase (runs S ! p) = Deciding \<and> run_name (runs S ! p) = nm \<and> run_read (runs S ! p) = rd"
proof -
  note n = dsync_okD(1)[OF ok]
  show ?thesis
    using assms(1)
  proof cases
    case (decided p r)
    have "run_holds nm rd r < run_holds nm rd (decide ds r)"
      using holders_run_update[OF decided(2), of nm rd "decide ds r"] more decided(1,3) by simp
    then have "run_name r = nm \<and> run_read r = rd" by (auto simp: run_holds_def run_held_def decide_def split: if_splits)
    with decided show ?thesis by blast
  next
    case (return p r q j)
    then show ?thesis using holders_return[OF ok wf return(2,3,4,5,7) one] more by (simp add: same_holders_def)
  next
    case (unlock_w j locks dm')
    then show ?thesis
      using holders_unlock[OF wf n unlock_w(2), of locks dm' False] more by (auto simp: changes_by_def split: if_splits)
  next
    case (unlock_r j locks dm')
    then show ?thesis
      using holders_unlock[OF wf n unlock_r(2), of locks dm' True] more by (auto simp: changes_by_def split: if_splits)
  next
    case (start j ident source rd)
    then show ?thesis using more by (simp add: holders_def)
  qed (use more in \<open>simp_all add: holders_run_same\<close>)
qed

text \<open>The attempt on a lock belongs to the goroutine that has the guard.\<close>

lemma rw_attempt_guarded:
  assumes inv: "gates_ok S gs bs" and wf: "sys_wf ds (ns_names m nm) S" and p: "p < length (runs S)" "\<not> run_returned (runs S ! p)"
    and name: "run_name (runs S ! p) = nm"
  shows "\<exists>t < length bs. \<exists>j ident rest. bs ! t = Awaiting p (Suc j) ident (run_read (runs S ! p)) # rest \<and> gs ! t = Entering j"
proof -
  have r: "run_wf ds (ns_names m nm) (runs S ! p)" using wf p(1) by (rule sys_wf_run)
  then have odd: "odd (run_dm (runs S ! p))"
    using name ns_names_nth[of "run_dm (runs S ! p)" m nm] by (auto simp: run_wf_def excl_suffix_def split: if_splits)
  obtain t j ident rd rest where t: "t < length bs" "bs ! t = Awaiting p j ident rd # rest"
    using inv p by (auto simp: gates_ok_def waits_ok_def awaits_def)
  have j: "j = run_dm (runs S ! p)" "rd = run_read (runs S ! p)"
    using inv t unfolding gates_ok_def bodies_ok_def by blast+
  have g: "gated (gs ! t) ((if rd then MRLock j ident else MLock j ident) # rest)"
  proof -
    have "gated (gs ! t) (unwait (bs ! t))" using inv t(1) by (simp add: gates_ok_def bodies_ok_def)
    then show ?thesis by (simp add: t(2) unwait_def)
  qed
  have "odd j" using odd unfolding j(1) .
  with g obtain i where "gs ! t = Entering i" "j = Suc i"
    by (auto simp: gate_next_def split: gate.splits if_splits option.splits)
  with t j(2) have "bs ! t = Awaiting p (Suc i) ident (run_read (runs S ! p)) # rest" "gs ! t = Entering i" by simp_all
  with t(1) show ?thesis by (intro exI conjI)
qed

text \<open>(C11) The guarded mutex does not starve writers: in every run of any program of goroutines that use guarded
  mutexes, while a goroutine waits for the write lock behind its guard, no step lets a further reader in.\<close>

theorem waiting_writer_not_overtaken:
  assumes "world_reach chaos_server chaos_init ds (ns_names m nm) prog W" and "dsync_ok ds" and "guarded_program prog"
    and "t < length (threads W)" and "body (threads W ! t) = Awaiting p (rw d) ident False # rest"
    and "world_exec chaos_server chaos_init ds a W = Some W'"
  shows "readers (sys W') nm \<le> readers (sys W) nm"
proof (rule ccontr)
  assume "\<not> readers (sys W') nm \<le> readers (sys W) nm"
  then have more: "holders nm True (sys W) < holders nm True (sys W')" by (simp add: readers_def length_held)
  have reach: "reachable chaos_server chaos_init ds (ns_names m nm) (sys W)" and wok: "world_ok chaos_init ds W"
    using world_reach_sys[OF assms(1,2)] by auto
  note wf = reachable_wf[OF reach assms(2)]
  obtain gs where gs: "gates_ok (sys W) gs (map body (threads W))" and cr: "crashed (sys W) = {}"
    using ns_reach[OF assms(1,2) guarded_program_gated[OF assms(3)]] by (auto simp: ns_inv_def)
  have one: "writers (sys W) x \<le> 1" for x
    using chaos.at_most_one_writer[OF reach assms(2), of x] cr dsync_okD[OF assms(2)] by simp
  have "sys_step chaos_server chaos_init ds (sys W) (sys W')"
    using world_step[OF assms(6) wok wf assms(2)] more by auto
  from holders_grow[OF this assms(2) wf one more] obtain q where q: "q < length (runs (sys W))" "run_phase (runs (sys W) ! q) = Deciding"
    "run_name (runs (sys W) ! q) = nm" "run_read (runs (sys W) ! q)" by auto
  then have "\<not> run_returned (runs (sys W) ! q)" using sys_wf_run[OF wf q(1)] by (auto simp: run_wf_def)
  from rw_attempt_guarded[OF gs wf q(1) this q(3)] obtain t' j ident' rest' where t': "t' < length (threads W)"
    "body (threads W ! t') = Awaiting q (Suc j) ident' True # rest'" "gs ! t' = Entering j"
    using q(4) by auto
  have "gated (gs ! t) (unwait (body (threads W ! t)))" using gs assms(4) by (simp add: gates_ok_def bodies_ok_def)
  then have "gs ! t = Entering (excl d)"
    using assms(5) by (auto simp: unwait_def gate_next_def rw_def excl_def split: gate.splits if_splits)
  then have "has_guard (sys W) (gs ! t) (map body (threads W) ! t) (excl d)" "has_guard (sys W) (gs ! t') (map body (threads W) ! t') j"
    using t'(3) by (simp_all add: has_guard_def)
  then have "t = t'" using gs assms(4) t'(1) unfolding gates_ok_def guards_ok_def by (metis length_map)
  with t'(2) assms(5) show False by simp
qed

text \<open>A run in which the second reader waits for the guard while the writer waits for the first reader.\<close>

definition overtaking_blocked :: "clock event list" where
  "overtaking_blocked =
     [Step 0] @ granted 0 [0, 1, 2, 3] (\<lambda>_. 1) @ [Step 0, Step 0] @ granted 1 [0, 1, 2, 3] (\<lambda>_. 2) @ [Step 0, Step 0] @
     map (\<lambda>e. Net (UnlockSend 0 Delivered e)) (replicate 4 (\<lambda>_. 3)) @
     [Step 0, Step 0, Step 0, Step 0] @ granted 2 [0, 1, 2, 3] (\<lambda>_. 4) @ [Step 0, Step 0]"

theorem waiting_writer_not_overtaken_witness:
  "\<exists>W W' rest. world_reach chaos_server chaos_init ds_four (ns_names 1 ''test'') (testWriterStarvation True) W \<and>
     body (threads W ! 0) = Awaiting 3 (rw 0) ''Lock'' False # rest \<and> readers (sys W) ''test'' = 1 \<and>
     world_exec chaos_server chaos_init ds_four (Step 2 :: clock event) W = Some W' \<and> readers (sys W') ''test'' \<le> 1"
proof -
  have "map_option (\<lambda>W. (length (threads W), body (threads W ! 0) = Awaiting 3 (rw 0) ''Lock'' False # tl (body (threads W ! 0)),
       readers (sys W) ''test'', (world_exec chaos_server chaos_init ds_four (Step 2 :: clock event) W \<noteq> None)))
     (world_all chaos_server chaos_init ds_four overtaking_blocked
       (world_init chaos_init ds_four (ns_names 1 ''test'') (testWriterStarvation True))) = Some (3, True, 1, True)"
    by code_simp
  from world_scenario[OF this] obtain W W' where W: "world_reach chaos_server chaos_init ds_four (ns_names 1 ''test'') (testWriterStarvation True) W"
    "length (threads W) = 3" "body (threads W ! 0) = Awaiting 3 (rw 0) ''Lock'' False # tl (body (threads W ! 0))" "readers (sys W) ''test'' = 1"
    "world_exec chaos_server chaos_init ds_four (Step 2 :: clock event) W = Some W'" by (auto simp del: world_exec.simps)
  with waiting_writer_not_overtaken[OF W(1) ds_four_ok guarded_testWriterStarvation _ W(3,5)] W(2) have "readers (sys W') ''test'' \<le> 1" by simp
  with W show ?thesis by blast
qed

end
