(* ===== verification/Acquired_Locks.thy ===== *)
theory Acquired_Locks
  imports Driver_Frame
begin

section \<open>Tests that report an acquired lock as a failure\<close>

text \<open>
  A goroutine locks a mutex and sends on the channel; the driver waits for the channel and calls
  \<^verbatim>\<open>log.Fatalln\<close> when it receives. In every run of such a program a failure means that the mutex holds its
  write lock: the invariant follows the lock from the quorum through the return of the attempt and the channel to the failure.
\<close>

definition has_write :: "nat \<Rightarrow> 's sys \<Rightarrow> bool" where
  "has_write j S \<longleftrightarrow> active (writeLocks (mutexes S ! j))"

text \<open>What a goroutine may still do with mutex \<open>j\<close> when it does (\<open>hw\<close>) or does not know that the mutex holds the write
  lock: it never unlocks, sends only when it knows, and fails only with \<open>msg\<close> and when it knows. Receiving from the channel
  is knowing.\<close>

function sends_ok :: "nat \<Rightarrow> string \<Rightarrow> bool \<Rightarrow> stmt list \<Rightarrow> bool" where
  "sends_ok j msg hw [] = True"
| "sends_ok j msg hw (s # b) =
     (case s of
        SendCh \<Rightarrow> hw \<and> sends_ok j msg hw b
      | LogFatal m \<Rightarrow> hw \<and> m = msg
      | MLock i ident \<Rightarrow> sends_ok j msg (hw \<or> i = j) b
      | Awaiting p i ident rd \<Rightarrow> False
      | MUnlock i \<Rightarrow> i \<noteq> j \<and> sends_ok j msg hw b
      | Go b' \<Rightarrow> sends_ok j msg False b' \<and> sends_ok j msg hw b
      | Select d b1 b2 \<Rightarrow> sends_ok j msg True (b1 @ b) \<and> sends_ok j msg hw (b2 @ b)
      | SelectUntil d b1 b2 \<Rightarrow> sends_ok j msg True (b1 @ b) \<and> sends_ok j msg hw (b2 @ b)
      | IfSince d b1 b2 \<Rightarrow> sends_ok j msg hw (b1 @ b) \<and> sends_ok j msg hw (b2 @ b)
      | _ \<Rightarrow> sends_ok j msg hw b)"
  by pat_completeness auto
termination
  by (relation "measure (\<lambda>(_, _, _, b). size_list size b)") auto

lemma sends_ok_True: "sends_ok j msg hw b \<Longrightarrow> sends_ok j msg True b"
proof (induction "size_list size b" arbitrary: hw b rule: less_induct)
  case less
  show ?case
  proof (cases b)
    case (Cons s rest)
    have rest: "sends_ok j msg True rest" if "sends_ok j msg x rest" for x
      using less(1)[OF _ that] Cons by simp
    have app: "sends_ok j msg True (c @ rest)" if "sends_ok j msg x (c @ rest)" "size_list size c < size s" for x c
      using less(1)[OF _ that(1)] that(2) Cons by simp
    show ?thesis using less(2) unfolding Cons by (cases s) (auto intro: rest app)
  qed simp
qed

lemma sends_ok_mono: "sends_ok j msg hw b \<Longrightarrow> (hw \<Longrightarrow> hw') \<Longrightarrow> sends_ok j msg hw' b"
  using sends_ok_True by (cases hw'; cases hw) simp_all

text \<open>A goroutine, which may wait for an attempt.\<close>

definition body_ok :: "nat \<Rightarrow> string \<Rightarrow> 's sys \<Rightarrow> stmt list \<Rightarrow> bool" where
  "body_ok j msg S b \<longleftrightarrow>
     (case b of
        Awaiting p i ident rd # rest \<Rightarrow> p < length (runs S) \<and> run_dm (runs S ! p) = i \<and> run_read (runs S ! p) = rd \<and>
          sends_ok j msg (has_write j S \<or> i = j \<and> \<not> rd) rest
      | _ \<Rightarrow> sends_ok j msg (has_write j S) b)"

lemma body_okI: "sends_ok j msg (has_write j S) b \<Longrightarrow> body_ok j msg S b"
  by (auto simp: body_ok_def split: list.splits stmt.splits)

lemma body_ok_cases:
  assumes "body_ok j msg S b"
  obtains (idle) "sends_ok j msg (has_write j S) b"
    | (waits) p i ident rd rest where "b = Awaiting p i ident rd # rest" and "p < length (runs S)" and "run_dm (runs S ! p) = i"
        and "run_read (runs S ! p) = rd" and "sends_ok j msg (has_write j S \<or> i = j \<and> \<not> rd) rest"
  using assms by (cases b; cases "hd b") (auto simp: body_ok_def simp del: sends_ok.simps)

definition granted_held :: "nat \<Rightarrow> 's sys \<Rightarrow> bool" where
  "granted_held j S \<longleftrightarrow> (\<forall>p < length (runs S). run_dm (runs S ! p) = j \<longrightarrow> \<not> run_read (runs S ! p) \<longrightarrow>
     run_returned (runs S ! p) \<longrightarrow> run_quorum (runs S ! p) = Some True \<longrightarrow> has_write j S)"

definition fails_held :: "nat \<Rightarrow> string \<Rightarrow> 's world \<Rightarrow> bool" where
  "fails_held j msg W \<longleftrightarrow> (\<forall>th \<in> set (threads W). body_ok j msg (sys W) (body th)) \<and> granted_held j (sys W) \<and>
     (0 < signals W \<longrightarrow> has_write j (sys W)) \<and> (\<forall>m. outcome W = HasFailed m \<longrightarrow> m = msg \<and> has_write j (sys W))"

lemma body_ok_mono:
  assumes "body_ok j msg S b" and "has_write j S \<Longrightarrow> has_write j S'" and "length (runs S) \<le> length (runs S')"
    and "\<And>p. p < length (runs S) \<Longrightarrow> run_dm (runs S' ! p) = run_dm (runs S ! p) \<and> run_read (runs S' ! p) = run_read (runs S ! p)"
  shows "body_ok j msg S' b"
  using assms(1)
proof (cases rule: body_ok_cases)
  case idle
  then show ?thesis using assms(2) by (auto intro: body_okI sends_ok_mono)
next
  case (waits p i ident rd rest)
  then have "sends_ok j msg (has_write j S' \<or> i = j \<and> \<not> rd) rest" using assms(2) by (auto elim: sends_ok_mono)
  with waits assms(3,4) show ?thesis by (simp add: body_ok_def)
qed

lemma fails_held_sys:
  assumes "fails_held j msg W" and "has_write j (sys W) \<Longrightarrow> has_write j S" and "length (runs (sys W)) \<le> length (runs S)"
    and "\<And>p. p < length (runs (sys W)) \<Longrightarrow>
      run_dm (runs S ! p) = run_dm (runs (sys W) ! p) \<and> run_read (runs S ! p) = run_read (runs (sys W) ! p)"
    and "granted_held j S"
  shows "fails_held j msg (W\<lparr>sys := S\<rparr>)"
  using assms body_ok_mono[of j msg "sys W" _ S] by (auto simp: fails_held_def)

lemma fails_held_body: "fails_held j msg W \<Longrightarrow> body_ok j msg (sys W) b \<Longrightarrow> fails_held j msg (set_body t b W)"
  using ball_set_update[of "threads W" "\<lambda>th. body_ok j msg (sys W) (body th)" "(threads W ! t)\<lparr>body := b\<rparr>" t]
  by (simp add: fails_held_def) (simp add: set_body_def)

lemma fails_held_other [simp]:
  "fails_held j msg (W\<lparr>now := x\<rparr>) = fails_held j msg W" "fails_held j msg (W\<lparr>used := u\<rparr>) = fails_held j msg W"
  "fails_held j msg (W\<lparr>cmds := c\<rparr>) = fails_held j msg W" "fails_held j msg (W\<lparr>wait_count := i\<rparr>) = fails_held j msg W"
  "fails_held j msg (W\<lparr>booting := y, listening := z\<rparr>) = fails_held j msg W"
  by (simp_all add: fails_held_def)

lemma fails_held_init: "sends_ok j msg False prog \<Longrightarrow> fails_held j msg (world_init init ds names prog)"
  using sends_ok_mono[of j msg False prog]
  by (auto simp: fails_held_def world_init_def granted_held_def sys_init_def intro!: body_okI)

subsection \<open>The steps of attempts\<close>

lemma net_has_write:
  assumes wf: "sys_wf ds names (sys W)" and ok: "dsync_ok ds" and b: "action_ok ds W b" "exec srv init ds b (sys W) = Some S"
    and j: "j < length (mutexes (sys W))" and g: "granted_held j (sys W)"
  shows "(has_write j (sys W) \<longrightarrow> has_write j S) \<and> granted_held j S"
proof -
  have r: "length (runs S) = length (runs (sys W))" "\<And>p. p < length (runs S) \<Longrightarrow> run_dm (runs S ! p) = run_dm (runs (sys W) ! p)"
    "\<And>p. p < length (runs S) \<Longrightarrow> run_read (runs S ! p) = run_read (runs (sys W) ! p)"
    using net_runs[OF b] by auto
  show ?thesis
  proof (cases "\<exists>p. b = Return p")
    case False
    then have same: "mutexes S = mutexes (sys W)" "\<And>p. p < length (runs S) \<Longrightarrow> run_returned (runs S ! p) = run_returned (runs (sys W) ! p)"
      using net_not_return[OF b] by auto
    have q: "run_quorum (runs S ! p) = run_quorum (runs (sys W) ! p)" if "p < length (runs S)" "run_returned (runs S ! p)" for p
      using net_quorum_returned[OF wf b that] False by blast
    show ?thesis using g r same q by (simp add: granted_held_def has_write_def)
  next
    case True
    then obtain p q where p: "p < length (runs (sys W))" "run_quorum (runs (sys W) ! p) = Some q"
      and S: "S = (sys W)\<lparr>runs := (runs (sys W))[p := (runs (sys W) ! p)\<lparr>run_returned := True\<rparr>],
        mutexes := (if q then (mutexes (sys W))[run_dm (runs (sys W) ! p) := store_locks (run_read (runs (sys W) ! p))
         (run_locks (runs (sys W) ! p)) (mutexes (sys W) ! run_dm (runs (sys W) ! p))] else mutexes (sys W))\<rparr>"
      using b(2) by (auto simp: exec_return_def Let_def split: if_splits option.splits)
    let ?r = "runs (sys W) ! p"
    have wr: "run_wf ds names ?r" using sys_wf_run[OF wf p(1)] .
    have stored: "has_write j S" if "run_dm ?r = j" "\<not> run_read ?r" q
    proof -
      have "quorumMet (run_locks ?r) (run_read ?r) (dquorum ds) (dquorumReads ds)" using wr p(2) that(3) by (simp add: run_wf_def)
      then have "active (run_locks ?r)" by (rule quorum_active[OF ok])
      moreover have "length (writeLocks (mutexes (sys W) ! j)) = length (run_locks ?r)"
        using wf wr j by (simp add: sys_wf_def dm_wf_def run_wf_def)
      ultimately show ?thesis using that j by (simp add: S has_write_def store_locks_def go_copy_same)
    qed
    have "writeLocks (mutexes S ! j) = writeLocks (mutexes (sys W) ! j)" if "\<not> (run_dm ?r = j \<and> \<not> run_read ?r \<and> q)"
      using that j by (cases "run_dm ?r = j") (auto simp: S store_locks_def)
    then have keep: "has_write j (sys W) \<longrightarrow> has_write j S"
      using stored by (cases "run_dm ?r = j \<and> \<not> run_read ?r \<and> q") (simp_all add: has_write_def)
    moreover have "granted_held j S"
      using g keep stored p by (auto simp: granted_held_def S nth_update_if split: if_splits)
    ultimately show ?thesis by blast
  qed
qed

subsection \<open>The statements\<close>

lemma fails_held_attempt:
  assumes "fails_held j msg W" and "begin_attempt srv init ds t i ident rd rest W = Some W'"
    and "sends_ok j msg (has_write j (sys W) \<or> i = j \<and> \<not> rd) rest"
  shows "fails_held j msg W'"
proof -
  let ?r = "start_run ds i (Name (mutexes (sys W) ! i)) ident [] rd"
  let ?S = "(sys W)\<lparr>runs := runs (sys W) @ [?r]\<rparr>" and ?b = "Awaiting (length (runs (sys W))) i ident rd # rest"
  have W': "W' = set_body t ?b (W\<lparr>sys := ?S\<rparr>)" using assms(2) by (auto simp: begin_attempt_def split: if_splits)
  have "granted_held j (sys W)" using assms(1) by (simp add: fails_held_def)
  then have "granted_held j ?S" by (auto simp: granted_held_def has_write_def nth_append less_Suc_eq)
  then have "fails_held j msg (W\<lparr>sys := ?S\<rparr>)"
    by (intro fails_held_sys[OF assms(1)]) (simp_all add: has_write_def nth_append)
  moreover have "body_ok j msg ?S ?b" using assms(3) by (simp add: body_ok_def has_write_def)
  ultimately show ?thesis unfolding W' by (intro fails_held_body) simp_all
qed

lemma fails_held_release:
  assumes "fails_held j msg W" and "release_mutex srv init ds t i rd rest W = Some W'" and "rd \<or> i \<noteq> j"
    and "sends_ok j msg (has_write j (sys W)) rest"
  shows "fails_held j msg W'"
proof (cases "exec srv init ds (if rd then UnlockR i else UnlockW i) (sys W)")
  case None
  then show ?thesis using assms by (auto simp: release_mutex_def fails_held_def split: if_splits)
next
  case (Some S)
  then have W': "W' = set_body t rest (W\<lparr>sys := S\<rparr>)" using assms(2) by (auto simp: release_mutex_def split: if_splits)
  have same: "has_write j S = has_write j (sys W)" "runs S = runs (sys W)"
    using Some assms(3)
    by (auto simp: has_write_def exec_unlock_def take_reader_locks_def take_write_locks_def Let_def nth_list_update
        split: if_splits sum.splits list.splits)
  then have "granted_held j S" using assms(1) by (simp add: fails_held_def granted_held_def)
  then have "fails_held j msg (W\<lparr>sys := S\<rparr>)" by (intro fails_held_sys[OF assms(1)]) (simp_all add: same)
  moreover have "body_ok j msg S rest" using assms(4) same by (intro body_okI) simp
  ultimately show ?thesis unfolding W' by (intro fails_held_body) simp_all
qed

text \<open>Killing and launching touch no mutex; a killed process loses its goroutines.\<close>

lemma fails_held_kill:
  assumes "fails_held j msg W"
  shows "fails_held j msg (killProcess init c W)"
proof -
  let ?S = "sys (killProcess init c W)"
  have S: "mutexes ?S = mutexes (sys W)" "runs ?S = runs (sys W)" by (simp_all add: killProcess_def)
  then have hw: "has_write j ?S = has_write j (sys W)" by (simp add: has_write_def)
  have b: "body_ok j msg ?S b = body_ok j msg (sys W) b" for b by (simp only: body_ok_def S hw)
  have "body_ok j msg (sys W) []" by (simp add: body_ok_def)
  then have "\<forall>th \<in> set (threads (killProcess init c W)). body_ok j msg ?S (body th)"
    using assms unfolding b by (auto simp: killProcess_def fails_held_def)
  then show ?thesis using assms S by (auto simp: fails_held_def granted_held_def has_write_def killProcess_def)
qed

lemma fails_held_panic: "fails_held j msg W \<Longrightarrow> fails_held j msg (W\<lparr>outcome := HasPanicked y\<rparr>)"
  by (simp add: fails_held_def)

lemma fails_held_kills:
  "fails_held j msg W \<Longrightarrow> fails_held j msg (killAt init k W)"
  "fails_held j msg W \<Longrightarrow> fails_held j msg (killLastServer init W)"
  by (simp_all add: killAt_def killLastServer_def fails_held_kill fails_held_panic)

lemma fails_held_launchProcess: "fails_held j msg W \<Longrightarrow> fails_held j msg (launchProcess c cl W)"
  by (auto simp: fails_held_def launchProcess_def client_of_child_def Let_def split: option.splits intro!: body_okI)

lemma fails_held_launch:
  assumes "fails_held j msg W"
  shows "fails_held j msg (launchTestServers k m W)" and "fails_held j msg (launchTestServersWithLocks k js w W)"
proof -
  have "fails_held j msg W \<Longrightarrow> fails_held j msg (fold (\<lambda>p. launchProcess p None) ps W)" for ps W
    by (induction ps arbitrary: W) (simp_all add: fails_held_launchProcess)
  then show "fails_held j msg (launchTestServers k m W)" using assms by (simp add: launchTestServers_def)
  have "fails_held j msg W \<Longrightarrow> fails_held j msg (fold (\<lambda>(p, i). launchProcess p (Some (i, w))) xs W)" for xs W
    by (induction xs arbitrary: W) (auto simp: fails_held_launchProcess)
  then show "fails_held j msg (launchTestServersWithLocks k js w W)" using assms by (simp add: launchTestServersWithLocks_def)
qed

lemma fails_held_stmt:
  assumes I: "fails_held j msg W" and t: "t < length (threads W)" "body (threads W ! t) = s # rest"
    and step: "run_stmt srv init ds t s rest W = Some W'"
  shows "fails_held j msg W'"
proof -
  let ?h = "has_write j (sys W)"
  have go: "fails_held j msg (set_body t b W)" if "sends_ok j msg ?h b" for b
    using fails_held_body[OF I body_okI[OF that]] .
  have "body_ok j msg (sys W) (s # rest)" using I t by (metis fails_held_def nth_mem)
  then show ?thesis
  proof (cases rule: body_ok_cases)
    case (waits p i ident rd rest')
    show ?thesis
    proof (cases "run_quorum (runs (sys W) ! p) = Some True")
      case True
      with step waits(1) have W': "W' = set_body t rest W" "run_returned (runs (sys W) ! p)" by (auto simp: Let_def split: if_splits)
      have "i = j \<and> \<not> rd \<longrightarrow> ?h" using I W'(2) True waits by (auto simp: fails_held_def granted_held_def)
      then have "sends_ok j msg ?h rest'" by (intro sends_ok_mono[OF waits(5)]) blast
      then have "sends_ok j msg ?h rest" using waits(1) by simp
      then show ?thesis using go W'(1) by simp
    next
      case False
      then show ?thesis using step waits(1,5) fails_held_attempt[OF I, of srv init ds t i ident rd rest W'] by (auto simp: Let_def split: if_splits)
    qed
  next
    case idle
    then show ?thesis
    proof (cases s)
      case (MLock i ident)
      then show ?thesis using step idle fails_held_attempt[OF I, of srv init ds t i ident False rest W'] by simp
    next
      case (MRLock i ident)
      then show ?thesis using step idle fails_held_attempt[OF I, of srv init ds t i ident True rest W'] by simp
    next
      case (MUnlock i)
      then show ?thesis using step idle fails_held_release[OF I, of srv init ds t i False rest W'] by simp
    next
      case (MRUnlock i)
      then show ?thesis using step idle fails_held_release[OF I, of srv init ds t i True rest W'] by simp
    next
      case (Go b')
      have "body_ok j msg (sys W) b'" using idle Go sends_ok_mono[of j msg False b'] by (intro body_okI) simp
      then show ?thesis using go[of rest] step idle Go by (auto simp: fails_held_def)
    next
      case (SelectUntil d b1 b2)
      then have W': "W' = (set_body t (b1 @ rest) W)\<lparr>signals := signals W - 1\<rparr>" "signals W \<noteq> 0"
        using step by (auto split: if_splits)
      then have "?h" using I by (simp add: fails_held_def)
      then have "fails_held j msg (set_body t (b1 @ rest) W)" using go[of "b1 @ rest"] idle SelectUntil by simp
      then show ?thesis using W' \<open>?h\<close> by (simp add: fails_held_def)
    next
      case SendCh
      then show ?thesis using go[of rest] step idle by (auto simp: fails_held_def)
    next
      case (LogFatal m)
      then show ?thesis using I step idle by (auto simp: fails_held_def)
    next
      case Passed
      then show ?thesis using go[of rest] step idle by (auto simp: fails_held_def)
    qed (use step idle I go in \<open>auto simp: fails_held_kills fails_held_launch simp del: sends_ok.simps(1) split: if_splits\<close>)
  qed
qed

lemma fails_held_expire:
  assumes "fails_held j msg W" and "t < length (threads W)" and "body (threads W ! t) = SelectUntil d b1 b2 # rest"
  shows "fails_held j msg (set_body t (b2 @ rest) W)"
proof -
  have "body_ok j msg (sys W) (SelectUntil d b1 b2 # rest)" using assms by (metis fails_held_def nth_mem)
  then show ?thesis by (cases rule: body_ok_cases) (auto intro: fails_held_body[OF assms(1)] body_okI)
qed

lemma fails_held_reach:
  assumes "world_reach srv init ds names prog W" and ok: "dsync_ok ds" and "sends_ok j msg False prog" and "j < length names"
  shows "fails_held j msg W"
proof (rule driver_invariant.reach[OF _ assms(1)], unfold_locales)
  show "fails_held j msg (world_init init ds names prog)" using assms(3) by (rule fails_held_init)
  show "fails_held j msg (W\<lparr>sys := S, used := u\<rparr>)"
    if "world_reach srv init ds names prog W" "fails_held j msg W" "action_ok ds W b" "exec srv init ds b (sys W) = Some S" for W b S u
  proof -
    have wf: "sys_wf ds names (sys W)"
      using world_reach_sys[OF that(1) ok] reachable_wf[OF _ ok, where srv = srv and init = init] by blast
    have "map Name (mutexes (sys W)) = names" using wf by (simp add: sys_wf_def)
    then have "j < length (mutexes (sys W))" using assms(4) by auto
    from net_has_write[OF wf ok that(3,4) this] that(2) have "has_write j (sys W) \<longrightarrow> has_write j S" "granted_held j S"
      by (simp_all add: fails_held_def)
    moreover have "fails_held j msg (W\<lparr>sys := S\<rparr>)"
      using calculation net_runs[OF that(3,4)] by (intro fails_held_sys[OF that(2)]) auto
    ultimately show ?thesis by (simp add: fails_held_def)
  qed
qed (auto intro: fails_held_stmt fails_held_expire)

end
