(* ===== verification/Scenario_Runs.thy ===== *)
theory Scenario_Runs
  imports Stale_Locks Quorum_Blocks No_Starvation Acquired_Locks
begin

section \<open>Runs of the chaos scenarios\<close>

text \<open>
  One run of each test of \<^verbatim>\<open>chaos/chaos.go\<close> to its end, on chaos servers. The tests that need no maintenance
  pass; those that wait for a maintenance of the lock servers end in \<^verbatim>\<open>log.Fatalln\<close>.
\<close>

definition ends_with :: "string list \<Rightarrow> stmt list \<Rightarrow> outcome \<Rightarrow> bool" where
  "ends_with names prog res \<longleftrightarrow> (\<exists>W. world_reach chaos_server chaos_init ds_four names prog W \<and> outcome W = res)"

lemma ends_withI:
  "map_option outcome (world_all chaos_server chaos_init ds_four as (world_init chaos_init ds_four names prog)) = Some res \<Longrightarrow>
    ends_with names prog res"
  by (drule world_scenario) (auto simp: ends_with_def)

definition unlock_sends :: "nat \<Rightarrow> clock event list" where
  "unlock_sends q = replicate 4 (Net (UnlockSend q Delivered (\<lambda>_. 9)))"

abbreviation all_grant :: "nat \<Rightarrow> clock event list" where
  "all_grant p \<equiv> granted p [0, 1, 2, 3] (\<lambda>_. 5)"

lemma testServerGoingDown_passes: "ends_with [''test''] testServerGoingDown HasPassed"
proof (rule ends_withI)
  show "map_option outcome (world_all chaos_server chaos_init ds_four
      ([Step 0] @ all_grant 0 @ [Step 0, Step 0, Tick second, Step 0, Step 0] @ unlock_sends 0 @ replicate 5 (Step 0) @
       [Step 1, Tick (5 * second)] @ replicate 4 (Step 1) @ [Boot 2, Boot 3] @ all_grant 1 @ replicate 3 (Step 0))
      (world_init chaos_init ds_four [''test''] testServerGoingDown)) = Some HasPassed"
    by code_simp
qed

text \<open>The known error: both clients hold the lock.\<close>

definition known_error :: "clock event list" where
  "known_error = [Step 0] @ all_grant 0 @ replicate 7 (Step 0) @ [Step 1, Tick (2 * second)] @ replicate 5 (Step 1) @
     [Boot 1, Boot 2, Boot 3] @ all_grant 1"

lemma known_error_two_writers:
  "\<exists>W. world_reach chaos_server chaos_init ds_four [''test'', ''test''] testMultipleServersOverQuorumDownDuringLockKnownError W \<and>
     writers (sys W) ''test'' = 2"
proof -
  have "map_option (\<lambda>W. writers (sys W) ''test'') (world_all chaos_server chaos_init ds_four known_error
     (world_init chaos_init ds_four [''test'', ''test''] testMultipleServersOverQuorumDownDuringLockKnownError)) = Some 2"
    by code_simp
  from world_scenario[OF this] show ?thesis .
qed

lemma known_error_passes:
  "ends_with [''test'', ''test''] testMultipleServersOverQuorumDownDuringLockKnownError HasPassed"
proof (rule ends_withI)
  show "map_option outcome (world_all chaos_server chaos_init ds_four
      (known_error @ [Step 0, Step 0, Step 1, Tick (6 * second), Step 1, Step 1, Tick second, Step 0, Step 0, Step 0])
      (world_init chaos_init ds_four [''test'', ''test''] testMultipleServersOverQuorumDownDuringLockKnownError)) = Some HasPassed"
    by code_simp
qed

text \<open>Read locks of two clients that crash.\<close>

lemma testTwoClientsThatHaveReadLocksCrash_fails:
  "ends_with [''r'', ''r'', ''r''] testTwoClientsThatHaveReadLocksCrash (HasFailed ''Timed out -- SHOULD NOT HAPPEN'')"
proof (rule ends_withI)
  show "map_option outcome (world_all chaos_server chaos_init ds_four
      ([Step 0, Tick second] @ replicate 5 (Step 0) @ [Boot 2, Boot 3, Step 1, Step 2, Tick (3 * second), Step 1, Step 1, Step 2, Step 2] @
       all_grant 0 @ all_grant 1 @ [Step 1, Step 2] @ replicate 4 (Step 0) @ [Tick (10 * second), Step 0, Step 0, Boot 2, Boot 3,
       Step 0, Step 0, Step 3] @ ask_nodes 2 [0, 1, 2, 3] (\<lambda>_. 6) @ [Tick (60 * second), Expire 0, Step 0])
      (world_init chaos_init ds_four [''r'', ''r'', ''r''] testTwoClientsThatHaveReadLocksCrash)) =
    Some (HasFailed ''Timed out -- SHOULD NOT HAPPEN'')"
    by code_simp
qed

text \<open>Stale locks on one and on two servers.\<close>

definition stale_prefix :: "nat \<Rightarrow> clock event list" where
  "stale_prefix k = [Step 0, Tick second] @ replicate 3 (Step 0) @ [Boot 3, Step 0, Step 1, Tick (3 * second), Step 1, Step 1] @
     all_grant 0 @ [Step 1, Step 0] @ replicate k (Step 0) @ [Step 0, Step 0, Tick (10 * second), Step 0] @ replicate k (Step 0) @
     map Boot [4 - k..<4] @ [Step 0, Step 0, Tick (10 * second), Step 0, Step 0, Step 0, Step 2]"

lemma testSingleStaleLock_after_maintenance: "ends_with [''r'', ''r''] (testSingleStaleLock False) HasPassed"
proof (rule ends_withI)
  show "map_option outcome (world_all chaos_server chaos_init ds_four
      (stale_prefix 3 @ all_grant 1 @ [Step 2, Step 2, Step 0, Step 0, Step 0, Tick second, Step 0, Step 0])
      (world_init chaos_init ds_four [''r'', ''r''] (testSingleStaleLock False))) = Some HasPassed"
    by code_simp
qed

lemma testMultipleStaleLocks_runs:
  "ends_with [''r'', ''r''] (testMultipleStaleLocks True) HasPassed"
  "ends_with [''r'', ''r''] (testMultipleStaleLocks False) (HasFailed ''Timed out -- SHOULD NOT HAPPEN'')"
proof -
  have "map_option outcome (world_all chaos_server chaos_init ds_four
      (stale_prefix 2 @ ask_nodes 1 [0, 1, 2, 3] (\<lambda>_. 6) @ [Tick (60 * second), Expire 0, Step 0])
      (world_init chaos_init ds_four [''r'', ''r''] (testMultipleStaleLocks True))) = Some HasPassed"
    by code_simp
  then show "ends_with [''r'', ''r''] (testMultipleStaleLocks True) HasPassed" by (rule ends_withI)
next
  have "map_option outcome (world_all chaos_server chaos_init ds_four
      (stale_prefix 2 @ ask_nodes 1 [0, 1, 2, 3] (\<lambda>_. 6) @ [Tick (60 * second), Expire 0, Step 0])
      (world_init chaos_init ds_four [''r'', ''r''] (testMultipleStaleLocks False))) = Some (HasFailed ''Timed out -- SHOULD NOT HAPPEN'')"
    by code_simp
  then show "ends_with [''r'', ''r''] (testMultipleStaleLocks False) (HasFailed ''Timed out -- SHOULD NOT HAPPEN'')"
    by (rule ends_withI)
qed

text \<open>(C26) The only failure of the stale lock tests before maintenance is that the lock was acquired: in every run of
  \<open>testSingleStaleLock\<close> and \<open>testMultipleStaleLocks\<close> with \<open>beforeMaintenanceKicksIn\<close>, over any servers and whatever is lost,
  \<^verbatim>\<open>log.Fatalln\<close> is called only with that message and only when the mutex of the test holds its write lock. So
  \<open>testSingleStaleLock\<close> fails exactly where its comment, that a new lock can be acquired despite the stale one, comes
  true; the run below does.\<close>

theorem testSingleStaleLock_fails:
  assumes "world_reach srv init ds [nm, nm] prog W" and "dsync_ok ds"
    and "prog = testSingleStaleLock True \<or> prog = testMultipleStaleLocks True" and "outcome W = HasFailed msg"
  shows "msg = ''Acquired lock -- SHOULD NOT HAPPEN'' \<and> active (writeLocks (mutexes (sys W) ! 1))"
proof -
  have "sends_ok 1 ''Acquired lock -- SHOULD NOT HAPPEN'' False prog"
    using assms(3) by (auto simp: testSingleStaleLock_def testMultipleStaleLocks_def lock_in_goroutine_def stale_lock_select_def)
  from fails_held_reach[OF assms(1,2) this] assms(4) show ?thesis by (simp add: fails_held_def has_write_def)
qed

lemma single_stale_lock_run:
  "map_option outcome (world_all chaos_server chaos_init ds_four (stale_prefix 3 @ all_grant 1 @ [Step 2, Step 2, Step 0, Step 0])
      (world_init chaos_init ds_four [''r'', ''r''] (testSingleStaleLock True))) =
    Some (HasFailed ''Acquired lock -- SHOULD NOT HAPPEN'')"
  by code_simp

theorem testSingleStaleLock_fails_witness:
  "\<exists>W. world_reach chaos_server chaos_init ds_four [''r'', ''r''] (testSingleStaleLock True) W \<and>
     outcome W = HasFailed ''Acquired lock -- SHOULD NOT HAPPEN'' \<and> active (writeLocks (mutexes (sys W) ! 1))"
proof -
  from world_scenario[OF single_stale_lock_run] obtain W where
    W: "world_reach chaos_server chaos_init ds_four [''r'', ''r''] (testSingleStaleLock True) W"
      "outcome W = HasFailed ''Acquired lock -- SHOULD NOT HAPPEN''" by blast
  from testSingleStaleLock_fails[OF W(1) ds_four_ok disjI1[OF refl] W(2)] W show ?thesis by blast
qed

text \<open>The starvation of writers: with the plain mutex the second reader gets the lock before the writer.
  With the guarded one it cannot, by \<open>waiting_writer_not_overtaken\<close>.\<close>

lemma testWriterStarvation_plain: "ends_with [''test''] (testWriterStarvation False) HasPassed"
proof (rule ends_withI)
  show "map_option outcome (world_all chaos_server chaos_init ds_four
      ([Step 0] @ all_grant 0 @ replicate 5 (Step 0) @ [Step 1, Step 2, Tick (10 * millisecond), Step 2, Step 2] @ all_grant 2 @
       [Step 2, Step 2, Tick (2 * second)] @ replicate 3 (Step 1) @ replicate 3 (Step 2) @ unlock_sends 0 @ unlock_sends 1 @
       all_grant 1 @ [Step 0, Step 0, Tick (2 * second)] @ replicate 5 (Step 0))
      (world_init chaos_init ds_four [''test''] (testWriterStarvation False))) = Some HasPassed"
    by code_simp
qed

end
