(* ===== verification/Lock_Properties.thy ===== *)
theory Lock_Properties
  imports Lock_Attempt Performance_Server Chaos_Server
begin

section \<open>Properties of the lock and unlock operations\<close>

text \<open>
  The contract of \<open>lock\<close> over an arbitrary cluster, and what it gives for clusters of the
  repository's own servers: a failed attempt leaves every server as it was, a lock and its
  unlock cancel out, a panic is raised exactly when no lock is held.
\<close>

subsection \<open>The contract, node by node\<close>

lemma lock_result:
  assumes ok: "dsync_ok ds" and u: "ident \<noteq> []" and ks: "all_replies ds ks"
    and run: "lock nl ds (replicate (length (restClnts ds)) []) nm ident source rd ks timer st = (b, locks', st')"
  shows "b \<longleftrightarrow> quorum_of ds rd \<le> int (length (filter (grants nl ds nm ident source rd st) (waited timer ks)))"
    and "length locks' = length (restClnts ds)"
    and "\<And>k. k < length (restClnts ds) \<Longrightarrow>
      locks' ! k = (if b \<and> k \<in> set (waited timer ks) \<and> grants nl ds nm ident source rd st k then ident else [])"
    and "\<And>k. k < length (restClnts ds) \<Longrightarrow>
      st' (restClnts ds ! k) =
        (if grants nl ds nm ident source rd st k \<and> locks' ! k = []
         then rel_node nl nm rd ident (after_lock nl nm ident source rd k (st (restClnts ds ! k)))
         else after_lock nl nm ident source rd k (st (restClnts ds ! k)))"
    and "\<And>r. r \<notin> set (restClnts ds) \<Longrightarrow> st' r = st r"
proof -
  let ?n = "length (restClnts ds)" and ?refs = "restClnts ds"
  let ?G = "grants nl ds nm ident source rd st"
  let ?q = "quorum_of ds rd \<le> int (length (filter ?G (waited timer ks)))"
  have dist: "distinct ?refs" by (rule dsync_okD(6)[OF ok])
  obtain pre rest where pr: "ks = pre @ rest" and w: "?q \<longrightarrow> pre = waited timer ks"
    and eq: "lock nl ds (replicate ?n []) nm ident source rd ks timer st =
      (let L = apply_grants (map (grant_msg ?G ident) pre) (replicate ?n []);
           st1 = fold (node_step ?refs (after_lock nl nm ident source rd)) ks st;
           late = fold (node_step ?refs (\<lambda>k c. if ?G k then rel_node nl nm rd ident c else c)) rest
       in if ?q then (True, L, late st1)
          else (False, replicate ?n [], late (rel_all nl ds nm rd L st1)))"
    by (rule lock_eq[OF ok u ks, where nl = nl and nm = nm and source = source and rd = rd and st = st and timer = timer])
       (rule that; assumption)
  let ?L = "apply_grants (map (grant_msg ?G ident) pre) (replicate ?n [])"
  let ?st1 = "fold (node_step ?refs (after_lock nl nm ident source rd)) ks st"
  let ?late = "fold (node_step ?refs (\<lambda>k c. if ?G k then rel_node nl nm rd ident c else c)) rest"
  have sub: "set pre \<subseteq> {..<?n}" "set rest \<subseteq> {..<?n}" "distinct pre" "distinct rest"
    and split: "k < ?n \<Longrightarrow> (k \<in> set rest) = (k \<notin> set pre)" for k
    using ks by (auto simp: pr)
  have L: "?L ! k = (if k \<in> set pre \<and> ?G k then ident else [])" if "k < ?n" for k
    using apply_grants_nth[of pre "replicate ?n []" k ?G ident] sub that u by auto
  have st1: "?st1 (?refs ! k) = after_lock nl nm ident source rd k (st (?refs ! k))" if "k < ?n" for k
    using fold_node_step_at[OF dist, of ks k] ks that by auto
  have late: "?late s (?refs ! k) = (if k \<in> set rest \<and> ?G k then rel_node nl nm rd ident (s (?refs ! k)) else s (?refs ! k))"
    if "k < ?n" for k s
    by (simp add: fold_node_step_at[OF dist sub(4,2) that])
  show b: "b \<longleftrightarrow> ?q" using run eq by (auto simp: Let_def split: if_splits)
  show "length locks' = ?n" using run eq by (auto simp: Let_def split: if_splits)
  show locks': "locks' ! k = (if b \<and> k \<in> set (waited timer ks) \<and> ?G k then ident else [])" if "k < ?n" for k
    using run eq w L[OF that] that by (auto simp: Let_def split: if_splits)
  show "st' (?refs ! k) =
        (if ?G k \<and> locks' ! k = []
         then rel_node nl nm rd ident (after_lock nl nm ident source rd k (st (?refs ! k)))
         else after_lock nl nm ident source rd k (st (?refs ! k)))" if "k < ?n" for k
  proof (cases ?q)
    case True
    with b have b': "b" by blast
    have "st' = ?late ?st1" using trans[OF run[symmetric] eq] True by (simp add: Let_def)
    then have "st' (?refs ! k) = ?late ?st1 (?refs ! k)" by simp
    with b' locks'[OF that] w True split[OF that] show ?thesis
      using late[OF that, of ?st1] st1[OF that] u by auto
  next
    case False
    with b have b': "\<not> b" by blast
    have "st' = ?late (rel_all nl ds nm rd ?L ?st1)"
      using trans[OF run[symmetric] eq] False by (simp add: Let_def)
    then have eq_k: "st' (?refs ! k) = ?late (rel_all nl ds nm rd ?L ?st1) (?refs ! k)" by simp
    show ?thesis
      unfolding eq_k late[OF that] rel_all_at[OF dist that] st1[OF that] rel_entry_def L[OF that] locks'[OF that]
      using b' split[OF that] u by auto
  qed
  show "st' r = st r" if "r \<notin> set ?refs" for r
  proof -
    have "?late s r = s r" "?st1 r = st r" "rel_all nl ds nm rd ?L s r = s r" for s
      using fold_node_step_other[of rest ?refs r] fold_node_step_other[of ks ?refs r]
        rel_all_other[OF that] sub ks that by auto
    then show ?thesis using run eq by (auto simp: Let_def split: if_splits)
  qed
qed

subsection \<open>An attempt with the empty identifier\<close>

text \<open>Grants that all look like refusals leave an empty array, whatever ends the loop.\<close>

lemma releaseAll_empty:
  assumes "dNodeCount ds = int (length (restClnts ds))"
  shows "releaseAll nl ds (replicate (length (restClnts ds)) []) nm rd st = (replicate (length (restClnts ds)) [], st)"
proof -
  let ?n = "length (restClnts ds)"
  have "node_step (restClnts ds) (rel_entry nl nm rd (replicate ?n [])) k st = st" if "k < ?n" for k st
    using that by (simp add: node_step_def rel_entry_def)
  then have "fold (node_step (restClnts ds) (rel_entry nl nm rd (replicate ?n []))) ks st = st" if "set ks \<subseteq> {..<?n}" for ks
    using that by (induction ks) simp_all
  then have "rel_all nl ds nm rd (replicate ?n []) st = st" by (simp add: rel_all_def atLeast_upt)
  with releaseAll_eq[OF assms, of "replicate ?n []" nl nm rd st] show ?thesis by simp
qed

lemma collect_loop_empty:
  assumes "dNodeCount ds = int (length (restClnts ds))" and "\<forall>g \<in> set ch. lockUID g = []"
  shows "\<exists>i' ch'. collect_loop nl ds nm rd timer ch i f (replicate (length (restClnts ds)) []) st =
      (i', ch', replicate (length (restClnts ds)) [], st) \<and> set ch' \<subseteq> set ch"
  using assms(2)
proof (induction ch arbitrary: i f timer)
  case Nil
  then show ?case by (simp add: collect_timeout_def releaseAll_empty[OF assms(1)])
next
  case (Cons g ch)
  then obtain i' ch' where "collect_loop nl ds nm rd (map_option (\<lambda>t. t - 1) timer) ch (i + 1) (f + 1)
      (replicate (length (restClnts ds)) []) st = (i', ch', replicate (length (restClnts ds)) [], st)" "set ch' \<subseteq> set ch"
    by (metis list.set_intros(2))
  then show ?case using Cons.prems by (auto simp: collect_timeout_def releaseAll_empty[OF assms(1)])
qed

lemma drain_loop_empty: "\<forall>g \<in> set ch. lockUID g = [] \<Longrightarrow> drain_loop nl ds nm rd ch i st = st"
  by (induction ch arbitrary: i) simp_all

lemma lock_empty_uid:
  assumes ok: "dsync_ok ds" and ks: "all_replies ds ks"
  shows "lock nl ds (replicate (length (restClnts ds)) []) nm [] source rd ks timer st =
    (False, replicate (length (restClnts ds)) [], fold (node_step (restClnts ds) (after_lock nl nm [] source rd)) ks st)"
proof -
  have n: "dNodeCount ds = int (length (restClnts ds))" using dsync_okD(1)[OF ok] .
  let ?st = "fold (node_step (restClnts ds) (after_lock nl nm [] source rd)) ks st"
  let ?ch = "map (grant_msg (grants nl ds nm [] source rd st) []) ks"
  have b: "broadcast nl ds nm [] source rd ks st = (?ch, ?st)"
    using dsync_okD(6)[OF ok] ks by (intro broadcast_eq) auto
  have e: "\<forall>g \<in> set ?ch. lockUID g = []" by auto
  from collect_loop_empty[OF n e, of nl nm rd timer 0 0 ?st] obtain i' ch' where
    c: "collect_loop nl ds nm rd timer ?ch 0 0 (replicate (length (restClnts ds)) []) ?st =
      (i', ch', replicate (length (restClnts ds)) [], ?st)" "set ch' \<subseteq> set ?ch" by blast
  then have "drain_loop nl ds nm rd ch' i' ?st = ?st" using e by (intro drain_loop_empty) blast
  with b c(1) quorumMet_empty[OF ok] show ?thesis by (simp add: lock_def Let_def)
qed

subsection \<open>The contract\<close>

lemma lock_contract:
  assumes "dsync_ok ds" and "all_replies ds ks"
    and "lock nl ds (replicate (length (restClnts ds)) []) nm ident source rd ks timer st = (b, locks', st')"
  shows "b \<longleftrightarrow> ident \<noteq> [] \<and> quorum_of ds rd \<le> int (length (filter (grants nl ds nm ident source rd st) (waited timer ks)))"
    and "length locks' = length (restClnts ds)"
    and "\<And>k. k < length (restClnts ds) \<Longrightarrow>
      locks' ! k = (if b \<and> k \<in> set (waited timer ks) \<and> grants nl ds nm ident source rd st k then ident else [])"
    and "\<And>k. k < length (restClnts ds) \<Longrightarrow>
      st' (restClnts ds ! k) =
        (if ident \<noteq> [] \<and> grants nl ds nm ident source rd st k \<and> locks' ! k = []
         then rel_node nl nm rd ident (after_lock nl nm ident source rd k (st (restClnts ds ! k)))
         else after_lock nl nm ident source rd k (st (restClnts ds ! k)))"
    and "\<And>r. r \<notin> set (restClnts ds) \<Longrightarrow> st' r = st r"
proof -
  note res = lock_result[OF assms(1) _ assms(2,3)]
  have empty: "\<not> b" "locks' = replicate (length (restClnts ds)) []"
    "st' = fold (node_step (restClnts ds) (after_lock nl nm [] source rd)) ks st" if "ident = []"
    using lock_empty_uid[OF assms(1,2), of nl nm source rd timer st] assms(3) that by simp_all
  show "b \<longleftrightarrow> ident \<noteq> [] \<and> quorum_of ds rd \<le> int (length (filter (grants nl ds nm ident source rd st) (waited timer ks)))"
    using res(1) empty(1) by blast
  show "length locks' = length (restClnts ds)" using res(2) empty(2) by fastforce
  show "locks' ! k = (if b \<and> k \<in> set (waited timer ks) \<and> grants nl ds nm ident source rd st k then ident else [])"
    if "k < length (restClnts ds)" for k
    using res(3)[OF _ that] empty that by (cases "ident = []") simp_all
  show "st' (restClnts ds ! k) =
        (if ident \<noteq> [] \<and> grants nl ds nm ident source rd st k \<and> locks' ! k = []
         then rel_node nl nm rd ident (after_lock nl nm ident source rd k (st (restClnts ds ! k)))
         else after_lock nl nm ident source rd k (st (restClnts ds ! k)))" if "k < length (restClnts ds)" for k
    using res(4)[OF _ that] empty(3) fold_node_step_at[OF dsync_okD(6)[OF assms(1)], of ks k] assms(2) that
    by (cases "ident = []") auto
  show "st' r = st r" if "r \<notin> set (restClnts ds)" for r
    using res(5)[OF _ that] empty(3) fold_node_step_other[of ks "restClnts ds" r] assms(2) that by (cases "ident = []") auto
qed

text \<open>(C4) One attempt succeeds exactly when the identifier is not empty and the replies it waited for (all of
  them, or those before the timer) hold a quorum of grants, whatever their order; then its lock array
  names exactly the nodes that granted in time, and after a failure the array is empty.\<close>

theorem lock_succeeds_iff_quorum:
  assumes "dsync_ok ds" and "distinct ks" and "set ks = {..<length (restClnts ds)}"
    and "lock nl ds (replicate (length (restClnts ds)) []) nm ident source rd ks timer st = (b, locks', st')"
  shows "b = (ident \<noteq> [] \<and> quorum_of ds rd \<le> int (length (filter (grants nl ds nm ident source rd st) (waited timer ks))))
    \<and> locks' = map (\<lambda>k. if b \<and> k \<in> set (waited timer ks) \<and> grants nl ds nm ident source rd st k
                      then ident else []) [0..<length (restClnts ds)]"
  using lock_contract(1,2,3)[OF assms(1) _ assms(4)] assms(2,3)
  by (auto intro: nth_equalityI)

text \<open>(C5) What an attempt does not keep it gives back: when it is over, every node that granted a lock under a
  non-empty identifier either is recorded in the lock array or has been sent the release for it; every other node
  has handled the lock request and nothing else, and objects outside the cluster are untouched. Under the empty identifier no
  release is sent at all. After a failed attempt nothing is recorded.\<close>

theorem lock_releases_what_it_does_not_keep:
  assumes "dsync_ok ds" and "distinct ks" and "set ks = {..<length (restClnts ds)}"
    and "lock nl ds (replicate (length (restClnts ds)) []) nm ident source rd ks timer st = (b, locks', st')"
  shows "(\<forall>k < length (restClnts ds). st' (restClnts ds ! k) =
      (let c = after_lock nl nm ident source rd k (st (restClnts ds ! k))
       in if ident \<noteq> [] \<and> grants nl ds nm ident source rd st k \<and> locks' ! k = [] then rel_node nl nm rd ident c else c))
    \<and> (\<forall>r. r \<notin> set (restClnts ds) \<longrightarrow> st' r = st r)
    \<and> (\<not> b \<longrightarrow> (\<forall>k < length (restClnts ds). locks' ! k = []))"
  using lock_contract(3,4,5)[OF assms(1) _ assms(4)] assms(2,3) by (auto simp: Let_def)

text \<open>A cluster of four performance servers, one of them holding a write lock of somebody else.\<close>

definition busy_at_3 :: "perf_lockServer store" where
  "busy_at_3 = (\<lambda>_. perf_init)(3 := \<lparr>perf_lockMap = [''r'' \<mapsto> -1]\<rparr>)"

lemmas attempt_eval = ds_four_def busy_at_3_def perf_init_def quorum_of_def grants_def after_lock_def
  rel_node_def lock_method_def release_method_def perf_handler_defs waited_def

lemma ds_four_replies: "distinct [2, 0, 3, 1 :: nat]" "set [2, 0, 3, 1] = {..<length (restClnts ds_four)}"
  by (auto simp: ds_four_def)

lemma ds_four_n: "length (restClnts ds_four) = 4"
  by (simp add: ds_four_def)

theorem lock_succeeds_iff_quorum_witness:
  "\<exists>st'. lock (perf_server ()) ds_four (replicate 4 []) ''r'' ''u'' [] False [2, 0, 3, 1] None busy_at_3 =
     (True, [''u'', ''u'', ''u'', []], st')"
proof -
  obtain b locks' st' where run: "lock (perf_server ()) ds_four (replicate (length (restClnts ds_four)) []) ''r'' ''u'' []
      False [2, 0, 3, 1] None busy_at_3 = (b, locks', st')" by (metis prod_cases3)
  have "b \<and> locks' = [''u'', ''u'', ''u'', []]"
    using lock_succeeds_iff_quorum[OF ds_four_ok ds_four_replies run] by (simp add: attempt_eval upt_rec)
  with run show ?thesis by (auto simp: ds_four_n)
qed

theorem lock_releases_what_it_does_not_keep_witness:
  "snd (snd (lock (perf_server ()) ds_four (replicate 4 []) ''r'' ''u'' [] False [2, 0, 3, 1] (Some 2) busy_at_3)) 2 = perf_init"
proof -
  obtain b locks' st' where run: "lock (perf_server ()) ds_four (replicate (length (restClnts ds_four)) []) ''r'' ''u'' []
      False [2, 0, 3, 1] (Some 2) busy_at_3 = (b, locks', st')" by (metis prod_cases3)
  have "\<not> b"
    using lock_result(1)[OF ds_four_ok _ _ run] ds_four_replies by (simp add: attempt_eval)
  then have "locks' ! 2 = []" and "st' (restClnts ds_four ! 2) =
    (let c = after_lock (perf_server ()) ''r'' ''u'' [] False 2 (busy_at_3 (restClnts ds_four ! 2))
     in if ''u'' \<noteq> [] \<and> grants (perf_server ()) ds_four ''r'' ''u'' [] False busy_at_3 2 \<and> locks' ! 2 = []
        then rel_node (perf_server ()) ''r'' False ''u'' c else c)"
    using lock_releases_what_it_does_not_keep[OF ds_four_ok ds_four_replies run] by (simp_all add: ds_four_n)
  then have "st' 2 = perf_init" by (simp add: attempt_eval)
  with run show ?thesis by (simp add: ds_four_n)
qed

subsection \<open>A blocking call that every node refuses\<close>

lemma lockBlocking_refused:
  assumes ok: "dsync_ok (clnt dm)" and u: "ident \<noteq> []"
    and refuse: "\<And>c. P c \<Longrightarrow> \<not> fst (fst (nl (lock_method rd) \<lparr>UID = ident, Resource = Name dm, Source = source\<rparr> c)) \<and>
      P (snd (nl (lock_method rd) \<lparr>UID = ident, Resource = Name dm, Source = source\<rparr> c))"
    and P: "\<forall>k < length (restClnts (clnt dm)). P (st (restClnts (clnt dm) ! k))"
    and rounds: "\<forall>a \<in> set rounds. all_replies (clnt dm) (att_arrivals a) \<and> att_elapsed a < timeout"
  shows "\<exists>st'. lockBlocking nl timeout ident source rd rounds dm st = (None, dm, st') \<and>
    (\<forall>k < length (restClnts (clnt dm)). P (st' (restClnts (clnt dm) ! k)))"
  using P rounds
proof (induction rounds arbitrary: st)
  case Nil
  then show ?case by simp
next
  case (Cons a rounds)
  let ?ds = "clnt dm"
  let ?n = "length (restClnts ?ds)"
  have n: "nat (dNodeCount ?ds) = ?n" using dsync_okD(1)[OF ok] by simp
  have ks: "all_replies ?ds (att_arrivals a)" using Cons.prems(2) by simp
  obtain b locks' st1 where run: "lock nl ?ds (replicate ?n []) (Name dm) ident source rd (att_arrivals a) (att_timer a) st
      = (b, locks', st1)" by (metis prod_cases3)
  note res = lock_result[OF ok u ks run]
  have no: "\<not> grants nl ?ds (Name dm) ident source rd st k" if "k < ?n" for k
    using refuse Cons.prems(1) that by (simp add: grants_def)
  have "filter (grants nl ?ds (Name dm) ident source rd st) (waited (att_timer a) (att_arrivals a)) = []"
    using no ks by (auto simp: filter_empty_conv waited_def split: option.splits dest: in_set_takeD)
  then have "\<not> b" using res(1) quorum_of_pos[OF ok, of rd] by simp
  moreover have "\<forall>k < ?n. P (st1 (restClnts ?ds ! k))"
    using res(4) no refuse Cons.prems(1) by (simp add: after_lock_def)
  moreover have "\<not> timeout \<le> att_elapsed a" using Cons.prems(2) by simp
  ultimately show ?case using Cons.IH[of st1] Cons.prems(2) run n by (simp add: Let_def)
qed

end
