(* ===== verification/Mutex_Cycle.thy ===== *)
theory Mutex_Cycle
  imports Lock_Properties System_Invariant
begin

section \<open>Whole operations of a mutex: lock, retry, time out, unlock\<close>

text \<open>
  What the blocking operations of a \<^verbatim>\<open>DRWMutex\<close> leave behind. The servers are reached through a
  contract of two laws: a refused request changes nothing, and a release undoes the grant it
  follows. Over such servers an attempt that fails leaves the whole cluster as it was, so does a
  blocking call that times out after any number of attempts, and an acquired lock followed by its
  unlock restores both the cluster and the mutex.
\<close>

text \<open>The lock array of a successful attempt has an entry.\<close>

lemma lock_success_active:
  assumes ok: "dsync_ok ds" and "ident \<noteq> []" and ks: "all_replies ds ks"
    and run: "lock nl ds (replicate (length (restClnts ds)) []) nm ident source rd ks timer st = (True, locks, st')"
  shows "\<exists>u \<in> set locks. isLocked u"
proof -
  note res = lock_result[OF ok assms(2) ks run]
  have "filter (grants nl ds nm ident source rd st) (waited timer ks) \<noteq> []"
    using res(1) quorum_of_pos[OF ok, of rd] by auto
  then obtain k where k: "k \<in> set (waited timer ks)" "grants nl ds nm ident source rd st k"
    by (auto simp: filter_empty_conv)
  then have "k < length (restClnts ds)" using ks by (auto simp: waited_def dest: in_set_takeD split: option.splits)
  then have "locks ! k = ident" "k < length locks" using res(2) res(3)[of k] k by auto
  then show ?thesis using assms(2) nth_mem[of k locks] by auto
qed

definition req :: "string \<Rightarrow> string \<Rightarrow> string \<Rightarrow> LockArgs" where
  "req nm u src = \<lparr>UID = u, Resource = nm, Source = src\<rparr>"

locale undoable_server =
  fixes srv :: "('e, 's) server" and fresh :: "string \<Rightarrow> string \<Rightarrow> 's \<Rightarrow> bool"
  assumes refuse: "fresh nm u s \<Longrightarrow> \<not> fst (fst (srv e (lock_method rd) (req nm u src) s)) \<Longrightarrow>
      snd (srv e (lock_method rd) (req nm u src) s) = s"
    and undo: "fresh nm u s \<Longrightarrow> fst (fst (srv e (lock_method rd) (req nm u src) s)) \<Longrightarrow>
      snd (srv e' (release_method rd) (req nm u []) (snd (srv e (lock_method rd) (req nm u src) s))) = s"
begin

text \<open>The objects a request of the lock leaves at a node, and after its release.\<close>

lemma after_lock_refused:
  "fresh nm u (st (restClnts ds ! k)) \<Longrightarrow> \<not> grants (srv e) ds nm u src rd st k \<Longrightarrow>
    after_lock (srv e) nm u src rd k (st (restClnts ds ! k)) = st (restClnts ds ! k)"
  using refuse[of nm u "st (restClnts ds ! k)" e rd src] by (simp add: grants_def after_lock_def req_def)

lemma rel_after_lock:
  "fresh nm u (st (restClnts ds ! k)) \<Longrightarrow> grants (srv e) ds nm u src rd st k \<Longrightarrow>
    rel_node (srv e') nm rd u (after_lock (srv e) nm u src rd k (st (restClnts ds ! k))) = st (restClnts ds ! k)"
  using undo[of nm u "st (restClnts ds ! k)" e rd src e'] by (simp add: grants_def after_lock_def rel_node_def req_def)

lemma store_eqI:
  "(\<And>k. k < length refs \<Longrightarrow> st' (refs ! k) = st (refs ! k)) \<Longrightarrow> (\<And>r. r \<notin> set refs \<Longrightarrow> st' r = st r) \<Longrightarrow> st' = st"
  by (metis ext in_set_conv_nth)

lemma failed_attempt_restores:
  assumes "dsync_ok ds" and "ident \<noteq> []" and "all_replies ds ks"
    and run: "lock (srv e) ds (replicate (length (restClnts ds)) []) nm ident source rd ks timer st = (False, locks', st')"
    and "\<forall>c \<in> set (restClnts ds). fresh nm ident (st c)"
  shows "st' = st"
proof (rule store_eqI[where refs = "restClnts ds"])
  note res = lock_result[OF assms(1-3) run]
  show "st' r = st r" if "r \<notin> set (restClnts ds)" for r using res(5)[OF that] .
  show "st' (restClnts ds ! k) = st (restClnts ds ! k)" if k: "k < length (restClnts ds)" for k
    using res(3,4)[OF k] assms(5) nth_mem[OF k] after_lock_refused rel_after_lock by auto
qed

lemma lock_unlock_restores:
  assumes "dsync_ok ds" and "ident \<noteq> []" and "all_replies ds ks"
    and run: "lock (srv e) ds (replicate (length (restClnts ds)) []) nm ident source rd ks timer st = (b, locks', st')"
    and "\<forall>c \<in> set (restClnts ds). fresh nm ident (st c)"
  shows "unlock (srv e') ds locks' nm rd st' = st"
proof (rule store_eqI[where refs = "restClnts ds"])
  note res = lock_result[OF assms(1-3) run]
  show "unlock (srv e') ds locks' nm rd st' r = st r" if "r \<notin> set (restClnts ds)" for r
    by (simp add: unlock_eq rel_all_other[OF that] res(5)[OF that])
  show "unlock (srv e') ds locks' nm rd st' (restClnts ds ! k) = st (restClnts ds ! k)" if k: "k < length (restClnts ds)" for k
  proof (cases "locks' ! k = []")
    case True
    then show ?thesis
      using res(4)[OF k] assms(5) nth_mem[OF k] after_lock_refused rel_after_lock
      by (auto simp: unlock_eq rel_all_at[OF dsync_okD(6)[OF assms(1)] k] rel_entry_def)
  next
    case False
    then have "locks' ! k = ident" "grants (srv e) ds nm ident source rd st k"
      using res(3)[OF k] by (auto split: if_splits)
    then show ?thesis
      using False res(4)[OF k] assms(5) nth_mem[OF k] rel_after_lock
      by (auto simp: unlock_eq rel_all_at[OF dsync_okD(6)[OF assms(1)] k] rel_entry_def)
  qed
qed

text \<open>The blocking call: until it succeeds it leaves mutex and cluster alone, whatever the number of
  attempts, and success comes from one attempt made on the cluster as it was at the start.\<close>

lemma lockBlocking_restores:
  assumes "dsync_ok (clnt dm)" and "ident \<noteq> []" and "\<forall>a \<in> set rounds. all_replies (clnt dm) (att_arrivals a)"
    and "\<forall>c \<in> set (restClnts (clnt dm)). fresh (Name dm) ident (st c)"
    and "lockBlocking (srv e) timeout ident source rd rounds dm st = (res, dm', st')"
  shows "res \<noteq> Some True \<and> dm' = dm \<and> st' = st \<or>
    (\<exists>a \<in> set rounds. \<exists>locks. res = Some True \<and> dm' = store_locks rd locks dm \<and>
      lock (srv e) (clnt dm) (replicate (length (restClnts (clnt dm))) []) (Name dm) ident source rd
        (att_arrivals a) (att_timer a) st = (True, locks, st'))"
  using assms(3,5)
proof (induction rounds)
  case Nil
  then show ?case by simp
next
  case (Cons a rounds)
  let ?L = "replicate (length (restClnts (clnt dm))) []"
  obtain b locks st1 where run: "lock (srv e) (clnt dm) ?L (Name dm) ident source rd (att_arrivals a) (att_timer a) st
      = (b, locks, st1)" by (metis prod_cases3)
  have n: "nat (dNodeCount (clnt dm)) = length (restClnts (clnt dm))" using dsync_okD(1)[OF assms(1)] by simp
  show ?case
  proof (cases b)
    case True
    with Cons.prems(2) run n show ?thesis by auto
  next
    case False
    with run failed_attempt_restores[OF assms(1,2) _ _ assms(4)] Cons.prems(1) have "st1 = st" by auto
    with Cons run n False show ?thesis by (auto split: if_splits)
  qed
qed

text \<open>Acquire and release of a mutex that holds nothing of the kind.\<close>

lemma acquire_release:
  assumes ok: "dsync_ok (clnt dm)" and "ident \<noteq> []" and "\<forall>a \<in> set rounds. all_replies (clnt dm) (att_arrivals a)"
    and fresh: "\<forall>c \<in> set (restClnts (clnt dm)). fresh (Name dm) ident (st c)"
    and run: "lockBlocking (srv e) timeout ident source rd rounds dm st = (Some True, dm', st')"
    and wf: "dm_wf (clnt dm) dm" and none: "\<not> active (writeLocks dm)" "readersLocks dm = []"
  shows "(if rd then DRWMutex_RUnlock (srv e') dm' st' else DRWMutex_Unlock (srv e') dm' st') = Inr (dm, st)"
proof -
  let ?n = "length (restClnts (clnt dm))"
  from lockBlocking_restores[OF ok assms(2,3) fresh run] obtain a locks where a: "a \<in> set rounds"
    and dm': "dm' = store_locks rd locks dm"
    and lk: "lock (srv e) (clnt dm) (replicate ?n []) (Name dm) ident source rd (att_arrivals a) (att_timer a) st
      = (True, locks, st')" by auto
  have ks: "all_replies (clnt dm) (att_arrivals a)" using assms(3) a by blast
  note res = lock_result[OF ok assms(2) ks lk]
  have n: "nat (dNodeCount (clnt dm)) = ?n" using dsync_okD(1)[OF ok] by simp
  have st: "unlock (srv e') (clnt dm) locks (Name dm) rd st' = st"
    using lock_unlock_restores[OF ok assms(2) ks lk fresh] .
  have w: "length (writeLocks dm) = ?n" "writeLocks dm = replicate ?n []"
    using wf none(1) by (auto simp: dm_wf_def active_def intro!: replicate_eqI)
  have found: "\<exists>u \<in> set locks. isLocked u" using lock_success_active[OF ok assms(2) ks lk] .
  show ?thesis
    using st n w res(2) found none(2)
    by (auto simp: DRWMutex_RUnlock_def DRWMutex_Unlock_def take_reader_locks_def take_write_locks_def
        dm' store_locks_def go_copy_same Let_def)
qed

end

subsection \<open>The servers of the repository satisfy the contract\<close>

interpretation chaos_cycle: undoable_server chaos_server "\<lambda>nm u s. chaos_inv s \<and> u \<notin> uid ` set (entries s nm)"
proof (unfold_locales, goal_cases)
  case (1 nm u s e rd src)
  then show ?case
    by (auto simp: lock_method_def handler_defs Let_def split: option.splits if_splits)
next
  case (2 nm u s e rd src e')
  then show ?case
    using chaos_undo[of "lock_method rd" "release_method rd" s e "req nm u src" "req nm u []" e']
    by (simp add: lock_method_def release_method_def req_def split: if_splits)
qed

interpretation perf_cycle: undoable_server perf_server "\<lambda>nm u s. perf_inv s"
proof (unfold_locales, goal_cases)
  case (1 nm u s e rd src)
  then show ?case
    by (auto simp: lock_method_def handler_defs Let_def split: option.splits if_splits)
next
  case (2 nm u s e rd src e')
  then show ?case
    using perf_invD[OF 2(1), of nm]
    by (cases "perf_lockMap s nm")
       (auto simp: lock_method_def release_method_def req_def handler_defs Let_def fun_upd_idem split: if_splits)
qed

subsection \<open>The properties\<close>

text \<open>(C21) Over chaos servers a blocking call that gives up leaves no trace: when \<open>GetLock\<close> or
  \<open>GetRLock\<close>, called with a non-empty identifier under which no server of the cluster has a lock on the resource
  yet, returns false, after any number of attempts, the mutex and every server are in the state they had before the call.\<close>

theorem chaos_timeout_leaves_no_trace:
  assumes "dsync_ok (clnt dm)" and "ident \<noteq> []" and "\<forall>a \<in> set rounds. all_replies (clnt dm) (att_arrivals a)"
    and "\<forall>c \<in> set (restClnts (clnt dm)). chaos_inv (st c) \<and> ident \<notin> uid ` set (entries (st c) (Name dm))"
    and "GetLock (chaos_server now) ident source timeout rounds dm st = (Some False, dm', st') \<or>
      GetRLock (chaos_server now) ident source timeout rounds dm st = (Some False, dm', st')"
  shows "dm' = dm \<and> st' = st"
  using assms(5) chaos_cycle.lockBlocking_restores[OF assms(1-4), of now timeout source]
  unfolding GetLock_def GetRLock_def by (metis option.inject)

text \<open>(C20) Over chaos servers a write lock and its unlock, and a read lock and its unlock, cancel
  out on a new mutex: when the identifier is not empty and no server of the cluster has a lock on the resource under it yet, they
  leave the mutex and every server as they were, whatever nodes granted the lock and whatever attempts failed before.\<close>

theorem chaos_lock_then_unlock:
  assumes "dsync_ok (clnt dm)" and "ident \<noteq> []" and "\<forall>a \<in> set rounds. all_replies (clnt dm) (att_arrivals a)"
    and "\<forall>c \<in> set (restClnts (clnt dm)). chaos_inv (st c) \<and> ident \<notin> uid ` set (entries (st c) (Name dm))"
    and "dm = NewDRWMutex nm (clnt dm)"
  shows "(DRWMutex_Lock (chaos_server now) ident source rounds dm st = (Some True, dm', st') \<longrightarrow>
      DRWMutex_Unlock (chaos_server now') dm' st' = Inr (dm, st)) \<and>
    (DRWMutex_RLock (chaos_server now) ident source rounds dm st = (Some True, dm', st') \<longrightarrow>
      DRWMutex_RUnlock (chaos_server now') dm' st' = Inr (dm, st))"
proof -
  have "dm_wf (clnt dm) dm" "\<not> active (writeLocks dm)" "readersLocks dm = []"
    using dsync_okD(1)[OF assms(1)] by (subst assms(5), simp add: NewDRWMutex_def dm_wf_def)+
  then show ?thesis
    using chaos_cycle.acquire_release[OF assms(1-4), of now drwMutexInfinite source _ dm' st' now']
    unfolding DRWMutex_Lock_def DRWMutex_RLock_def by metis
qed

text \<open>(C33) The unlock operations panic exactly when there is nothing to unlock: \<open>Unlock\<close> when no entry
  of the write locks is set, \<open>RUnlock\<close> when there is no read lock. The mutex is untouched then.\<close>

theorem unlock_panics_iff:
  "((\<exists>p. DRWMutex_Unlock nl dm st = Inl p) \<longleftrightarrow> (\<forall>u \<in> set (writeLocks dm). u = [])) \<and>
   ((\<exists>p. DRWMutex_RUnlock nl dm st = Inl p) \<longleftrightarrow> readersLocks dm = [])"
  by (auto simp: DRWMutex_Unlock_def DRWMutex_RUnlock_def take_write_locks_def take_reader_locks_def Let_def
      split: list.splits)

text \<open>\<open>RUnlock\<close> releases the oldest read lock (FIFO): it drops the first array, keeps the other
  read locks and the write locks, and sends a release with the recorded UID to exactly the nodes of
  that array.\<close>

theorem RUnlock_releases_oldest:
  assumes "dsync_ok (clnt dm)" and "readersLocks dm = ls # rest" and "length ls = length (restClnts (clnt dm))"
  shows "\<exists>st'. DRWMutex_RUnlock nl dm st = Inr (dm\<lparr>readersLocks := rest\<rparr>, st') \<and>
    (\<forall>k < length (restClnts (clnt dm)). st' (restClnts (clnt dm) ! k) =
       (if ls ! k \<noteq> [] then rel_node nl (Name dm) True (ls ! k) (st (restClnts (clnt dm) ! k))
        else st (restClnts (clnt dm) ! k))) \<and>
    (\<forall>r. r \<notin> set (restClnts (clnt dm)) \<longrightarrow> st' r = st r)"
  using assms dsync_okD(1)[OF assms(1)]
  by (auto simp: DRWMutex_RUnlock_def take_reader_locks_def go_copy_same unlock_eq
      rel_all_at[OF dsync_okD(6)[OF assms(1)]] rel_all_other rel_entry_def)

text \<open>(C32) A call with a timeout returns: at the latest in the first attempt that fails with the
  timeout elapsed. And it reports failure only then.\<close>

theorem lockBlocking_returns:
  assumes "lockBlocking nl timeout ident source rd rounds dm st = (res, dm', st')"
  shows "((\<exists>a \<in> set rounds. timeout \<le> att_elapsed a) \<longrightarrow> res \<noteq> None) \<and>
    (res = Some False \<longrightarrow> (\<exists>a \<in> set rounds. timeout \<le> att_elapsed a))"
  using assms
proof (induction rounds arbitrary: st)
  case Nil
  then show ?case by simp
next
  case (Cons b rounds)
  then show ?case by (auto simp: Let_def split: prod.splits if_splits)
qed

subsection \<open>Concrete runs on two chaos servers\<close>

definition dm2 :: DRWMutex where
  "dm2 = NewDRWMutex ''r'' ds_two"

text \<open>Node 1 holds a write lock of somebody else.\<close>

definition busy_chaos :: "chaos_lockServer store" where
  "busy_chaos c = (if c = 1
     then snd (chaos_server (\<lambda>_. 1) Lock \<lparr>UID = ''other'', Resource = ''r'', Source = []\<rparr> chaos_init) else chaos_init)"

definition round_at :: "duration \<Rightarrow> attempt" where
  "round_at d = \<lparr>ctxDone = False, att_arrivals = [1, 0], att_timer = None, att_elapsed = d\<rparr>"

lemma clnt_dm2 [simp]: "clnt dm2 = ds_two" "Name dm2 = ''r''"
  by (simp_all add: dm2_def NewDRWMutex_def)

lemma round_at_arrivals: "all_replies ds_two (att_arrivals (round_at d))"
  by (auto simp: round_at_def ds_two_def)

lemma chaos_fresh:
  "chaos_inv chaos_init \<and> ''u'' \<notin> uid ` set (entries chaos_init ''r'')"
  "chaos_inv (busy_chaos c) \<and> ''u'' \<notin> uid ` set (entries (busy_chaos c) ''r'')"
  using chaos_inv_init chaos_inv_step[OF chaos_inv_init, of "\<lambda>_. 1" Lock]
  by (simp_all add: busy_chaos_def entries_def) (simp_all add: chaos_init_def handler_defs)

theorem chaos_timeout_leaves_no_trace_witness:
  "GetLock (chaos_server (\<lambda>_. 9)) ''u'' [] 10 [round_at 3, round_at 12] dm2 busy_chaos = (Some False, dm2, busy_chaos)"
proof -
  obtain res dm' st' where run: "GetLock (chaos_server (\<lambda>_. 9)) ''u'' [] 10 [round_at 3, round_at 12] dm2 busy_chaos
      = (res, dm', st')" by (metis prod_cases3)
  have "fst (GetLock (chaos_server (\<lambda>_. 9)) ''u'' [] 10 [round_at 3, round_at 12] dm2 busy_chaos) = Some False"
    by code_simp
  with run have res: "res = Some False" by simp
  have "dm' = dm2 \<and> st' = busy_chaos"
    by (rule chaos_timeout_leaves_no_trace[of dm2 "''u''" "[round_at 3, round_at 12]" busy_chaos "\<lambda>_. 9" "[]" 10])
       (use run res ds_two_ok round_at_arrivals chaos_fresh in auto)
  with run res show ?thesis by simp
qed

theorem chaos_lock_then_unlock_witness:
  "\<exists>dm' st'. DRWMutex_Lock (chaos_server (\<lambda>_. 9)) ''u'' [] [round_at 3] dm2 (\<lambda>_. chaos_init) = (Some True, dm', st') \<and>
     DRWMutex_Unlock (chaos_server (\<lambda>_. 11)) dm' st' = Inr (dm2, \<lambda>_. chaos_init)"
proof -
  obtain res dm' st' where run: "DRWMutex_Lock (chaos_server (\<lambda>_. 9)) ''u'' [] [round_at 3] dm2 (\<lambda>_. chaos_init)
      = (res, dm', st')" by (metis prod_cases3)
  have "fst (DRWMutex_Lock (chaos_server (\<lambda>_. 9)) ''u'' [] [round_at 3] dm2 (\<lambda>_. chaos_init)) = Some True"
    by code_simp
  with run have run': "DRWMutex_Lock (chaos_server (\<lambda>_. 9)) ''u'' [] [round_at 3] dm2 (\<lambda>_. chaos_init) = (Some True, dm', st')"
    by simp
  have "dm2 = NewDRWMutex ''r'' (clnt dm2)" by (simp add: dm2_def NewDRWMutex_def)
  with chaos_lock_then_unlock[of dm2 "''u''" "[round_at 3]" "\<lambda>_. chaos_init" "''r''" "\<lambda>_. 9" "[]" dm' st' "\<lambda>_. 11"]
    run' ds_two_ok round_at_arrivals chaos_fresh(1) show ?thesis by auto
qed

theorem unlock_panics_iff_witness:
  "\<exists>p q. DRWMutex_Unlock (chaos_server (\<lambda>_. 9)) dm2 busy_chaos = Inl p \<and>
     DRWMutex_RUnlock (chaos_server (\<lambda>_. 9)) dm2 busy_chaos = Inl q"
  using unlock_panics_iff[of "chaos_server (\<lambda>_. 9)" dm2 busy_chaos] by (auto simp: dm2_def NewDRWMutex_def)

theorem RUnlock_releases_oldest_witness:
  "let dm = dm2\<lparr>readersLocks := [[''a'', []], [[], ''b'']]\<rparr>
   in \<exists>st'. DRWMutex_RUnlock (chaos_server (\<lambda>_. 9)) dm busy_chaos =
     Inr (dm2\<lparr>readersLocks := [[[], ''b'']]\<rparr>, st') \<and> st' 1 = busy_chaos 1"
proof -
  let ?dm = "dm2\<lparr>readersLocks := [[''a'', []], [[], ''b'']]\<rparr>"
  from RUnlock_releases_oldest[of ?dm "[''a'', []]" "[[[], ''b'']]" "chaos_server (\<lambda>_. 9)" busy_chaos]
  obtain st' where "DRWMutex_RUnlock (chaos_server (\<lambda>_. 9)) ?dm busy_chaos = Inr (?dm\<lparr>readersLocks := [[[], ''b'']]\<rparr>, st')"
    "\<forall>k < 2. st' (restClnts ds_two ! k) = (if [''a'', []] ! k \<noteq> []
       then rel_node (chaos_server (\<lambda>_. 9)) ''r'' True ([''a'', []] ! k) (busy_chaos (restClnts ds_two ! k))
       else busy_chaos (restClnts ds_two ! k))"
    using ds_two_ok by (auto simp: ds_two_def)
  then show ?thesis by (auto simp: ds_two_def dest!: spec[of _ "1::nat"])
qed

theorem lockBlocking_returns_witness:
  "fst (GetRLock (chaos_server (\<lambda>_. 9)) ''u'' [] 10 [round_at 3, round_at 12] dm2 busy_chaos) \<noteq> None"
proof -
  obtain res dm' st' where run: "lockBlocking (chaos_server (\<lambda>_. 9)) 10 ''u'' [] True [round_at 3, round_at 12] dm2 busy_chaos
      = (res, dm', st')" by (metis prod_cases3)
  from lockBlocking_returns[OF run] run show ?thesis by (simp add: GetRLock_def round_at_def)
qed

end
