(* ===== verification/Retry.thy ===== *)
theory Retry
  imports Dsync_Prelude Go_Float
begin

section \<open>The retry timer (retry.go)\<close>

text \<open>
  The exponential back-off of \<open>lockBlocking\<close>: the wait computed for an attempt, on 64-bit
  durations with their wrap-around and with the floating-point jitter, and the goroutine that
  hands out attempt numbers on a channel, as a state machine driven by the reader, the timer and
  the closing of \<^verbatim>\<open>doneCh\<close>.

  \<open>rnd\<close> is the result of \<^verbatim>\<open>globalRandomSource.Float64()\<close>. The generator behind the global source is
  a function that steps a state of its own; the source locks around every use of it, so that one use
  is one step of the state.
\<close>

subsection \<open>The random source\<close>

record 'g lockedRandSource =
  rand_src :: 'g

definition source_Int63 :: "('g \<Rightarrow> int \<times> 'g) \<Rightarrow> 'g lockedRandSource \<Rightarrow> int \<times> 'g lockedRandSource" where
  "source_Int63 gen r = (case gen (rand_src r) of (n, g) \<Rightarrow> (n, r\<lparr>rand_src := g\<rparr>))"

definition source_Seed :: "(int \<Rightarrow> 'g \<Rightarrow> 'g) \<Rightarrow> int \<Rightarrow> 'g lockedRandSource \<Rightarrow> 'g lockedRandSource" where
  "source_Seed reseed seed r = r\<lparr>rand_src := reseed seed (rand_src r)\<rparr>"

text \<open>\<^verbatim>\<open>rand.Float64\<close> of the standard library: it draws again while the quotient rounds to one.\<close>

partial_function (option) rand_Float64 :: "('g \<Rightarrow> int \<times> 'g) \<Rightarrow> 'g lockedRandSource \<Rightarrow> (rat \<times> 'g lockedRandSource) option" where
  "rand_Float64 gen r =
     (let f = f64 (f64 (of_int (fst (source_Int63 gen r))) / 2 ^ 63)
      in if f = 1 then rand_Float64 gen (snd (source_Int63 gen r)) else Some (f, snd (source_Int63 gen r)))"

text \<open>Every number it returns is in the half-open unit interval.\<close>

lemma rand_Float64_unit:
  assumes "0 \<le> n" and "n < 2 ^ 63"
  shows "0 \<le> f64 (f64 (of_int n) / 2 ^ 63) \<and> f64 (f64 (of_int n) / 2 ^ 63) \<le> 1"
proof -
  have "(of_int n :: rat) \<le> of_int (2 ^ 63)" using assms(2) by (simp only: of_int_le_iff)
  then have "0 \<le> f64 (of_int n)" "f64 (of_int n) \<le> 2 ^ 63"
    using assms(1) f64_nonneg[of "of_int n"] f64_le_pow2[of "of_int n" 63] by simp_all
  then have "0 \<le> f64 (of_int n) / 2 ^ 63" "f64 (of_int n) / 2 ^ 63 \<le> of_int 1" by simp_all
  then show ?thesis using f64_nonneg f64_le_int[of "f64 (of_int n) / 2 ^ 63" 1] by simp
qed

lemma rand_Float64_range:
  fixes gen :: "'g \<Rightarrow> int \<times> 'g"
  assumes "rand_Float64 gen r = Some y" and gen: "\<And>g. 0 \<le> fst (gen g) \<and> fst (gen g) < 2 ^ 63"
  shows "0 \<le> fst y \<and> fst y < 1"
proof -
  have "h = gen \<longrightarrow> 0 \<le> fst y \<and> fst y < 1" if "rand_Float64 h r = Some y" for h :: "'g \<Rightarrow> int \<times> 'g" and r y
  proof (rule rand_Float64.raw_induct[OF _ that], intro impI)
    fix rec and h :: "'g \<Rightarrow> int \<times> 'g" and r y
    let ?f = "f64 (f64 (of_int (fst (source_Int63 h r))) / 2 ^ 63)"
    assume IH: "\<And>r b y. rec r b = Some y \<Longrightarrow> r = gen \<longrightarrow> 0 \<le> fst y \<and> fst y < 1" and h: "h = gen"
      and step: "(let f = ?f in if f = 1 then rec h (snd (source_Int63 h r)) else Some (f, snd (source_Int63 h r))) = Some y"
    have "fst (source_Int63 h r) = fst (gen (rand_src r))" by (simp add: h source_Int63_def case_prod_unfold)
    then have "0 \<le> ?f" "?f \<le> 1" using rand_Float64_unit gen by simp_all
    then show "0 \<le> fst y \<and> fst y < 1" using step IH h by (cases "?f = 1") (auto simp: Let_def)
  qed
  then show ?thesis using assms(1) by blast
qed

text \<open>Two's complement wrap-around of \<^verbatim>\<open>int64\<close>.\<close>

definition wrap64 :: "int \<Rightarrow> int" where
  "wrap64 x = (x + 2 ^ 63) mod 2 ^ 64 - 2 ^ 63"

lemma wrap64_id: "- 9223372036854775808 \<le> x \<Longrightarrow> x < 9223372036854775808 \<Longrightarrow> wrap64 x = x"
  by (simp add: wrap64_def)

lemma wrap64_high: "2 ^ 63 \<le> x \<Longrightarrow> x < 2 ^ 64 \<Longrightarrow> wrap64 x = x - 2 ^ 64"
  using mod_pos_geq[of "2 ^ 64" "x + 2 ^ 63"] by (simp add: wrap64_def)

lemma wrap64_range: "- (2 ^ 63) \<le> wrap64 x \<and> wrap64 x < 2 ^ 63"
  by (simp add: wrap64_def)

definition MaxJitter :: rat where
  "MaxJitter = 1"

definition NoJitter :: rat where
  "NoJitter = 0"

text \<open>The normalization of the jitter at the start of \<^verbatim>\<open>newRetryTimerWithJitter\<close>.\<close>

definition normalize_jitter :: "rat \<Rightarrow> rat" where
  "normalize_jitter jitter =
     (let j = (if jitter < NoJitter then NoJitter else jitter) in if j > MaxJitter then MaxJitter else j)"

text \<open>\<^verbatim>\<open>1<<uint(attempt)\<close>: the conversion of a negative attempt is a shift out of range.\<close>

definition shift_one :: "int \<Rightarrow> int" where
  "shift_one attempt = (if attempt < 0 \<or> 63 < attempt then 0 else wrap64 (2 ^ nat attempt))"

definition exponentialBackoffWait :: "duration \<Rightarrow> duration \<Rightarrow> rat \<Rightarrow> rat \<Rightarrow> int \<Rightarrow> duration" where
  "exponentialBackoffWait unit cap jitter rnd attempt =
     (let maxAttempt = 30;
          attempt = (if attempt > maxAttempt then maxAttempt else attempt);
          sleep = wrap64 (unit * shift_one attempt);
          sleep = (if sleep > cap then cap else sleep)
      in if jitter \<noteq> NoJitter
         then wrap64 (sleep - trunc (f64 (f64 (rnd * f64 (of_int sleep)) * jitter)))
         else sleep)"

subsection \<open>The goroutine\<close>

datatype retry_phase = Offering | Waiting duration | Stopped

record retry_timer =
  nextBackoff :: int
  phase_of :: retry_phase

datatype retry_event = Take rat | Expire | Done

text \<open>One event: the reader takes an attempt number (and \<open>rnd\<close> is drawn for the wait that
  follows), the timer expires, or \<^verbatim>\<open>doneCh\<close> is closed. The second component is the number handed
  out; \<open>None\<close> where the event cannot happen.\<close>

fun retry_step :: "duration \<Rightarrow> duration \<Rightarrow> rat \<Rightarrow> retry_event \<Rightarrow> retry_timer \<Rightarrow> (retry_timer \<times> int list) option" where
  "retry_step unit cap jitter (Take rnd) t =
     (case phase_of t of
        Offering \<Rightarrow>
          (let nb = nextBackoff t + 1
           in Some (\<lparr>nextBackoff = nb, phase_of = Waiting (exponentialBackoffWait unit cap jitter rnd nb)\<rparr>, [nextBackoff t]))
      | _ \<Rightarrow> None)"
| "retry_step unit cap jitter Expire t =
     (case phase_of t of Waiting d \<Rightarrow> Some (t\<lparr>phase_of := Offering\<rparr>, []) | _ \<Rightarrow> None)"
| "retry_step unit cap jitter Done t =
     (case phase_of t of Stopped \<Rightarrow> None | _ \<Rightarrow> Some (t\<lparr>phase_of := Stopped\<rparr>, []))"

fun retry_run :: "duration \<Rightarrow> duration \<Rightarrow> rat \<Rightarrow> retry_event list \<Rightarrow> retry_timer \<Rightarrow> (retry_timer \<times> int list) option" where
  "retry_run unit cap jitter [] t = Some (t, [])"
| "retry_run unit cap jitter (ev # evs) t =
     (case retry_step unit cap jitter ev t of
        None \<Rightarrow> None
      | Some (t', out) \<Rightarrow>
          (case retry_run unit cap jitter evs t' of None \<Rightarrow> None | Some (t'', outs) \<Rightarrow> Some (t'', out @ outs)))"

text \<open>The constructors: the events of a timer with its parameters.\<close>

definition newRetryTimerWithJitter :: "duration \<Rightarrow> duration \<Rightarrow> rat \<Rightarrow> retry_event list \<Rightarrow> (retry_timer \<times> int list) option" where
  "newRetryTimerWithJitter unit cap jitter evs =
     retry_run unit cap (normalize_jitter jitter) evs \<lparr>nextBackoff = 0, phase_of = Offering\<rparr>"

definition defaultRetryUnit :: duration where
  "defaultRetryUnit = 1000000000"

definition defaultRetryCap :: duration where
  "defaultRetryCap = 1 * 1000000000"

definition newRetryTimer :: "duration \<Rightarrow> duration \<Rightarrow> retry_event list \<Rightarrow> (retry_timer \<times> int list) option" where
  "newRetryTimer unit cap evs = newRetryTimerWithJitter unit cap MaxJitter evs"

definition newRetryTimerSimple :: "retry_event list \<Rightarrow> (retry_timer \<times> int list) option" where
  "newRetryTimerSimple evs = newRetryTimerWithJitter defaultRetryUnit defaultRetryCap MaxJitter evs"

subsection \<open>The wait\<close>

lemma shift_one_eq: "0 \<le> a \<Longrightarrow> a \<le> 30 \<Longrightarrow> shift_one a = 2 ^ nat a"
proof -
  assume "0 \<le> a" "a \<le> 30"
  then have "(2::int) ^ nat a \<le> 1073741824" using power_increasing[of "nat a" 30 "2::int"] by simp
  moreover have "0 < (2::int) ^ nat a" by simp
  ultimately have "wrap64 (2 ^ nat a) = 2 ^ nat a" by (intro wrap64_id) linarith+
  then show ?thesis using \<open>0 \<le> a\<close> \<open>a \<le> 30\<close> by (simp add: shift_one_def)
qed

text \<open>The upper bound of the wait of an attempt, before the jitter is taken off.\<close>

definition backoff :: "duration \<Rightarrow> duration \<Rightarrow> int \<Rightarrow> duration" where
  "backoff unit cap attempt = min cap (unit * 2 ^ nat (min 30 attempt))"

lemma sleep_eq:
  assumes "0 < unit" and "unit < 2 ^ 33" and "0 \<le> attempt"
  shows "(let a = (if attempt > 30 then 30 else attempt); sleep = wrap64 (unit * shift_one a)
          in if sleep > cap then cap else sleep) = backoff unit cap attempt"
proof -
  let ?a = "min 30 attempt"
  have a: "(if attempt > 30 then 30 else attempt) = ?a" by simp
  have p: "(2::int) ^ nat ?a \<le> 2 ^ 30" by (intro power_increasing) auto
  have "unit * 2 ^ nat ?a \<le> unit * 2 ^ 30" using p assms(1) by (intro mult_left_mono) auto
  moreover have "0 \<le> unit * 2 ^ nat ?a" using assms(1) by simp
  ultimately have "wrap64 (unit * 2 ^ nat ?a) = unit * 2 ^ nat ?a" using assms(2) by (intro wrap64_id) simp_all
  then show ?thesis unfolding a Let_def backoff_def using shift_one_eq[of ?a] assms(3) by simp
qed

text \<open>The jitter takes off a part of the wait: never more than all of it.\<close>

lemma jitter_part:
  assumes "0 \<le> s" and "s < 2 ^ 51" and "0 \<le> rnd" and "rnd \<le> 1" and "0 \<le> j" and "j \<le> 1"
  shows "0 \<le> trunc (f64 (f64 (rnd * f64 (of_int s)) * j)) \<and> trunc (f64 (f64 (rnd * f64 (of_int s)) * j)) \<le> s"
proof -
  have s: "f64 (of_int s) = of_int s" using assms(1,2) by (rule f64_int)
  let ?x = "f64 (rnd * of_int s)" and ?n = "of_int s :: rat"
  have x0: "0 \<le> ?x" using assms by (intro f64_nonneg) simp
  have "rnd * ?n \<le> ?n" using assms by (intro mult_left_le_one_le) auto
  then have xs: "?x \<le> ?n" using assms by (intro f64_le_int) auto
  have y0: "0 \<le> f64 (?x * j)" using assms x0 by (intro f64_nonneg) simp
  have "?x * j \<le> ?n" using xs x0 assms by (meson mult_right_le_one_le order_trans)
  then have "f64 (?x * j) \<le> ?n" using assms x0 by (intro f64_le_int) auto
  with y0 show ?thesis unfolding s trunc_def by (simp add: floor_le_iff le_less_trans)
qed

lemma backoff_range: "0 < unit \<Longrightarrow> 0 \<le> cap \<Longrightarrow> 0 \<le> backoff unit cap attempt \<and> backoff unit cap attempt \<le> cap"
  by (simp add: backoff_def)

lemma wait_bounds:
  assumes "0 < unit" and "unit < 2 ^ 33" and "0 \<le> cap" and "cap < 2 ^ 51" and "0 \<le> attempt"
    and "0 \<le> rnd" and "rnd \<le> 1" and "0 \<le> j" and "j \<le> 1"
  shows "0 \<le> exponentialBackoffWait unit cap j rnd attempt \<and>
    exponentialBackoffWait unit cap j rnd attempt \<le> backoff unit cap attempt"
proof -
  let ?s = "backoff unit cap attempt" and ?t = "trunc (f64 (f64 (rnd * f64 (of_int (backoff unit cap attempt))) * j))"
  have s: "0 \<le> ?s" "?s < 2 ^ 51" using backoff_range[OF assms(1,3), of attempt] assms(4) by auto
  have t: "0 \<le> ?t \<and> ?t \<le> ?s" using s assms(6-9) by (rule jitter_part)
  have eq: "exponentialBackoffWait unit cap j rnd attempt = (if j \<noteq> NoJitter then wrap64 (?s - ?t) else ?s)"
    unfolding exponentialBackoffWait_def using sleep_eq[OF assms(1,2,5), of cap] by (simp add: Let_def)
  have "wrap64 (?s - ?t) = ?s - ?t" using t s by (intro wrap64_id) auto
  with t s show ?thesis unfolding eq by auto
qed

subsection \<open>The numbers handed out\<close>

definition timer_ok :: "duration \<Rightarrow> retry_timer \<Rightarrow> bool" where
  "timer_ok cap t \<longleftrightarrow> 0 \<le> nextBackoff t \<and> (case phase_of t of Waiting d \<Rightarrow> 0 \<le> d \<and> d \<le> cap | _ \<Rightarrow> True)"

definition draws_ok :: "retry_event list \<Rightarrow> bool" where
  "draws_ok evs \<longleftrightarrow> (\<forall>ev \<in> set evs. case ev of Take rnd \<Rightarrow> 0 \<le> rnd \<and> rnd < 1 | _ \<Rightarrow> True)"

lemma retry_step_numbers:
  assumes "retry_step unit cap j ev t = Some (t', out)"
  shows "out = [] \<and> nextBackoff t' = nextBackoff t \<or> out = [nextBackoff t] \<and> nextBackoff t' = nextBackoff t + 1"
  using assms by (cases ev) (auto simp: Let_def split: retry_phase.splits)

lemma retry_run_numbers:
  assumes "retry_run unit cap j evs t = Some (t', outs)"
  shows "outs = [nextBackoff t..nextBackoff t' - 1] \<and> nextBackoff t \<le> nextBackoff t'"
  using assms
proof (induction evs arbitrary: t outs)
  case Nil
  then show ?case by simp
next
  case (Cons ev evs)
  then obtain t1 out outs1 where step: "retry_step unit cap j ev t = Some (t1, out)"
    and rest: "retry_run unit cap j evs t1 = Some (t', outs1)" and outs: "outs = out @ outs1"
    by (auto split: option.splits)
  show ?case
    using retry_step_numbers[OF step] Cons.IH[OF rest] outs by (auto simp: upto_rec1)
qed

lemma retry_step_ok:
  assumes "retry_step unit cap j ev t = Some (t', out)" and "timer_ok cap t" and "draws_ok [ev]"
    and "0 < unit" and "unit < 2 ^ 33" and "0 \<le> cap" and "cap < 2 ^ 51" and "0 \<le> j" and "j \<le> 1"
  shows "timer_ok cap t'"
proof (cases ev)
  case (Take rnd)
  have "0 \<le> exponentialBackoffWait unit cap j rnd (nextBackoff t + 1) \<and>
      exponentialBackoffWait unit cap j rnd (nextBackoff t + 1) \<le> cap"
    using wait_bounds[of unit cap "nextBackoff t + 1" rnd j] backoff_range[of unit cap "nextBackoff t + 1"] assms Take
    by (auto simp: timer_ok_def draws_ok_def)
  with assms(1,2) Take show ?thesis by (auto simp: timer_ok_def Let_def split: retry_phase.splits)
qed (use assms(1,2) in \<open>auto simp: timer_ok_def split: retry_phase.splits\<close>)

lemma retry_run_ok:
  assumes "retry_run unit cap j evs t = Some (t', outs)" and "timer_ok cap t" and "draws_ok evs"
    and "0 < unit" and "unit < 2 ^ 33" and "0 \<le> cap" and "cap < 2 ^ 51" and "0 \<le> j" and "j \<le> 1"
  shows "timer_ok cap t'"
  using assms(1,2,3)
proof (induction evs arbitrary: t outs)
  case Nil
  then show ?case by simp
next
  case (Cons ev evs)
  then obtain t1 out outs1 where step: "retry_step unit cap j ev t = Some (t1, out)"
    and rest: "retry_run unit cap j evs t1 = Some (t', outs1)" by (auto split: option.splits)
  have "draws_ok [ev]" "draws_ok evs" using Cons.prems(3) by (simp_all add: draws_ok_def)
  with Cons.IH[OF rest] retry_step_ok[OF step Cons.prems(2) _ assms(4-9)] show ?case by blast
qed

lemma normalize_jitter_range: "0 \<le> normalize_jitter j \<and> normalize_jitter j \<le> 1"
  by (simp add: normalize_jitter_def NoJitter_def MaxJitter_def)

subsection \<open>The properties\<close>

text \<open>(C34) The back-off: for a unit below 2^33 nanoseconds (8.5 seconds) and a cap below 2^51, every
  attempt, every jitter and every random draw, the wait lies between zero and the smaller of the
  cap and the unit doubled once per attempt (at most thirty times). No product overflows \<^verbatim>\<open>int64\<close>.\<close>

theorem exponentialBackoffWait_bounds:
  assumes "0 < unit" and "unit < 2 ^ 33" and "0 \<le> cap" and "cap < 2 ^ 51" and "0 \<le> attempt"
    and "0 \<le> rnd" and "rnd < 1"
  shows "0 \<le> exponentialBackoffWait unit cap (normalize_jitter jitter) rnd attempt \<and>
    exponentialBackoffWait unit cap (normalize_jitter jitter) rnd attempt \<le> min cap (unit * 2 ^ nat (min 30 attempt))"
  using wait_bounds[OF assms(1-6) less_imp_le[OF assms(7)]] normalize_jitter_range[of jitter]
  unfolding backoff_def by blast

theorem exponentialBackoffWait_bounds_witness:
  "0 \<le> exponentialBackoffWait 250000000 1000000000 (normalize_jitter (1 / 2)) (3 / 4) 1 \<and>
   exponentialBackoffWait 250000000 1000000000 (normalize_jitter (1 / 2)) (3 / 4) 1 \<le> 500000000"
  using exponentialBackoffWait_bounds[of 250000000 1000000000 1 "3 / 4" "1 / 2"] by simp

text \<open>The same for a random number that the global source draws.\<close>

lemma drawn_backoff_bounds:
  assumes "0 < unit" and "unit < 2 ^ 33" and "0 \<le> cap" and "cap < 2 ^ 51" and "0 \<le> attempt"
    and "rand_Float64 gen src = Some (rnd, src')" and "\<And>g. 0 \<le> fst (gen g) \<and> fst (gen g) < 2 ^ 63"
  shows "0 \<le> exponentialBackoffWait unit cap (normalize_jitter jitter) rnd attempt \<and>
    exponentialBackoffWait unit cap (normalize_jitter jitter) rnd attempt \<le> min cap (unit * 2 ^ nat (min 30 attempt))"
  using wait_bounds[OF assms(1-5), of rnd "normalize_jitter jitter"] rand_Float64_range[OF assms(6,7)] normalize_jitter_range[of jitter]
  by (auto simp: backoff_def)

text \<open>(C35) The timer hands out the attempt numbers 0, 1, 2, ... without a gap or a repetition, and
  between two of them it waits no longer than the cap.\<close>

theorem retry_attempts_in_order:
  assumes "newRetryTimerWithJitter unit cap jitter evs = Some (t, outs)" and "draws_ok evs"
    and "0 < unit" and "unit < 2 ^ 33" and "0 \<le> cap" and "cap < 2 ^ 51"
  shows "outs = [0..int (length outs) - 1] \<and> nextBackoff t = int (length outs) \<and>
    (\<forall>d. phase_of t = Waiting d \<longrightarrow> 0 \<le> d \<and> d \<le> cap)"
proof -
  let ?t0 = "\<lparr>nextBackoff = 0, phase_of = Offering\<rparr>"
  have run: "retry_run unit cap (normalize_jitter jitter) evs ?t0 = Some (t, outs)"
    using assms(1) by (simp add: newRetryTimerWithJitter_def)
  have "timer_ok cap t"
    using retry_run_ok[OF run _ assms(2-6)] normalize_jitter_range[of jitter] by (simp add: timer_ok_def)
  moreover have "outs = [0..nextBackoff t - 1]" "0 \<le> nextBackoff t" using retry_run_numbers[OF run] by simp_all
  moreover from this have "int (length outs) = nextBackoff t" by simp
  ultimately show ?thesis by (auto simp: timer_ok_def split: retry_phase.splits)
qed

theorem retry_attempts_in_order_witness:
  "\<exists>t outs. newRetryTimerSimple [Take 0, Expire, Take (1 / 2), Expire, Take 0] = Some (t, outs) \<and> outs = [0, 1, 2]"
proof -
  let ?evs = "[Take 0, Expire, Take (1 / 2), Expire, Take 0]"
  obtain t outs where run: "newRetryTimerSimple ?evs = Some (t, outs)" and "length outs = 3"
    by (simp add: newRetryTimerSimple_def newRetryTimerWithJitter_def Let_def)
  have "draws_ok ?evs" by (simp add: draws_ok_def)
  from retry_attempts_in_order[OF run[unfolded newRetryTimerSimple_def] this] \<open>length outs = 3\<close>
  have "outs = [0..2]" by (simp add: defaultRetryUnit_def defaultRetryCap_def)
  with run show ?thesis by (simp add: upto_rec1)
qed

text \<open>With the default unit and cap, both one second, the bound of the wait does not grow: every
  attempt waits at most the same one second, exactly one second without jitter.\<close>

theorem default_backoff_constant:
  assumes "0 \<le> attempt"
  shows "exponentialBackoffWait defaultRetryUnit defaultRetryCap NoJitter rnd attempt = 1000000000"
proof -
  have "(1::int) \<le> 2 ^ nat (min 30 attempt)" by simp
  then have "backoff defaultRetryUnit defaultRetryCap attempt = 1000000000"
    by (simp add: backoff_def defaultRetryUnit_def defaultRetryCap_def)
  then show ?thesis
    using sleep_eq[of defaultRetryUnit attempt defaultRetryCap] assms
    by (simp add: exponentialBackoffWait_def Let_def defaultRetryUnit_def)
qed

theorem default_backoff_constant_witness:
  "exponentialBackoffWait defaultRetryUnit defaultRetryCap NoJitter 0 7 = 1000000000"
  using default_backoff_constant[of 7 0] by simp

text \<open>(C36) Where the product overflows: the limit of thirty doublings keeps the shift in range but not the product with
  the unit. For every unit below 2^34 nanoseconds (17 seconds), cap and attempt, the wait without jitter is
  negative, so that the timer fires at once, exactly when the unit doubled once per attempt (at most thirty times) reaches
  2^63; it then is that product less 2^64.\<close>

theorem backoff_overflows:
  assumes "0 < unit" and "unit < 2 ^ 34" and "0 \<le> cap" and "0 \<le> attempt"
  shows "(exponentialBackoffWait unit cap NoJitter rnd attempt < 0 \<longleftrightarrow> 2 ^ 63 \<le> unit * 2 ^ nat (min 30 attempt)) \<and>
    (2 ^ 63 \<le> unit * 2 ^ nat (min 30 attempt) \<longrightarrow>
       exponentialBackoffWait unit cap NoJitter rnd attempt = unit * 2 ^ nat (min 30 attempt) - 2 ^ 64)"
proof -
  let ?a = "min 30 attempt" and ?p = "unit * 2 ^ nat (min 30 attempt)"
  have a: "(if attempt > 30 then 30 else attempt) = ?a" by simp
  have "(2::int) ^ nat ?a \<le> 2 ^ 30" by (intro power_increasing) auto
  then have "?p \<le> unit * 2 ^ 30" using assms(1) by (intro mult_left_mono) auto
  moreover have "unit * 2 ^ 30 < (2::int) ^ 34 * 2 ^ 30" using assms(2) by simp
  ultimately have "?p < 2 ^ 34 * 2 ^ 30" by (rule le_less_trans)
  then have p: "0 \<le> ?p" "?p < 2 ^ 64" using assms(1) by simp_all
  have w: "exponentialBackoffWait unit cap NoJitter rnd attempt = (if wrap64 ?p > cap then cap else wrap64 ?p)"
    using shift_one_eq[of ?a] assms(4) unfolding exponentialBackoffWait_def Let_def a by simp
  show ?thesis
  proof (cases "2 ^ 63 \<le> ?p")
    case True
    then have "wrap64 ?p = ?p - 2 ^ 64" using p by (intro wrap64_high)
    then show ?thesis using True p assms(3) unfolding w by auto
  next
    case False
    then have "wrap64 ?p = ?p" using p by (intro wrap64_id) simp_all
    then show ?thesis using False p assms(3) unfolding w by auto
  qed
qed

text \<open>A unit of ten seconds, a cap of an hour, the thirtieth attempt.\<close>

theorem backoff_overflows_witness:
  "exponentialBackoffWait 10000000000 3600000000000 NoJitter 0 30 = - 7709325833709551616"
  using backoff_overflows[of 10000000000 3600000000000 30 0] by simp

end
