(* ===== verification/Net_Rpc.thy ===== *)
theory Net_Rpc
  imports Performance_Server Chaos_Server
begin

section \<open>The reconnecting RPC client (chaos/net-rpc-client.go, performance/net-rpc-client.go)\<close>

text \<open>
  The client behind the \<^verbatim>\<open>NetLocker\<close> interface of the chaos and the performance program; the two
  files are identical. Of the \<^verbatim>\<open>net/rpc\<close> package it uses dialling, calling and closing: a
  connection is open or shut down, a call on a connection that is shut down fails with
  \<^verbatim>\<open>ErrShutdown\<close> without reaching the server, a connection that breaks during a call fails that call
  with another error and is shut down from then on, and a handler that returns an error delivers
  the error and no reply.
\<close>

subsection \<open>The part of net/rpc that is used\<close>

record 's net =
  remote :: 's
  conn_open :: "bool list"

text \<open>What the network does to one dial and one call: is the server up; does the call go through,
  or does the connection break, and if so, has the server handled the request before?\<close>

datatype call_fate = Arrives | Breaks bool

record net_event =
  server_up :: bool
  fate :: call_fate

type_synonym conn = nat
type_synonym 's service = "string \<Rightarrow> LockArgs \<Rightarrow> 's \<Rightarrow> result \<times> 's"

definition rpc_DialHTTPPath :: "bool \<Rightarrow> string \<Rightarrow> string \<Rightarrow> 's net \<Rightarrow> (error + conn) \<times> 's net" where
  "rpc_DialHTTPPath up addr endpoint w =
     (if up then (Inr (length (conn_open w)), w\<lparr>conn_open := conn_open w @ [True]\<rparr>)
      else (Inl (NetError addr), w))"

text \<open>One request on a connection; \<open>f\<close> is the handler applied to the arguments, \<open>old\<close> what the caller's
  reply variable holds.\<close>

definition rpc_request :: "('s \<Rightarrow> ('r \<times> error option) \<times> 's) \<Rightarrow> call_fate \<Rightarrow> conn \<Rightarrow> 'r \<Rightarrow> 's net
    \<Rightarrow> ('r \<times> error option) \<times> 's net" where
  "rpc_request f ft c old w =
     (if \<not> conn_open w ! c then ((old, Some ErrShutdown), w)
      else case ft of
             Breaks handled \<Rightarrow>
               ((old, Some (NetError ''unexpected EOF'')),
                w\<lparr>remote := (if handled then snd (f (remote w)) else remote w),
                  conn_open := (conn_open w)[c := False]\<rparr>)
           | Arrives \<Rightarrow>
               (case f (remote w) of
                  ((reply, err), s') \<Rightarrow> ((if err = None then reply else old, err), w\<lparr>remote := s'\<rparr>)))"

definition rpc_Call :: "'s service \<Rightarrow> call_fate \<Rightarrow> conn \<Rightarrow> string \<Rightarrow> LockArgs \<Rightarrow> 's net \<Rightarrow> result \<times> 's net" where
  "rpc_Call h ft c serviceMethod args w = rpc_request (h serviceMethod args) ft c False w"

definition rpc_Close :: "conn \<Rightarrow> 's net \<Rightarrow> error option \<times> 's net" where
  "rpc_Close c w =
     (if conn_open w ! c then (None, w\<lparr>conn_open := (conn_open w)[c := False]\<rparr>) else (Some ErrShutdown, w))"

subsection \<open>The client\<close>

record ReconnectRPCClient =
  rpc_client :: "conn option"
  addr :: string
  endpoint :: string

definition newClient :: "string \<Rightarrow> string \<Rightarrow> ReconnectRPCClient" where
  "newClient ad ep = \<lparr>rpc_client = None, addr = ad, endpoint = ep\<rparr>"

definition Client_Close :: "ReconnectRPCClient \<Rightarrow> 's net \<Rightarrow> error option \<times> ReconnectRPCClient \<times> 's net" where
  "Client_Close rc w =
     (case rpc_client rc of
        None \<Rightarrow> (None, rc, w)
      | Some clnt \<Rightarrow> (case rpc_Close clnt w of (err, w') \<Rightarrow> (err, rc\<lparr>rpc_client := None\<rparr>, w')))"

definition dialCall :: "'s service \<Rightarrow> net_event \<Rightarrow> string \<Rightarrow> LockArgs \<Rightarrow> ReconnectRPCClient \<Rightarrow> 's net
    \<Rightarrow> result \<times> ReconnectRPCClient \<times> 's net" where
  "dialCall h ev serviceMethod args rc w =
     (case rpc_client rc of
        None \<Rightarrow>
          (case rpc_DialHTTPPath (server_up ev) (addr rc) (endpoint rc) w of
             (Inl derr, w') \<Rightarrow> ((False, Some derr), rc, w')
           | (Inr clnt, w') \<Rightarrow>
               (case rpc_Call h (fate ev) clnt serviceMethod args w' of
                  (r, w'') \<Rightarrow> (r, rc\<lparr>rpc_client := Some clnt\<rparr>, w'')))
      | Some clnt \<Rightarrow> (case rpc_Call h (fate ev) clnt serviceMethod args w of (r, w') \<Rightarrow> (r, rc, w')))"

text \<open>\<open>Call\<close>: on \<^verbatim>\<open>ErrShutdown\<close> the connection is closed and forgotten, and the call is tried once
  more. \<open>None\<close> is the nil dereference of \<^verbatim>\<open>rpcClient.rpc.Close()\<close>.\<close>

definition Client_Call :: "'s service \<Rightarrow> net_event \<Rightarrow> net_event \<Rightarrow> string \<Rightarrow> LockArgs \<Rightarrow> ReconnectRPCClient \<Rightarrow> 's net
    \<Rightarrow> (result \<times> ReconnectRPCClient \<times> 's net) option" where
  "Client_Call h ev1 ev2 serviceMethod args rc w =
     (case dialCall h ev1 serviceMethod args rc w of
        (r, rc1, w1) \<Rightarrow>
          if snd r = Some ErrShutdown
          then (case rpc_client rc1 of
                  None \<Rightarrow> None
                | Some clnt \<Rightarrow>
                    Some (dialCall h ev2 serviceMethod args (rc1\<lparr>rpc_client := None\<rparr>) (snd (rpc_Close clnt w1))))
          else Some (r, rc1, w1))"

text \<open>The locking methods of the interface.\<close>

definition service_name :: "NetLocker_method \<Rightarrow> string" where
  "service_name m =
     (case m of RLock \<Rightarrow> ''Dsync.RLock'' | Lock \<Rightarrow> ''Dsync.Lock''
      | RUnlock \<Rightarrow> ''Dsync.RUnlock'' | Unlock \<Rightarrow> ''Dsync.Unlock'')"

definition Client_method :: "'s service \<Rightarrow> net_event \<Rightarrow> net_event \<Rightarrow> NetLocker_method \<Rightarrow> LockArgs \<Rightarrow> ReconnectRPCClient
    \<Rightarrow> 's net \<Rightarrow> (result \<times> ReconnectRPCClient \<times> 's net) option" where
  "Client_method h ev1 ev2 m args rc w = Client_Call h ev1 ev2 (service_name m) args rc w"

definition Client_String :: "ReconnectRPCClient \<Rightarrow> string" where
  "Client_String rc = ''http://'' @ addr rc @ ''/'' @ endpoint rc"

text \<open>The dispatch of the registered service \<^verbatim>\<open>Dsync\<close>.\<close>

definition dsync_service :: "(NetLocker_method \<Rightarrow> LockArgs \<Rightarrow> 's \<Rightarrow> result \<times> 's) \<Rightarrow> 's service" where
  "dsync_service srv nm args s =
     (if nm = service_name RLock then srv RLock args s
      else if nm = service_name Lock then srv Lock args s
      else if nm = service_name RUnlock then srv RUnlock args s
      else if nm = service_name Unlock then srv Unlock args s
      else ((False, Some (NetError nm)), s))"

lemma dsync_service_name [simp]: "dsync_service srv (service_name m) args s = srv m args s"
  by (cases m) (simp_all add: dsync_service_def service_name_def)

subsection \<open>Properties of a call\<close>

text \<open>A client is linked to its connection when the connection exists.\<close>

definition client_ok :: "ReconnectRPCClient \<Rightarrow> 's net \<Rightarrow> bool" where
  "client_ok rc w \<longleftrightarrow> (case rpc_client rc of None \<Rightarrow> True | Some c \<Rightarrow> c < length (conn_open w))"

lemma dialCall_cases:
  assumes "dialCall h ev nm args rc w = (r, rc', w')" and "client_ok rc w"
    and "\<And>s. snd (fst (h nm args s)) \<noteq> Some ErrShutdown"
  shows "client_ok rc' w'" and "remote w' \<in> {remote w, snd (h nm args (remote w))}"
    and "snd r = None \<Longrightarrow> remote w' = snd (h nm args (remote w)) \<and> r = fst (h nm args (remote w))"
    and "snd r = Some ErrShutdown \<Longrightarrow> rc' = rc \<and> rpc_client rc \<noteq> None \<and> remote w' = remote w"
proof -
  have he: "h nm args s \<noteq> ((b, Some ErrShutdown), s')" for s b s' using assms(3)[of s] by auto
  show "client_ok rc' w'" "remote w' \<in> {remote w, snd (h nm args (remote w))}"
    "snd r = None \<Longrightarrow> remote w' = snd (h nm args (remote w)) \<and> r = fst (h nm args (remote w))"
    "snd r = Some ErrShutdown \<Longrightarrow> rc' = rc \<and> rpc_client rc \<noteq> None \<and> remote w' = remote w"
    using assms(1,2) he
    by (auto simp: dialCall_def rpc_DialHTTPPath_def rpc_Call_def rpc_request_def client_ok_def
        split: option.splits prod.splits if_splits call_fate.splits)
qed

lemma client_ok_forget: "client_ok (rc\<lparr>rpc_client := None\<rparr>) w"
  by (simp add: client_ok_def)

lemma remote_rpc_Close [simp]: "remote (snd (rpc_Close c w)) = remote w"
  by (simp add: rpc_Close_def)

text \<open>A call never dereferences a nil connection, and the server handles the request at most once:
  although a call that meets a connection that is shut down is made twice, the server's state at
  the end is either untouched or that after one handling; when no error is reported, the request
  has been handled exactly once and the reply is the handler's.\<close>

theorem Client_Call_at_most_once:
  assumes "client_ok rc w" and "\<And>s. snd (fst (h nm args s)) \<noteq> Some ErrShutdown"
  shows "\<exists>r rc' w'. Client_Call h ev1 ev2 nm args rc w = Some (r, rc', w') \<and> client_ok rc' w' \<and>
    (remote w' = remote w \<or> remote w' = snd (h nm args (remote w))) \<and>
    (snd r = None \<longrightarrow> remote w' = snd (h nm args (remote w)) \<and> r = fst (h nm args (remote w)))"
proof -
  obtain r1 rc1 w1 where d1: "dialCall h ev1 nm args rc w = (r1, rc1, w1)" by (metis prod_cases3)
  note D1 = dialCall_cases[OF d1 assms]
  show ?thesis
  proof (cases "snd r1 = Some ErrShutdown")
    case False
    with d1 D1 show ?thesis by (auto simp: Client_Call_def)
  next
    case True
    with D1(4) obtain c where c: "rc1 = rc" "rpc_client rc = Some c" "remote w1 = remote w" by auto
    let ?w = "snd (rpc_Close c w1)"
    obtain r2 rc2 w2 where d2: "dialCall h ev2 nm args (rc\<lparr>rpc_client := None\<rparr>) ?w = (r2, rc2, w2)" by (metis prod_cases3)
    have "Client_Call h ev1 ev2 nm args rc w = Some (r2, rc2, w2)" using d1 d2 True c by (simp add: Client_Call_def)
    with dialCall_cases[OF d2 client_ok_forget assms(2)] c(3) show ?thesis by auto
  qed
qed

text \<open>The client reconnects: with a connection that has been shut down and the server up again,
  one call closes the old connection, dials anew and delivers the request, and later calls use the
  new connection.\<close>

theorem Client_Call_reconnects:
  assumes "rpc_client rc = Some c" and "c < length (conn_open w)" and "\<not> conn_open w ! c"
    and "server_up ev2" and "fate ev2 = Arrives" and "h nm args (remote w) = ((reply, None), s')"
  shows "Client_Call h ev1 ev2 nm args rc w =
    Some ((reply, None), rc\<lparr>rpc_client := Some (length (conn_open w))\<rparr>,
          w\<lparr>remote := s', conn_open := conn_open w @ [True]\<rparr>)"
  using assms
  by (simp add: Client_Call_def dialCall_def rpc_Call_def rpc_request_def rpc_Close_def rpc_DialHTTPPath_def nth_append)

subsection \<open>A call to a chaos server over a connection that was shut down\<close>

definition restarted :: "chaos_lockServer net" where
  "restarted = \<lparr>remote = chaos_init, conn_open = [False]\<rparr>"

definition linked :: ReconnectRPCClient where
  "linked = (newClient ''localhost:12345'' ''/dsync-12345'')\<lparr>rpc_client := Some 0\<rparr>"

definition all_well :: net_event where
  "all_well = \<lparr>server_up = True, fate = Arrives\<rparr>"

abbreviation lock_req :: LockArgs where
  "lock_req \<equiv> \<lparr>UID = ''u'', Resource = ''r'', Source = []\<rparr>"

lemma chaos_no_shutdown: "snd (fst (dsync_service (chaos_server now) (service_name m) args s)) \<noteq> Some ErrShutdown"
  by (cases m) (auto simp: handler_defs Let_def split: option.splits prod.splits)

theorem Client_Call_at_most_once_witness:
  "\<exists>r rc' w'. Client_method (dsync_service (chaos_server (\<lambda>_. 3))) all_well \<lparr>server_up = True, fate = Breaks True\<rparr> Lock lock_req
      linked restarted = Some (r, rc', w') \<and>
    (remote w' = chaos_init \<or> remote w' = snd (chaos_server (\<lambda>_. 3) Lock lock_req chaos_init))"
  using Client_Call_at_most_once[of linked restarted "dsync_service (chaos_server (\<lambda>_. 3))" "service_name Lock" lock_req
      all_well "\<lparr>server_up = True, fate = Breaks True\<rparr>"] chaos_no_shutdown[of "\<lambda>_. 3" Lock lock_req]
  unfolding Client_method_def by (auto simp: client_ok_def linked_def restarted_def)

theorem Client_Call_reconnects_witness:
  "fst (the (Client_method (dsync_service (chaos_server (\<lambda>_. 3))) all_well all_well Lock lock_req linked restarted)) = (True, None)"
  using Client_Call_reconnects[of linked 0 restarted all_well "dsync_service (chaos_server (\<lambda>_. 3))" "service_name Lock" lock_req
      True _ all_well]
  unfolding Client_method_def
  by (simp add: linked_def restarted_def all_well_def handler_defs chaos_init_def)

end
