(* ===== verification/Auth_Server.thy ===== *)
theory Auth_Server
  imports Rpc_Interface
begin

section \<open>The lock server with sessions (examples/auth-locker/auth-lock-server.go)\<close>

text \<open>
  The server of the authentication example: sessions opened by \<open>Login\<close> and closed by \<open>Logout\<close>, and a
  pair of counters per resource, readers at index 0 and writers at index 1. A handler returns the
  reply and the error; the reply variable of a request starts as false.
\<close>

record auth_LockArgs =
  auth_args :: LockArgs
  SessionID :: string

record LoginArgs =
  username :: string
  password :: string

definition NewLockArgs :: "LockArgs \<Rightarrow> string \<Rightarrow> auth_LockArgs" where
  "NewLockArgs args sid = \<lparr>auth_args = args, SessionID = sid\<rparr>"

definition NewLoginArgs :: "string \<Rightarrow> string \<Rightarrow> LoginArgs" where
  "NewLoginArgs un pw = \<lparr>username = un, password = pw\<rparr>"

definition defaultUsername :: string where
  "defaultUsername = ''admin''"

definition defaultPassword :: string where
  "defaultPassword = ''adm1npasswo7d''"

definition letterBytes :: string where
  "letterBytes = ''abcdefghijklmnopqrstuvwxyzABCDEFGHIJKLMNOPQRSTUVWXYZ''"

definition validResources :: "string list" where
  "validResources = [''Music'', ''Videos'', ''Downloads'']"

definition isValidResource :: "string \<Rightarrow> bool" where
  "isValidResource resource \<longleftrightarrow> (\<exists>v \<in> set validResources. v = resource)"

text \<open>\<open>rnd k\<close> is the \<open>k\<close>-th result of \<^verbatim>\<open>rand.Intn(len(letterBytes))\<close>.\<close>

definition genSessionID :: "(nat \<Rightarrow> nat) \<Rightarrow> string" where
  "genSessionID rnd = ''AUTHLOCKER-'' @ map (\<lambda>i. letterBytes ! rnd i) [0..<16]"

record auth_LockServer =
  resourceLockMap :: "string \<rightharpoonup> int list"
  sessionList :: "string set"

definition auth_init :: auth_LockServer where
  "auth_init = \<lparr>resourceLockMap = Map.empty, sessionList = {}\<rparr>"

definition Login :: "(nat \<Rightarrow> nat) \<Rightarrow> LoginArgs \<Rightarrow> auth_LockServer \<Rightarrow> (string \<times> error option) \<times> auth_LockServer" where
  "Login rnd args ls =
     (if \<not> (username args = defaultUsername \<and> password args = defaultPassword)
      then (([], Some (NewError ''Unknown username or password'')), ls)
      else let newSessionID = genSessionID rnd
           in if newSessionID \<in> sessionList ls
              then (([], Some (NewError ''Internal error.  Try again later'')), ls)
              else ((newSessionID, None), ls\<lparr>sessionList := insert newSessionID (sessionList ls)\<rparr>))"

definition Logout :: "string \<Rightarrow> auth_LockServer \<Rightarrow> result \<times> auth_LockServer" where
  "Logout sid ls =
     (if sid \<notin> sessionList ls then ((False, Some (NewError ''No such session ID'')), ls)
      else ((True, None), ls\<lparr>sessionList := sessionList ls - {sid}\<rparr>))"

definition isLoggedIn :: "auth_LockServer \<Rightarrow> string \<Rightarrow> bool" where
  "isLoggedIn ls sid \<longleftrightarrow> sid \<in> sessionList ls"

definition auth_RLock :: "auth_LockArgs \<Rightarrow> auth_LockServer \<Rightarrow> result \<times> auth_LockServer" where
  "auth_RLock args ls =
     (if \<not> isLoggedIn ls (SessionID args) then ((False, Some (NewError ''Not logged in'')), ls)
      else if \<not> isValidResource (Resource (auth_args args)) then ((False, Some (NewError ''Invalid resource'')), ls)
      else let counters = (case resourceLockMap ls (Resource (auth_args args)) of None \<Rightarrow> [0, 0] | Some cs \<Rightarrow> cs)
           in ((True, None),
               ls\<lparr>resourceLockMap := (resourceLockMap ls)(Resource (auth_args args) \<mapsto> counters[0 := counters ! 0 + 1])\<rparr>))"

definition auth_Lock :: "auth_LockArgs \<Rightarrow> auth_LockServer \<Rightarrow> result \<times> auth_LockServer" where
  "auth_Lock args ls =
     (if \<not> isLoggedIn ls (SessionID args) then ((False, Some (NewError ''Not logged in'')), ls)
      else if \<not> isValidResource (Resource (auth_args args)) then ((False, Some (NewError ''Invalid resource'')), ls)
      else let counters = (case resourceLockMap ls (Resource (auth_args args)) of None \<Rightarrow> [0, 0] | Some cs \<Rightarrow> cs)
           in ((True, None),
               ls\<lparr>resourceLockMap := (resourceLockMap ls)(Resource (auth_args args) \<mapsto> counters[1 := counters ! 1 + 1])\<rparr>))"

text \<open>The counter slice is shared with the map, so the decrement is visible there even before the
  entry is written back or deleted; both branches end in the same map.\<close>

definition auth_RUnlock :: "auth_LockArgs \<Rightarrow> auth_LockServer \<Rightarrow> result \<times> auth_LockServer" where
  "auth_RUnlock args ls =
     (if \<not> isLoggedIn ls (SessionID args) then ((False, Some (NewError ''Not logged in'')), ls)
      else if \<not> isValidResource (Resource (auth_args args)) then ((False, Some (NewError ''Invalid resource'')), ls)
      else case resourceLockMap ls (Resource (auth_args args)) of
             None \<Rightarrow> ((False, Some (NewError ''No lock found'')), ls)
           | Some counters \<Rightarrow>
               if counters ! 0 \<le> 0 then ((False, None), ls)
               else let cs = counters[0 := counters ! 0 - 1]
                    in ((True, None),
                        if cs ! 0 = 0 \<and> cs ! 1 = 0
                        then ls\<lparr>resourceLockMap := (resourceLockMap ls)(Resource (auth_args args) := None)\<rparr>
                        else ls\<lparr>resourceLockMap := (resourceLockMap ls)(Resource (auth_args args) \<mapsto> cs)\<rparr>))"

definition auth_Unlock :: "auth_LockArgs \<Rightarrow> auth_LockServer \<Rightarrow> result \<times> auth_LockServer" where
  "auth_Unlock args ls =
     (if \<not> isLoggedIn ls (SessionID args) then ((False, Some (NewError ''Not logged in'')), ls)
      else if \<not> isValidResource (Resource (auth_args args)) then ((False, Some (NewError ''Invalid resource'')), ls)
      else case resourceLockMap ls (Resource (auth_args args)) of
             None \<Rightarrow> ((False, Some (NewError ''No lock found'')), ls)
           | Some counters \<Rightarrow>
               if counters ! 1 \<le> 0 then ((False, None), ls)
               else let cs = counters[1 := counters ! 1 - 1]
                    in ((True, None),
                        if cs ! 0 = 0 \<and> cs ! 1 = 0
                        then ls\<lparr>resourceLockMap := (resourceLockMap ls)(Resource (auth_args args) := None)\<rparr>
                        else ls\<lparr>resourceLockMap := (resourceLockMap ls)(Resource (auth_args args) \<mapsto> cs)\<rparr>))"

definition auth_ForceUnlock :: "auth_LockArgs \<Rightarrow> auth_LockServer \<Rightarrow> result \<times> auth_LockServer" where
  "auth_ForceUnlock args ls =
     (if \<not> isLoggedIn ls (SessionID args) then ((False, Some (NewError ''Not logged in'')), ls)
      else if \<not> isValidResource (Resource (auth_args args)) then ((False, Some (NewError ''Invalid resource'')), ls)
      else if resourceLockMap ls (Resource (auth_args args)) = None then ((False, Some (NewError ''No lock found'')), ls)
      else ((False, Some (NewError ''ForceUnlock is not supported'')), ls))"

text \<open>The requests of the service, as the client issues them.\<close>

datatype auth_request =
    ReqLogin "nat \<Rightarrow> nat" LoginArgs
  | ReqLogout string
  | ReqLock NetLocker_method auth_LockArgs
  | ReqForceUnlock auth_LockArgs

definition auth_method :: "NetLocker_method \<Rightarrow> auth_LockArgs \<Rightarrow> auth_LockServer \<Rightarrow> result \<times> auth_LockServer" where
  "auth_method m args ls =
     (case m of RLock \<Rightarrow> auth_RLock args ls | Lock \<Rightarrow> auth_Lock args ls
      | RUnlock \<Rightarrow> auth_RUnlock args ls | Unlock \<Rightarrow> auth_Unlock args ls)"

fun auth_serve :: "auth_request \<Rightarrow> auth_LockServer \<Rightarrow> auth_LockServer" where
  "auth_serve (ReqLogin rnd args) ls = snd (Login rnd args ls)"
| "auth_serve (ReqLogout sid) ls = snd (Logout sid ls)"
| "auth_serve (ReqLock m args) ls = snd (auth_method m args ls)"
| "auth_serve (ReqForceUnlock args) ls = snd (auth_ForceUnlock args ls)"

lemmas auth_handler_defs [handler_defs] = auth_method_def auth_RLock_def auth_Lock_def auth_RUnlock_def auth_Unlock_def
  auth_ForceUnlock_def isLoggedIn_def

subsection \<open>Invariant\<close>

text \<open>The counters of a recorded resource are a pair of natural numbers that are not both zero, and
  only valid resources are recorded.\<close>

definition counters_ok :: "int list \<Rightarrow> bool" where
  "counters_ok cs \<longleftrightarrow> length cs = 2 \<and> 0 \<le> cs ! 0 \<and> 0 \<le> cs ! 1 \<and> 0 < cs ! 0 + cs ! 1"

definition auth_inv :: "auth_LockServer \<Rightarrow> bool" where
  "auth_inv ls \<longleftrightarrow> (\<forall>r cs. resourceLockMap ls r = Some cs \<longrightarrow> isValidResource r \<and> counters_ok cs)"

lemma counters_inc: "counters_ok cs \<or> cs = [0, 0] \<Longrightarrow> i < 2 \<Longrightarrow> counters_ok (cs[i := cs ! i + 1])"
  by (auto simp: counters_ok_def nth_list_update dest!: less_2_cases)

lemma counters_dec:
  "counters_ok cs \<Longrightarrow> i < 2 \<Longrightarrow> 0 < cs ! i \<Longrightarrow> \<not> (cs[i := cs ! i - 1] ! 0 = 0 \<and> cs[i := cs ! i - 1] ! 1 = 0) \<Longrightarrow>
    counters_ok (cs[i := cs ! i - 1])"
  by (cases "i = 0") (auto simp: counters_ok_def nth_list_update)

lemma auth_inv_update:
  "auth_inv ls \<Longrightarrow> isValidResource r \<Longrightarrow> counters_ok cs \<Longrightarrow> auth_inv (ls\<lparr>resourceLockMap := (resourceLockMap ls)(r \<mapsto> cs)\<rparr>)"
  "auth_inv ls \<Longrightarrow> auth_inv (ls\<lparr>resourceLockMap := (resourceLockMap ls)(r := None)\<rparr>)"
  "auth_inv ls \<Longrightarrow> auth_inv (ls\<lparr>sessionList := ss\<rparr>)"
  by (auto simp: auth_inv_def)

lemma auth_inv_method: "auth_inv ls \<Longrightarrow> auth_inv (snd (auth_method m args ls))"
proof -
  assume inv: "auth_inv ls"
  let ?r = "Resource (auth_args args)"
  have cs: "resourceLockMap ls ?r = Some cs \<Longrightarrow> counters_ok cs" for cs using inv by (simp add: auth_inv_def)
  show ?thesis
  proof (cases "resourceLockMap ls ?r")
    case None
    then show ?thesis using inv counters_inc[of "[0, 0]" 0] counters_inc[of "[0, 0]" 1]
      by (cases m) (auto simp: auth_handler_defs intro!: auth_inv_update)
  next
    case (Some c)
    then show ?thesis
      using inv cs[OF Some] counters_inc[of c 0] counters_inc[of c 1] counters_dec[of c 0] counters_dec[of c 1]
      by (cases m) (simp_all add: auth_handler_defs Let_def auth_inv_update)
  qed
qed

lemma auth_inv_serve: "auth_inv ls \<Longrightarrow> auth_inv (auth_serve q ls)"
  by (cases q) (auto simp: Login_def Logout_def Let_def auth_inv_update auth_inv_method auth_ForceUnlock_def)

lemma auth_inv_init: "auth_inv auth_init"
  by (simp add: auth_inv_def auth_init_def)

subsection \<open>The properties\<close>

lemma auth_inv_run: "auth_inv ls \<Longrightarrow> auth_inv (fold auth_serve reqs ls)"
  by (induction reqs arbitrary: ls) (auto intro: auth_inv_serve)

text \<open>(C38) No operation on locks is performed without a session or on an unknown resource: the request
  is answered with an error and the server does not change.\<close>

theorem auth_requires_login:
  assumes "SessionID args \<notin> sessionList ls \<or> Resource (auth_args args) \<notin> {''Music'', ''Videos'', ''Downloads''}"
  shows "snd (auth_method m args ls) = ls \<and> snd (auth_ForceUnlock args ls) = ls \<and>
    fst (auth_method m args ls) =
      (False, Some (NewError (if SessionID args \<notin> sessionList ls then ''Not logged in'' else ''Invalid resource''))) \<and>
    fst (auth_ForceUnlock args ls) = fst (auth_method m args ls)"
  using assms by (cases m) (auto simp: auth_handler_defs isValidResource_def validResources_def)

text \<open>After any sequence of requests the counters the server keeps for a resource are a pair of
  natural numbers that are not both zero: a resource without locks has no entry.\<close>

theorem auth_counters_after_any_requests:
  "auth_inv (fold auth_serve reqs auth_init)"
  using auth_inv_init by (rule auth_inv_run)

text \<open>A lock that is granted and given back leaves the server as it was, for both kinds.\<close>

theorem auth_lock_unlock_roundtrip:
  assumes "auth_inv ls" and "m = Lock \<and> m' = Unlock \<or> m = RLock \<and> m' = RUnlock"
    and "fst (auth_method m args ls) = (True, None)"
  shows "auth_method m' args (snd (auth_method m args ls)) = ((True, None), ls)"
proof (cases "resourceLockMap ls (Resource (auth_args args))")
  case None
  then show ?thesis using assms(2,3) by (auto simp: auth_handler_defs fun_upd_idem split: if_splits)
next
  case (Some cs)
  with assms(1) have "counters_ok cs" by (simp add: auth_inv_def)
  then obtain a b where "cs = [a, b]" "0 \<le> a" "0 \<le> b" "0 < a + b"
    by (auto simp: counters_ok_def numeral_2_eq_2 length_Suc_conv)
  with Some show ?thesis using assms(2,3) by (auto simp: auth_handler_defs Let_def fun_upd_idem split: if_splits)
qed

text \<open>(C39) The server does not exclude anybody: every logged-in request for a valid resource is granted a
  write lock, whatever locks are held. So it does not satisfy the contract of a lock server.\<close>

theorem auth_grants_every_writer:
  assumes "SessionID args \<in> sessionList ls" and "Resource (auth_args args) \<in> {''Music'', ''Videos'', ''Downloads''}"
  shows "fst (auth_method Lock args ls) = (True, None) \<and>
    fst (auth_method Lock args (snd (auth_method Lock args ls))) = (True, None)"
  using assms by (auto simp: auth_handler_defs Let_def isValidResource_def validResources_def)

text \<open>Sessions: with the right credentials and an identifier that is not in use \<open>Login\<close> opens a
  session, \<open>Logout\<close> of it restores the server, and with wrong credentials nothing changes.\<close>

theorem auth_login_logout:
  assumes "genSessionID rnd \<notin> sessionList ls"
  shows "if args = NewLoginArgs defaultUsername defaultPassword
    then Login rnd args ls = ((genSessionID rnd, None), ls\<lparr>sessionList := insert (genSessionID rnd) (sessionList ls)\<rparr>) \<and>
      isLoggedIn (snd (Login rnd args ls)) (genSessionID rnd) \<and>
      Logout (genSessionID rnd) (snd (Login rnd args ls)) = ((True, None), ls)
    else snd (Login rnd args ls) = ls \<and> snd (fst (Login rnd args ls)) \<noteq> None"
  using assms by (cases args) (auto simp: Login_def Logout_def isLoggedIn_def NewLoginArgs_def Let_def)

subsection \<open>A session on the server\<close>

definition in_session :: auth_LockServer where
  "in_session = snd (Login (\<lambda>_. 0) (NewLoginArgs ''admin'' ''adm1npasswo7d'') auth_init)"

definition music :: auth_LockArgs where
  "music = NewLockArgs \<lparr>UID = ''u'', Resource = ''Music'', Source = []\<rparr> (genSessionID (\<lambda>_. 0))"

lemmas auth_eval = in_session_def music_def auth_init_def Login_def NewLoginArgs_def NewLockArgs_def
  defaultUsername_def defaultPassword_def

lemma music_session: "SessionID music \<in> sessionList in_session" "Resource (auth_args music) = ''Music''"
  by (simp_all add: auth_eval Let_def)

theorem auth_requires_login_witness:
  "fst (auth_method Lock music auth_init) = (False, Some (NewError ''Not logged in''))"
  using auth_requires_login[of music auth_init Lock] by (simp add: auth_init_def)

theorem auth_grants_every_writer_witness:
  "fst (auth_method Lock music (snd (auth_method Lock music in_session))) = (True, None)"
  using auth_grants_every_writer[of music in_session] music_session by simp

theorem auth_lock_unlock_roundtrip_witness:
  "auth_method Unlock music (snd (auth_method Lock music in_session)) = ((True, None), in_session)"
proof -
  have inv: "auth_inv in_session" using auth_inv_serve[OF auth_inv_init, of "ReqLogin (\<lambda>_. 0) (NewLoginArgs ''admin'' ''adm1npasswo7d'')"]
    by (simp add: in_session_def)
  have "fst (auth_method Lock music in_session) = (True, None)"
    using music_session by (simp add: auth_handler_defs Let_def isValidResource_def validResources_def)
  from auth_lock_unlock_roundtrip[OF inv _ this] show ?thesis by simp
qed

theorem auth_login_logout_witness:
  "Logout (genSessionID (\<lambda>_. 0)) in_session = ((True, None), auth_init)"
proof -
  have "genSessionID (\<lambda>_. 0) \<notin> sessionList auth_init" by (simp add: auth_init_def)
  from auth_login_logout[OF this, of "NewLoginArgs defaultUsername defaultPassword"]
  show ?thesis by (auto simp: in_session_def defaultUsername_def defaultPassword_def)
qed

end
