(* ===== verification/Auth_Client.thy ===== *)
theory Auth_Client
  imports Net_Rpc Auth_Server
begin

section \<open>The client with sessions (examples/auth-locker/auth-lock-client.go)\<close>

text \<open>
  The client of the authentication example over the same model of \<^verbatim>\<open>net/rpc\<close> as the other client: it
  dials on demand, logs in when it has no session, and repeats a call once after \<^verbatim>\<open>ErrShutdown\<close>.

  The arguments of a request are encoded by \<^verbatim>\<open>encoding/gob\<close>, which sends the exported fields of a
  struct only and refuses a struct that has fields but no exported one. \<^verbatim>\<open>LoginArgs\<close> is such a
  struct.
\<close>

record auth_client =
  netRPCClient :: "conn option"
  serverAddr :: string
  serviceEndpoint :: string
  sessionID :: string

definition newReconnectRPCClient :: "string \<Rightarrow> string \<Rightarrow> auth_client" where
  "newReconnectRPCClient ad ep = \<lparr>netRPCClient = None, serverAddr = ad, serviceEndpoint = ep, sessionID = []\<rparr>"

text \<open>The ways in which establishing a connection can end: the TCP connection fails, the HTTP response
  cannot be read or is not the expected one, the client object cannot be made, or all is well.\<close>

datatype dial_outcome = DialFails | NoResponse | UnexpectedStatus string | NilClient | Connected

text \<open>What the network does during one \<open>Call\<close>, and the random numbers of the login.\<close>

record auth_event =
  dialed :: dial_outcome
  login_fate :: call_fate
  login_rnd :: "nat \<Rightarrow> nat"
  main_fate :: call_fate
  logout_fate :: call_fate

type_synonym auth_net = "auth_LockServer net"

text \<open>Exported names of Go, and the check of \<^verbatim>\<open>encoding/gob\<close> on the fields of a struct. A request whose
  arguments cannot be encoded fails at the client, after the check for a connection that is shut
  down.\<close>

definition exported :: "string \<Rightarrow> bool" where
  "exported nm \<longleftrightarrow> nm \<noteq> [] \<and> hd nm \<in> set ''ABCDEFGHIJKLMNOPQRSTUVWXYZ''"

definition gob_encodes :: "string list \<Rightarrow> bool" where
  "gob_encodes fs \<longleftrightarrow> fs = [] \<or> (\<exists>f \<in> set fs. exported f)"

definition LoginArgs_fields :: "string list" where
  "LoginArgs_fields = [''username'', ''password'']"

definition auth_LockArgs_fields :: "string list" where
  "auth_LockArgs_fields = [''LockArgs'', ''SessionID'']"

definition gob_request :: "string list \<Rightarrow> (auth_LockServer \<Rightarrow> ('r \<times> error option) \<times> auth_LockServer) \<Rightarrow> call_fate \<Rightarrow> conn \<Rightarrow> 'r
    \<Rightarrow> auth_net \<Rightarrow> ('r \<times> error option) \<times> auth_net" where
  "gob_request fs f ft c old w =
     (if conn_open w ! c \<and> \<not> gob_encodes fs
      then ((old, Some (NetError ''gob: type has no exported fields'')), w)
      else rpc_request f ft c old w)"

text \<open>Every failed dial is reported as a \<^verbatim>\<open>net.OpError\<close> of this network name.\<close>

definition op_error :: "auth_client \<Rightarrow> error" where
  "op_error rc = NetError (serverAddr rc @ '' '' @ serviceEndpoint rc)"

definition auth_dial :: "dial_outcome \<Rightarrow> auth_client \<Rightarrow> auth_net \<Rightarrow> (error + conn) \<times> auth_client \<times> auth_net" where
  "auth_dial out rc w =
     (case netRPCClient rc of
        Some c \<Rightarrow> (Inr c, rc, w)
      | None \<Rightarrow>
          (case out of
             Connected \<Rightarrow>
               (Inr (length (conn_open w)), rc\<lparr>netRPCClient := Some (length (conn_open w))\<rparr>,
                w\<lparr>conn_open := conn_open w @ [True]\<rparr>)
           | _ \<Rightarrow> (Inl (op_error rc), rc, w)))"

definition auth_Close :: "call_fate \<Rightarrow> auth_client \<Rightarrow> auth_net \<Rightarrow> auth_client \<times> auth_net" where
  "auth_Close ft rc w =
     (case netRPCClient rc of
        None \<Rightarrow> (rc, w)
      | Some c \<Rightarrow>
          (let w' = snd (rpc_request (Logout (sessionID rc)) ft c False w)
           in (rc\<lparr>netRPCClient := None\<rparr>, snd (rpc_Close c w'))))"

definition auth_Call :: "auth_event \<Rightarrow> (auth_LockServer \<Rightarrow> result \<times> auth_LockServer) \<Rightarrow> bool \<Rightarrow> auth_client \<Rightarrow> auth_net
    \<Rightarrow> result \<times> auth_client \<times> auth_net" where
  "auth_Call ev f reply rc w =
     (case auth_dial (dialed ev) rc w of
        (Inl err, rc1, w1) \<Rightarrow> ((reply, Some err), rc1, w1)
      | (Inr c, rc1, w1) \<Rightarrow>
          (case (if sessionID rc1 = []
                 then gob_request LoginArgs_fields (Login (login_rnd ev) (NewLoginArgs ''admin'' ''adm1npasswo7d''))
                        (login_fate ev) c (sessionID rc1) w1
                 else ((sessionID rc1, None), w1)) of
             ((sid, Some err), w2) \<Rightarrow>
               (if err = ErrShutdown
                then (case auth_Close (logout_fate ev) rc1 w2 of (rc2, w3) \<Rightarrow> ((reply, Some err), rc2, w3))
                else ((reply, Some err), rc1, w2))
           | ((sid, None), w2) \<Rightarrow>
               (case gob_request auth_LockArgs_fields f (main_fate ev) c reply w2 of
                  ((reply', err), w3) \<Rightarrow>
                    ((reply', err), rc1\<lparr>sessionID := sid\<rparr>,
                     if err = Some ErrShutdown then snd (rpc_Close c w3) else w3))))"

text \<open>The locking methods: the arguments carry the session the client has when the method starts.\<close>

definition auth_client_method :: "auth_event \<Rightarrow> auth_event \<Rightarrow> NetLocker_method \<Rightarrow> LockArgs \<Rightarrow> auth_client \<Rightarrow> auth_net
    \<Rightarrow> result \<times> auth_client \<times> auth_net" where
  "auth_client_method ev1 ev2 m args rc w =
     (let lockArgs = NewLockArgs args (sessionID rc)
      in case auth_Call ev1 (auth_method m lockArgs) False rc w of
           ((status, err), rc1, w1) \<Rightarrow>
             if err = Some ErrShutdown then auth_Call ev2 (auth_method m lockArgs) status rc1 w1
             else ((status, err), rc1, w1))"

definition auth_client_ForceUnlock :: "auth_event \<Rightarrow> auth_event \<Rightarrow> LockArgs \<Rightarrow> auth_client \<Rightarrow> auth_net
    \<Rightarrow> result \<times> auth_client \<times> auth_net" where
  "auth_client_ForceUnlock ev1 ev2 args rc w =
     (let lockArgs = NewLockArgs args (sessionID rc)
      in case auth_Call ev1 (auth_ForceUnlock lockArgs) False rc w of
           ((status, err), rc1, w1) \<Rightarrow>
             if err = Some ErrShutdown then auth_Call ev2 (auth_ForceUnlock lockArgs) status rc1 w1
             else ((status, err), rc1, w1))"

definition auth_client_String :: "auth_client \<Rightarrow> string" where
  "auth_client_String rc = ''http://'' @ serverAddr rc @ ''/'' @ serviceEndpoint rc"

subsection \<open>The properties\<close>

lemma gob_encodes_args [simp]: "\<not> gob_encodes LoginArgs_fields" "gob_encodes auth_LockArgs_fields"
  by (simp_all add: gob_encodes_def exported_def LoginArgs_fields_def auth_LockArgs_fields_def)

lemmas auth_call_defs = auth_client_method_def auth_Call_def auth_dial_def gob_request_def rpc_request_def Let_def

text \<open>The connection of a client exists.\<close>

definition auth_client_ok :: "auth_client \<Rightarrow> auth_net \<Rightarrow> bool" where
  "auth_client_ok rc w \<longleftrightarrow> (case netRPCClient rc of None \<Rightarrow> True | Some c \<Rightarrow> c < length (conn_open w))"

text \<open>A call without a session ends at the login.\<close>

lemma auth_Call_no_session:
  assumes "sessionID rc = []" and "auth_client_ok rc w" and "auth_Call ev f reply rc w = (r, rc', w')"
  shows "fst r = reply \<and> snd r \<noteq> None \<and> sessionID rc' = [] \<and> auth_client_ok rc' w' \<and> remote w' = remote w"
  using assms
  by (auto simp: auth_call_defs auth_Close_def rpc_Close_def auth_client_ok_def nth_append
      split: option.splits dial_outcome.splits if_splits prod.splits)

lemma auth_method_no_session:
  assumes "sessionID rc = []" and "auth_client_ok rc w" and "auth_client_method ev1 ev2 m args rc w = (r, rc', w')"
  shows "\<not> fst r \<and> snd r \<noteq> None \<and> sessionID rc' = [] \<and> auth_client_ok rc' w' \<and> remote w' = remote w"
proof -
  let ?f = "auth_method m (NewLockArgs args (sessionID rc))"
  obtain r1 rc1 w1 where c1: "auth_Call ev1 ?f False rc w = (r1, rc1, w1)" by (metis prod_cases3)
  note C1 = auth_Call_no_session[OF assms(1,2) c1]
  show ?thesis
  proof (cases "snd r1 = Some ErrShutdown")
    case False
    with c1 assms(3) C1 show ?thesis by (cases r1) (auto simp: auth_client_method_def Let_def)
  next
    case True
    then have c2: "auth_Call ev2 ?f (fst r1) rc1 w1 = (r, rc', w')"
      using c1 assms(3) by (cases r1) (simp add: auth_client_method_def Let_def)
    from C1 have "sessionID rc1 = []" "auth_client_ok rc1 w1" by simp_all
    from auth_Call_no_session[OF this c2] C1 show ?thesis by simp
  qed
qed

text \<open>A sequence of method calls by one client; the result lists what each call returned.\<close>

fun auth_calls :: "(auth_event \<times> auth_event \<times> NetLocker_method \<times> LockArgs) list \<Rightarrow> auth_client \<Rightarrow> auth_net
    \<Rightarrow> result list \<times> auth_client \<times> auth_net" where
  "auth_calls [] rc w = ([], rc, w)"
| "auth_calls ((ev1, ev2, m, args) # cs) rc w =
     (case auth_client_method ev1 ev2 m args rc w of
        (r, rc1, w1) \<Rightarrow> (case auth_calls cs rc1 w1 of (rs, rc2, w2) \<Rightarrow> (r # rs, rc2, w2)))"

lemma auth_calls_no_session:
  assumes "sessionID rc = []" and "auth_client_ok rc w" and "auth_calls cs rc w = (rs, rc', w')"
  shows "(\<forall>r \<in> set rs. \<not> fst r \<and> snd r \<noteq> None) \<and> sessionID rc' = [] \<and> remote w' = remote w"
  using assms
proof (induction cs arbitrary: rc w rs rc' w')
  case Nil
  then show ?case by simp
next
  case (Cons x cs)
  obtain ev1 ev2 m args where x: "x = (ev1, ev2, m, args)" by (cases x)
  obtain r rc1 w1 where one: "auth_client_method ev1 ev2 m args rc w = (r, rc1, w1)" by (metis prod_cases3)
  obtain rs1 rc2 w2 where rest: "auth_calls cs rc1 w1 = (rs1, rc2, w2)" by (metis prod_cases3)
  note O = auth_method_no_session[OF Cons.prems(1,2) one]
  from O have "sessionID rc1 = []" "auth_client_ok rc1 w1" by simp_all
  from Cons.IH[OF this rest] O Cons.prems(3) show ?case by (auto simp: x one rest)
qed

text \<open>The client of the example never acquires or releases a lock: the fields of \<^verbatim>\<open>LoginArgs\<close> are not
  exported, so the login of every call fails in the encoder. Whatever the network does, every
  locking method of a new client returns false and an error, the client stays without a session and
  the server is never changed.\<close>

theorem auth_client_never_locks:
  assumes "auth_calls cs (newReconnectRPCClient ad ep) w = (rs, rc', w')"
  shows "(\<forall>r \<in> set rs. \<not> fst r \<and> snd r \<noteq> None) \<and> sessionID rc' = [] \<and> remote w' = remote w"
  using assms by (intro auth_calls_no_session) (simp_all add: newReconnectRPCClient_def auth_client_ok_def)

text \<open>Two further defects that the failing login hides. With a session, a client whose connection is
  shut down does not reconnect, because \<open>Call\<close> closes the connection without forgetting it.\<close>

lemma session_never_reconnects:
  assumes "netRPCClient rc = Some c" and "c < length (conn_open w)" and "\<not> conn_open w ! c" and "sessionID rc \<noteq> []"
  shows "auth_client_method ev1 ev2 m args rc w = ((False, Some ErrShutdown), rc, w)"
  using assms by (simp add: auth_call_defs rpc_Close_def)

text \<open>And \<open>Close\<close> ends the session at the server but keeps its identifier, so that the client would
  present it again and never log in anew.\<close>

lemma close_keeps_session: "auth_Close ft rc w = (rc', w') \<Longrightarrow> sessionID rc' = sessionID rc"
  by (auto simp: auth_Close_def Let_def split: option.splits)

lemma close_logs_out:
  assumes "netRPCClient rc = Some c" and "c < length (conn_open w)" and "conn_open w ! c"
    and "auth_Close Arrives rc w = (rc', w')"
  shows "sessionID rc' \<notin> sessionList (remote w')"
  using assms by (auto simp: auth_Close_def rpc_request_def Logout_def rpc_Close_def Let_def split: if_splits)

subsection \<open>A concrete run\<close>

definition fine :: auth_event where
  "fine = \<lparr>dialed = Connected, login_fate = Arrives, login_rnd = (\<lambda>_. 0), main_fate = Arrives, logout_fate = Arrives\<rparr>"

definition fresh_net :: auth_net where
  "fresh_net = \<lparr>remote = auth_init, conn_open = []\<rparr>"

abbreviation videos :: LockArgs where
  "videos \<equiv> \<lparr>UID = ''u'', Resource = ''Videos'', Source = []\<rparr>"

theorem auth_client_never_locks_witness:
  "\<exists>rc' w' r1 r2. auth_calls [(fine, fine, Lock, videos), (fine, fine, Lock, videos)]
       (newReconnectRPCClient ''host'' ''lock'') fresh_net = ([r1, r2], rc', w') \<and> \<not> fst r1 \<and> \<not> fst r2 \<and> remote w' = auth_init"
proof -
  obtain rs rc' w' where run: "auth_calls [(fine, fine, Lock, videos), (fine, fine, Lock, videos)]
      (newReconnectRPCClient ''host'' ''lock'') fresh_net = (rs, rc', w')" by (metis prod_cases3)
  then obtain r1 r2 where "rs = [r1, r2]" by (auto split: prod.splits)
  with auth_client_never_locks[OF run] run show ?thesis by (auto simp: fresh_net_def)
qed

end
