(* ===== verification/Auth_Example.thy ===== *)
theory Auth_Example
  imports Auth_Client Lock_Properties Go_Text
begin

section \<open>The main program of the example (examples/auth-locker/main.go)\<close>

text \<open>
  Four session servers and four clients, one mutex on the resource \<^verbatim>\<open>Music\<close>, one lock and one unlock. The lock
  clients of \<open>DRWMutex\<close> are here objects that hold a client, its connections with the server behind
  them, and what the network does to the calls to come.
\<close>

subsection \<open>A session client as a lock client\<close>

record auth_locker =
  al_client :: auth_client
  al_net :: auth_net
  al_events :: "nat \<Rightarrow> auth_event"
  al_calls :: nat

definition auth_locker_method :: "auth_locker NetLocker" where
  "auth_locker_method m args l =
     (case auth_client_method (al_events l (2 * al_calls l)) (al_events l (2 * al_calls l + 1)) m args (al_client l) (al_net l) of
        (r, rc, w) \<Rightarrow> (r, l\<lparr>al_client := rc, al_net := w, al_calls := Suc (al_calls l)\<rparr>))"

subsection \<open>The program\<close>

definition basePort :: nat where
  "basePort = 50001"

definition serviceEndpointPrefix :: string where
  "serviceEndpointPrefix = ''/lockserver-''"

definition lockClients :: "auth_client list" where
  "lockClients = map (\<lambda>i. newReconnectRPCClient ''localhost'' (serviceEndpointPrefix @ Itoa (basePort + i))) [0..<4]"

text \<open>The clients at the start, over servers that \<^verbatim>\<open>StartLockServer\<close> has made; whether and when they listen is up
  to the network. The address has no port, so that the dial of the code in fact always fails; the model leaves that to
  the network too.\<close>

definition main_store :: "(nat \<Rightarrow> nat \<Rightarrow> auth_event) \<Rightarrow> auth_locker store" where
  "main_store ev k =
     \<lparr>al_client = (if k < 4 then lockClients ! k else newReconnectRPCClient [] []),
      al_net = \<lparr>remote = auth_init, conn_open = []\<rparr>, al_events = ev k, al_calls = 0\<rparr>"

text \<open>How the program ends: a fatal log, a panic, or the return of \<^verbatim>\<open>main\<close>; \<open>None\<close> while \<open>Lock\<close> has not returned.\<close>

datatype main_end = MainFatal error | MainPanic panic | MainReturns

definition auth_main :: "(nat \<Rightarrow> nat \<Rightarrow> auth_event) \<Rightarrow> attempt list \<Rightarrow> main_end option \<times> auth_locker store" where
  "auth_main ev rounds =
     (let st = main_store ev
      in case New [0..<length lockClients] of
           Inl err \<Rightarrow> (Some (MainFatal err), st)
         | Inr ds \<Rightarrow>
             (case DRWMutex_Lock auth_locker_method ''Music'' ''main.go:50:main()'' rounds (NewDRWMutex ''Music'' ds) st of
                (None, dm, st') \<Rightarrow> (None, st')
              | (Some _, dm, st') \<Rightarrow>
                  (case DRWMutex_Unlock auth_locker_method dm st' of
                     Inl p \<Rightarrow> (Some (MainPanic p), st')
                   | Inr (dm', st'') \<Rightarrow> (Some MainReturns, st''))))"

subsection \<open>The example never gets its lock\<close>

definition auth_locker_fresh :: "auth_locker \<Rightarrow> bool" where
  "auth_locker_fresh l \<longleftrightarrow> sessionID (al_client l) = [] \<and> auth_client_ok (al_client l) (al_net l) \<and> remote (al_net l) = auth_init"

lemma auth_locker_refuses:
  assumes "auth_locker_fresh l"
  shows "\<not> fst (fst (auth_locker_method m args l)) \<and> auth_locker_fresh (snd (auth_locker_method m args l))"
proof -
  obtain r rc w where one: "auth_client_method (al_events l (2 * al_calls l)) (al_events l (2 * al_calls l + 1)) m args
      (al_client l) (al_net l) = (r, rc, w)" by (metis prod_cases3)
  from auth_method_no_session[OF _ _ one] assms one show ?thesis
    by (simp add: auth_locker_fresh_def auth_locker_method_def)
qed

lemma New_lockClients: "New [0..<length lockClients] = Inr ds_four"
  by (simp add: New_Inr_iff lockClients_def ds_four_def upt_conv_Cons)

text \<open>(C40) Whatever the network does and however often the mutex tries, as long as less than the infinite
  timeout of 292 years has passed, the main program of the example is still inside its first \<open>Lock\<close>
  and no server holds a lock or a session: the login of every call fails in the encoder.\<close>

theorem auth_main_never_locks:
  assumes "\<forall>a \<in> set rounds. distinct (att_arrivals a) \<and> set (att_arrivals a) = {..<4} \<and> att_elapsed a < drwMutexInfinite"
  shows "\<exists>st. auth_main ev rounds = (None, st) \<and> (\<forall>k < 4. remote (al_net (st k)) = auth_init)"
proof -
  let ?dm = "NewDRWMutex ''Music'' ds_four"
  have c: "clnt ?dm = ds_four" "length (restClnts ds_four) = 4" by (simp_all add: NewDRWMutex_def ds_four_def)
  have k: "restClnts ds_four ! k = k" if "k < 4" for k
    using that by (simp add: ds_four_def less_Suc_eq numeral_eq_Suc nth_Cons' del: upt_conv_Cons) (auto simp: less_Suc_eq)
  have fresh: "auth_locker_fresh (main_store ev k)" for k
    by (simp add: auth_locker_fresh_def main_store_def newReconnectRPCClient_def auth_client_ok_def lockClients_def nth_append)
  obtain st' where "lockBlocking auth_locker_method drwMutexInfinite ''Music'' ''main.go:50:main()'' False rounds ?dm (main_store ev)
      = (None, ?dm, st')" "\<forall>k < 4. auth_locker_fresh (st' (restClnts ds_four ! k))"
    using lockBlocking_refused[of ?dm "''Music''" auth_locker_fresh auth_locker_method False "''main.go:50:main()''" "main_store ev" rounds
        drwMutexInfinite] auth_locker_refuses fresh assms ds_four_ok c by auto
  then show ?thesis
    using k by (simp add: auth_main_def New_lockClients DRWMutex_Lock_def auth_locker_fresh_def)
qed

theorem auth_main_never_locks_witness:
  "\<exists>st. auth_main (\<lambda>_ _. fine) (replicate 3 \<lparr>ctxDone = False, att_arrivals = [3, 1, 0, 2], att_timer = None, att_elapsed = 7\<rparr>)
      = (None, st) \<and> remote (al_net (st 2)) = auth_init"
proof -
  let ?rounds = "replicate 3 \<lparr>ctxDone = False, att_arrivals = [3, 1, 0, 2], att_timer = None, att_elapsed = 7\<rparr>"
  have "\<forall>a \<in> set ?rounds. distinct (att_arrivals a) \<and> set (att_arrivals a) = {..<4} \<and> att_elapsed a < drwMutexInfinite"
    by (auto simp: drwMutexInfinite_def)
  from auth_main_never_locks[OF this, of "\<lambda>_ _. fine"] show ?thesis by auto
qed

end
