(* ===== verification/Chaos_Maintenance.thy ===== *)
theory Chaos_Maintenance
  imports Chaos_Server
begin

section \<open>Lock maintenance of the chaos server\<close>

text \<open>
  The two operations meant for the maintenance of stale locks: \<open>getLongLivedLocks\<close> finds the entries
  whose last check is too long ago and marks them as checked, \<open>removeEntryIfExists\<close> removes one. No
  code of the repository calls them.
\<close>

definition entries_in :: "(string \<rightharpoonup> lockRequesterInfo list) \<Rightarrow> string \<Rightarrow> lockRequesterInfo list" where
  "entries_in m nm = (case m nm of None \<Rightarrow> [] | Some es \<Rightarrow> es)"

text \<open>The pairs for the entries of an array at the positions \<open>late\<close>, and the array with these entries checked at the
  times \<open>at\<close>.\<close>

definition reported :: "string \<Rightarrow> lockRequesterInfo list \<Rightarrow> (nat \<Rightarrow> bool) \<Rightarrow> nameLockRequesterInfoPair list" where
  "reported nm es late = map (\<lambda>i. \<lparr>name = nm, lri = es ! i\<rparr>) (filter late [0..<length es])"

definition rechecked :: "lockRequesterInfo list \<Rightarrow> (nat \<Rightarrow> bool) \<Rightarrow> (nat \<Rightarrow> time) \<Rightarrow> lockRequesterInfo list" where
  "rechecked es late at = map (\<lambda>i. if late i then (es ! i)\<lparr>timeLastCheck := at i\<rparr> else es ! i) [0..<length es]"

text \<open>The clock stays between \<open>t0\<close> and \<open>t1\<close>: an entry that is overdue at \<open>t0\<close> is late, and a late one is overdue at \<open>t1\<close>.\<close>

definition late_ok :: "time \<Rightarrow> time \<Rightarrow> duration \<Rightarrow> lockRequesterInfo list \<Rightarrow> (nat \<Rightarrow> bool) \<Rightarrow> (nat \<Rightarrow> time) \<Rightarrow> bool" where
  "late_ok t0 t1 interval es late at \<longleftrightarrow>
     (\<forall>i < length es. (interval \<le> t0 - timeLastCheck (es ! i) \<longrightarrow> late i) \<and>
        (late i \<longrightarrow> interval \<le> t1 - timeLastCheck (es ! i) \<and> t0 \<le> at i \<and> at i \<le> t1))"

lemma upt_Suc_map: "[0..<Suc n] = 0 # map Suc [0..<n]"
  by (simp add: upt_conv_Cons map_Suc_upt)

lemma reported_simps [simp]:
  "reported nm [] late = []"
  "reported nm (e # es) late = (if late 0 then [\<lparr>name = nm, lri = e\<rparr>] else []) @ reported nm es (\<lambda>i. late (Suc i))"
  by (simp_all add: reported_def upt_Suc_map filter_map o_def del: upt_Suc)

lemma rechecked_simps [simp]:
  "rechecked [] late at = []"
  "rechecked (e # es) late at =
     (if late 0 then e\<lparr>timeLastCheck := at 0\<rparr> else e) # rechecked es (\<lambda>i. late (Suc i)) (\<lambda>i. at (Suc i))"
  by (simp_all add: rechecked_def upt_Suc_map o_def del: upt_Suc)

lemma late_ok_Cons:
  "late_ok t0 t1 interval (e # es) late at \<longleftrightarrow>
    (interval \<le> t0 - timeLastCheck e \<longrightarrow> late 0) \<and> (late 0 \<longrightarrow> interval \<le> t1 - timeLastCheck e \<and> t0 \<le> at 0 \<and> at 0 \<le> t1) \<and>
    late_ok t0 t1 interval es (\<lambda>i. late (Suc i)) (\<lambda>i. at (Suc i))"
  by (simp add: late_ok_def All_less_Suc2)

lemma longLived_loop_spec:
  assumes "\<And>k. t0 \<le> now k \<and> now k \<le> t1"
  shows "\<exists>late at k'. longLived_loop now interval nm es k = (reported nm es late, rechecked es late at, k') \<and>
    late_ok t0 t1 interval es late at"
proof (induction es arbitrary: k)
  case Nil
  then show ?case by (simp add: late_ok_def)
next
  case (Cons e es)
  let ?c = "interval \<le> now k - timeLastCheck e"
  obtain late at k' where IH: "longLived_loop now interval nm es (if ?c then Suc (Suc k) else Suc k) =
      (reported nm es late, rechecked es late at, k')" "late_ok t0 t1 interval es late at"
    using Cons by blast
  let ?late = "\<lambda>i. case i of 0 \<Rightarrow> ?c | Suc j \<Rightarrow> late j" and ?at = "\<lambda>i. case i of 0 \<Rightarrow> now (Suc k) | Suc j \<Rightarrow> at j"
  have "longLived_loop now interval nm (e # es) k = (reported nm (e # es) ?late, rechecked (e # es) ?late ?at, k')"
    using IH(1) by (cases ?c) simp_all
  moreover have "late_ok t0 t1 interval (e # es) ?late ?at"
    using IH(2) assms[of k] assms[of "Suc k"] by (auto simp: late_ok_Cons)
  ultimately show ?case by blast
qed

lemma getLongLivedLocks_loop_spec:
  assumes "\<forall>k. t0 \<le> now k \<and> now k \<le> t1" and "distinct names"
  shows "\<exists>late at. getLongLivedLocks_loop now interval names m k =
      (concat (map (\<lambda>nm. reported nm (entries_in m nm) (late nm)) names),
       \<lambda>nm. if nm \<in> set names then map_option (\<lambda>es. rechecked es (late nm) (at nm)) (m nm) else m nm) \<and>
    (\<forall>nm \<in> set names. late_ok t0 t1 interval (entries_in m nm) (late nm) (at nm))"
  using assms(2)
proof (induction names arbitrary: m k)
  case Nil
  then show ?case by simp
next
  case (Cons nm names)
  then have "distinct names" by simp
  note IH = Cons.IH[OF this]
  show ?case
  proof (cases "m nm")
    case None
    from IH[of m k] obtain late at where "getLongLivedLocks_loop now interval names m k =
        (concat (map (\<lambda>nm. reported nm (entries_in m nm) (late nm)) names),
         \<lambda>nm. if nm \<in> set names then map_option (\<lambda>es. rechecked es (late nm) (at nm)) (m nm) else m nm)"
      "\<forall>nm \<in> set names. late_ok t0 t1 interval (entries_in m nm) (late nm) (at nm)" by blast
    with None show ?thesis
      by (intro exI[of _ late] exI[of _ at]) (auto simp: entries_in_def late_ok_def)
  next
    case (Some es)
    obtain l a k' where L: "longLived_loop now interval nm es k = (reported nm es l, rechecked es l a, k')"
      "late_ok t0 t1 interval es l a" using longLived_loop_spec[where now = now, OF assms(1)[rule_format]] by blast
    let ?m = "m(nm \<mapsto> rechecked es l a)"
    from IH[of ?m k'] obtain late at where IH: "getLongLivedLocks_loop now interval names ?m k' =
        (concat (map (\<lambda>nm. reported nm (entries_in ?m nm) (late nm)) names),
         \<lambda>nm. if nm \<in> set names then map_option (\<lambda>es. rechecked es (late nm) (at nm)) (?m nm) else ?m nm)"
      "\<forall>nm \<in> set names. late_ok t0 t1 interval (entries_in ?m nm) (late nm) (at nm)" by blast
    have other: "entries_in ?m x = entries_in m x" "x \<noteq> nm" if "x \<in> set names" for x
      using that Cons.prems by (auto simp: entries_in_def)
    have M: "map (\<lambda>x. reported x (entries_in ?m x) (late x)) names =
        map (\<lambda>x. reported x (entries_in m x) ((late(nm := l)) x)) names"
      using other by (intro map_cong) simp_all
    have "getLongLivedLocks_loop now interval names ?m k' =
        (concat (map (\<lambda>x. reported x (entries_in m x) ((late(nm := l)) x)) names),
         \<lambda>nm. if nm \<in> set names then map_option (\<lambda>es. rechecked es (late nm) (at nm)) (?m nm) else ?m nm)"
      using IH(1) unfolding M .
    moreover have "entries_in m nm = es" using Some by (simp add: entries_in_def)
    ultimately have "getLongLivedLocks_loop now interval (nm # names) m k =
        (concat (map (\<lambda>x. reported x (entries_in m x) ((late(nm := l)) x)) (nm # names)),
         \<lambda>x. if x \<in> set (nm # names) then map_option (\<lambda>es. rechecked es ((late(nm := l)) x) ((at(nm := a)) x)) (m x) else m x)"
      using Some L(1) Cons.prems by (auto simp: fun_eq_iff)
    moreover have "\<forall>x \<in> set (nm # names). late_ok t0 t1 interval (entries_in m x) ((late(nm := l)) x) ((at(nm := a)) x)"
      using IH(2) L(2) other Some by (auto simp: entries_in_def)
    ultimately show ?thesis by blast
  qed
qed

lemma set_reported: "set (reported nm es late) = {\<lparr>name = nm, lri = es ! i\<rparr> | i. i < length es \<and> late i}"
  by (auto simp: reported_def)

text \<open>(C37) With a clock that moves between \<open>t0\<close> and \<open>t1\<close> during the call, \<open>getLongLivedLocks\<close> reports the entries at
  certain positions and sets the last check of exactly these to a time in between; all other entries, and all other
  fields, stay. These positions include every entry whose last check is the interval or longer ago at \<open>t0\<close> and only such
  whose last check is at \<open>t1\<close>. A later call whose readings are less than the interval after \<open>t0\<close>, over the names in any order,
  reports no entry at these positions again.\<close>

theorem getLongLivedLocks_exact:
  assumes "distinct names" and "set names = dom m" and "\<forall>k. t0 \<le> now k \<and> now k \<le> t1"
    and "getLongLivedLocks now names m interval = (rslt, m')"
  shows "\<exists>late at. rslt = concat (map (\<lambda>nm. reported nm (entries_in m nm) (late nm)) names) \<and>
    (\<forall>nm. m' nm = map_option (\<lambda>es. rechecked es (late nm) (at nm)) (m nm)) \<and>
    (\<forall>nm i. i < length (entries_in m nm) \<longrightarrow>
       (interval \<le> t0 - timeLastCheck (entries_in m nm ! i) \<longrightarrow> late nm i) \<and>
       (late nm i \<longrightarrow> interval \<le> t1 - timeLastCheck (entries_in m nm ! i) \<and> t0 \<le> at nm i \<and> at nm i \<le> t1)) \<and>
    (\<forall>now2 names2 rslt2 m2. distinct names2 \<and> set names2 = dom m \<and> (\<forall>k. t1 \<le> now2 k \<and> now2 k < t0 + interval) \<and>
       getLongLivedLocks now2 names2 m' interval = (rslt2, m2) \<longrightarrow>
       (\<forall>p \<in> set rslt2. \<exists>i < length (entries_in m (name p)). lri p = entries_in m (name p) ! i \<and> \<not> late (name p) i))"
proof -
  from getLongLivedLocks_loop_spec[where m = m and interval = interval and k = 0, OF assms(3,1)] obtain late at where
    G: "rslt = concat (map (\<lambda>nm. reported nm (entries_in m nm) (late nm)) names)"
      "m' = (\<lambda>nm. if nm \<in> set names then map_option (\<lambda>es. rechecked es (late nm) (at nm)) (m nm) else m nm)"
    and ok: "\<forall>nm \<in> set names. late_ok t0 t1 interval (entries_in m nm) (late nm) (at nm)"
    using assms(4) by (auto simp: getLongLivedLocks_def)
  have m': "m' nm = map_option (\<lambda>es. rechecked es (late nm) (at nm)) (m nm)" for nm
    using assms(2) by (auto simp: G(2) domIff)
  have "entries_in m nm = []" if "nm \<notin> set names" for nm
    using that assms(2) by (auto simp: entries_in_def split: option.splits)
  with ok have ok': "late_ok t0 t1 interval (entries_in m nm) (late nm) (at nm)" for nm
    by (cases "nm \<in> set names") (auto simp: late_ok_def)
  have m'_nth: "length (entries_in m' nm) = length (entries_in m nm)"
    "i < length (entries_in m nm) \<Longrightarrow> entries_in m' nm ! i =
       (if late nm i then (entries_in m nm ! i)\<lparr>timeLastCheck := at nm i\<rparr> else entries_in m nm ! i)" for nm i
    by (auto simp: entries_in_def m' rechecked_def split: option.splits)
  have again: "\<exists>i < length (entries_in m (name p)). lri p = entries_in m (name p) ! i \<and> \<not> late (name p) i"
    if "distinct names2" "set names2 = dom m" and clock: "\<And>k. t1 \<le> now2 k \<and> now2 k < t0 + interval"
      and run: "getLongLivedLocks now2 names2 m' interval = (rslt2, m2)" and p: "p \<in> set rslt2" for now2 names2 rslt2 m2 p
  proof -
    have "\<forall>k. t1 \<le> now2 k \<and> now2 k \<le> t0 + interval - 1" using clock by force
    from getLongLivedLocks_loop_spec[where m = m' and interval = interval and k = 0, OF this that(1)] obtain late2 at2 where
      "rslt2 = concat (map (\<lambda>nm. reported nm (entries_in m' nm) (late2 nm)) names2)"
      "\<forall>nm \<in> set names2. late_ok t1 (t0 + interval - 1) interval (entries_in m' nm) (late2 nm) (at2 nm)"
      using run by (auto simp: getLongLivedLocks_def)
    with p obtain nm i where i: "p = \<lparr>name = nm, lri = entries_in m' nm ! i\<rparr>" "i < length (entries_in m nm)"
      "interval \<le> t0 + interval - 1 - timeLastCheck (entries_in m' nm ! i)"
      by (auto simp: set_reported late_ok_def m'_nth(1))
    have "\<not> late nm i" using i(2,3) ok'[of nm] by (auto simp: late_ok_def m'_nth(2))
    with i(1,2) show ?thesis by (auto simp: m'_nth(2))
  qed
  show ?thesis
    using G(1) m' ok' again unfolding late_ok_def by (intro exI[of _ late] exI[of _ at]) blast
qed

text \<open>Removing a reported lock keeps the server consistent and takes back exactly one lock, one of the
  reported UID on the reported resource; every other lock stays.\<close>

theorem removeEntryIfExists_removes_one:
  assumes "chaos_inv l" and "lockMap l (name p) = Some es" and "lri p \<in> set es"
  shows "chaos_inv (removeEntryIfExists p l) \<and>
    (\<exists>w. \<forall>r rd v. chaos_tok l r rd v = chaos_tok (removeEntryIfExists p l) r rd v +
      (if r = name p \<and> w = (\<not> rd) \<and> v = uid (lri p) then 1 else 0))"
proof
  let ?u = "uid (lri p)"
  have l': "removeEntryIfExists p l = snd (removeEntry (name p) ?u es l)"
    using assms(2) by (simp add: removeEntryIfExists_def)
  show "chaos_inv (removeEntryIfExists p l)"
    using removeEntry_inv[OF assms(1,2)] l' by simp
  have "fst (removeEntry (name p) ?u es l)"
    by (cases rule: removeEntry_cases[of es ?u "name p" l]) (use assms(3) in auto)
  then have rm: "removeEntry (name p) ?u es l = (True, removeEntryIfExists p l)"
    by (simp add: l' prod_eq_iff)
  show "\<exists>w. \<forall>r rd v. chaos_tok l r rd v = chaos_tok (removeEntryIfExists p l) r rd v +
      (if r = name p \<and> w = (\<not> rd) \<and> v = ?u then 1 else 0)"
  proof (rule removeEntry_tok[OF assms(2) rm])
    fix e assume "\<And>r rd v. chaos_tok l r rd v = chaos_tok (removeEntryIfExists p l) r rd v +
      (if r = name p \<and> writer e = (\<not> rd) \<and> v = ?u then 1 else 0)"
    then show ?thesis by blast
  qed
qed

subsection \<open>A map with one overdue lock\<close>

definition old_lock :: lockRequesterInfo where
  "old_lock = \<lparr>writer = True, serverAddr = [], rpcPath = [], uid = ''u'', timestamp = 1, timeLastCheck = 1\<rparr>"

theorem getLongLivedLocks_exact_witness:
  "\<exists>rslt m' rslt2 m2. getLongLivedLocks (\<lambda>k. if k = 0 then 10 else 12) [''r''] [''r'' \<mapsto> [old_lock]] 5 = (rslt, m') \<and>
     rslt = [\<lparr>name = ''r'', lri = old_lock\<rparr>] \<and> getLongLivedLocks (\<lambda>_. 13) [''r''] m' 5 = (rslt2, m2) \<and> rslt2 = []"
proof -
  obtain rslt m' where run: "getLongLivedLocks (\<lambda>k. if k = 0 then 10 else 12) [''r''] [''r'' \<mapsto> [old_lock]] 5 = (rslt, m')"
    by (metis prod.collapse)
  obtain rslt2 m2 where run2: "getLongLivedLocks (\<lambda>_. 13) [''r''] m' 5 = (rslt2, m2)" by (metis prod.collapse)
  define m where "m = [''r'' \<mapsto> [old_lock]]"
  have e: "entries_in m nm = (if nm = ''r'' then [old_lock] else [])" for nm by (simp add: m_def entries_in_def)
  have "distinct [''r'']" "set [''r''] = dom m" "\<forall>k. 10 \<le> (if k = 0 then 10 else 12 :: int) \<and> (if k = 0 then 10 else 12 :: int) \<le> 12"
    by (simp_all add: m_def)
  from getLongLivedLocks_exact[OF this run[folded m_def]] obtain late and at :: "string \<Rightarrow> nat \<Rightarrow> time" where
    rslt: "rslt = concat (map (\<lambda>nm. reported nm (entries_in m nm) (late nm)) [''r''])"
    and late: "\<forall>nm i. i < length (entries_in m nm) \<longrightarrow> (5 \<le> 10 - timeLastCheck (entries_in m nm ! i) \<longrightarrow> late nm i) \<and>
       (late nm i \<longrightarrow> 5 \<le> 12 - timeLastCheck (entries_in m nm ! i) \<and> 10 \<le> at nm i \<and> at nm i \<le> 12)"
    and again: "\<forall>now2 names2 rslt2 m2. distinct names2 \<and> set names2 = dom m \<and> (\<forall>k. 12 \<le> now2 k \<and> now2 k < 10 + 5) \<and>
       getLongLivedLocks now2 names2 m' 5 = (rslt2, m2) \<longrightarrow>
       (\<forall>p \<in> set rslt2. \<exists>i < length (entries_in m (name p)). lri p = entries_in m (name p) ! i \<and> \<not> late (name p) i)" by blast
  have l: "late ''r'' 0" using spec[OF spec[OF late, of "''r''"], of 0] by (simp add: e old_lock_def)
  have "\<forall>p \<in> set rslt2. \<exists>i < length (entries_in m (name p)). lri p = entries_in m (name p) ! i \<and> \<not> late (name p) i"
    using again[rule_format, of "[''r'']" "\<lambda>_. 13" rslt2 m2] run2 by (simp add: m_def)
  then have "p \<notin> set rslt2" for p using l by (auto simp: e split: if_splits)
  then have "rslt2 = []" by (metis list.set_intros(1) neq_Nil_conv)
  with run run2 rslt l show ?thesis by (simp add: e)
qed

theorem removeEntryIfExists_removes_one_witness:
  "chaos_inv (removeEntryIfExists \<lparr>name = ''r'', lri = old_lock\<rparr> \<lparr>lockMap = [''r'' \<mapsto> [old_lock]], srv_timestamp = 0\<rparr>)"
proof -
  have "chaos_inv \<lparr>lockMap = [''r'' \<mapsto> [old_lock]], srv_timestamp = 0\<rparr>"
    by (simp add: chaos_inv_def entries_ok_def old_lock_def isWriteLock_def)
  from removeEntryIfExists_removes_one[OF this, of "\<lparr>name = ''r'', lri = old_lock\<rparr>"] show ?thesis by simp
qed

end
