(* ===== verification/Attempt_Equivalence.thy ===== *)
theory Attempt_Equivalence
  imports Schedule Mutex_Cycle
begin

section \<open>The sequential attempt as a schedule\<close>

text \<open>
  \<open>lock\<close> of \<open>DRWMutex\<close> describes an attempt as one function, with the order of the replies and the point at which
  the timer fires as arguments; \<open>Lock_System\<close> describes it as steps of goroutines. Here every result
  of the function is shown to be the result of a schedule of the steps in which all messages are
  delivered and nobody else acts. The same is shown for a blocking call with all its attempts and for
  the two unlocks, so the sequential theorems speak about runs of the transition system.
\<close>

subsection \<open>Schedules of one attempt\<close>

text \<open>\<open>runs_to\<close>: a schedule leads attempt \<open>p\<close> from one state to another, leaving the rest alone.\<close>

definition att_state :: "nat \<Rightarrow> 's store \<Rightarrow> lock_run \<Rightarrow> 's sys \<Rightarrow> 's sys" where
  "att_state p st r S = S\<lparr>servers := st, runs := (runs S)[p := r]\<rparr>"

definition runs_to :: "('e, 's) server \<Rightarrow> 's \<Rightarrow> Dsync \<Rightarrow> 'e action list \<Rightarrow> nat \<Rightarrow> 's sys \<Rightarrow> 's store \<Rightarrow> lock_run
    \<Rightarrow> 's store \<Rightarrow> lock_run \<Rightarrow> bool" where
  "runs_to srv init ds as p S st r st' r' \<longleftrightarrow>
     exec_all srv init ds as (att_state p st r S) = Some (att_state p st' r' S)"

lemma exec_all_append:
  "exec_all srv init ds (as @ bs) S = (case exec_all srv init ds as S of None \<Rightarrow> None | Some S' \<Rightarrow> exec_all srv init ds bs S')"
  by (induction as arbitrary: S) (auto split: option.splits)

lemma runs_to_Nil: "runs_to srv init ds [] p S st r st r"
  by (simp add: runs_to_def)

lemma runs_to_trans:
  "runs_to srv init ds as p S st r st' r' \<Longrightarrow> runs_to srv init ds bs p S st' r' st'' r'' \<Longrightarrow>
    runs_to srv init ds (as @ bs) p S st r st'' r''"
  by (simp add: runs_to_def exec_all_append)

lemma att_state_simps [simp]:
  "servers (att_state p st r S) = st" "p < length (runs S) \<Longrightarrow> runs (att_state p st r S) ! p = r"
  "length (runs (att_state p st r S)) = length (runs S)" "mutexes (att_state p st r S) = mutexes S"
  by (simp_all add: att_state_def)

lemma att_state_update [simp]:
  "upd_run p r' (att_state p st r S) = att_state p st r' S"
  "(att_state p st r S)\<lparr>servers := st', runs := (runs (att_state p st r S))[p := r']\<rparr> = att_state p st' r' S"
  by (simp_all add: att_state_def upd_run_def)

lemma runs_to_step:
  "exec srv init ds a (att_state p st r S) = Some (att_state p st' r' S) \<Longrightarrow> runs_to srv init ds [a] p S st r st' r'"
  by (simp add: runs_to_def)

subsection \<open>The broadcast\<close>

lemma rpc_Delivered [simp]: "rpc srv Delivered e m args s = srv e m args s"
  by (simp add: rpc_def)

lemma call_runs:
  assumes "p < length (runs S)" and "k < length (restClnts ds)" and "goroutines r ! k = Calling"
    and "lock_goroutine (srv e) ds (run_name r) (run_id r) (run_source r) (run_read r) k st = (g, st')"
  shows "runs_to srv init ds [Call p k Delivered e] p S st r st' (r\<lparr>goroutines := (goroutines r)[k := Replied g]\<rparr>)"
  using assms
  by (intro runs_to_step)
     (auto simp: exec_call_def Let_def lock_goroutine_def invoke_def run_args_def got_reply_def split: prod.splits)

lemma broadcast_runs:
  assumes "p < length (runs S)" and "distinct ks" and "set ks \<subseteq> {..<length (restClnts ds)}"
    and "\<forall>k \<in> set ks. goroutines r ! k = Calling" and "length (goroutines r) = length (restClnts ds)"
    and "broadcast (srv e) ds (run_name r) (run_id r) (run_source r) (run_read r) ks st = (ch, st')"
  shows "\<exists>gs. runs_to srv init ds (map (\<lambda>k. Call p k Delivered e) ks) p S st r st' (r\<lparr>goroutines := gs\<rparr>) \<and>
    length gs = length (restClnts ds) \<and> length ch = length ks \<and> (\<forall>i < length ks. gs ! (ks ! i) = Replied (ch ! i)) \<and>
    (\<forall>k. k \<notin> set ks \<longrightarrow> gs ! k = goroutines r ! k)"
  using assms
proof (induction ks arbitrary: r st ch)
  case Nil
  then show ?case by (intro exI[of _ "goroutines r"]) (simp add: runs_to_Nil)
next
  case (Cons k ks)
  obtain g st1 where g: "lock_goroutine (srv e) ds (run_name r) (run_id r) (run_source r) (run_read r) k st = (g, st1)" by fastforce
  obtain ch1 where ch: "broadcast (srv e) ds (run_name r) (run_id r) (run_source r) (run_read r) ks st1 = (ch1, st')" "ch = g # ch1"
    using Cons.prems(6) g by (auto split: prod.splits)
  let ?r = "r\<lparr>goroutines := (goroutines r)[k := Replied g]\<rparr>"
  have c: "runs_to srv init ds [Call p k Delivered e] p S st r st1 ?r"
    using Cons.prems g by (intro call_runs) auto
  have "\<forall>k' \<in> set ks. goroutines ?r ! k' = Calling"
  proof
    fix k' assume "k' \<in> set ks"
    then have "k \<noteq> k'" and "goroutines r ! k' = Calling" using Cons.prems(2,4) by auto
    then show "goroutines ?r ! k' = Calling" by simp
  qed
  then obtain gs where gs: "runs_to srv init ds (map (\<lambda>k. Call p k Delivered e) ks) p S st1 ?r st' (?r\<lparr>goroutines := gs\<rparr>)"
    "length gs = length (restClnts ds)" "length ch1 = length ks" "\<forall>i < length ks. gs ! (ks ! i) = Replied (ch1 ! i)"
    "\<forall>k'. k' \<notin> set ks \<longrightarrow> gs ! k' = goroutines ?r ! k'"
    using Cons.IH[of ?r st1 ch1] Cons.prems ch(1) by auto
  have "gs ! k = Replied g" using gs(5) Cons.prems by auto
  then show ?case using runs_to_trans[OF c gs(1)] gs ch(2) Cons.prems(2)
    by (intro exI[of _ gs]) (auto simp: nth_Cons split: nat.splits)
qed

lemma send_runs:
  assumes "p < length (runs S)" and "distinct ks" and "set ks \<subseteq> {..<length (restClnts ds)}" and "length ch = length ks"
    and "\<forall>i < length ks. goroutines r ! (ks ! i) = Replied (ch ! i)" and "length (goroutines r) = length (restClnts ds)"
  shows "\<exists>gs. runs_to srv init ds (map (Send p) ks) p S st r st (r\<lparr>goroutines := gs, chan := chan r @ ch\<rparr>) \<and>
    length gs = length (restClnts ds) \<and> (\<forall>k \<in> set ks. gs ! k = Sent) \<and> (\<forall>k. k \<notin> set ks \<longrightarrow> gs ! k = goroutines r ! k)"
  using assms
proof (induction ks arbitrary: r ch)
  case Nil
  then show ?case by (intro exI[of _ "goroutines r"]) (simp add: runs_to_Nil)
next
  case (Cons k ks)
  obtain g ch1 where ch: "ch = g # ch1" using Cons.prems(4) by (cases ch) auto
  let ?r = "send_grant k g r"
  have "goroutines r ! k = Replied g" using Cons.prems(5) ch by (auto dest: spec[of _ 0])
  then have c: "runs_to srv init ds [Send p k] p S st r st ?r"
    using Cons.prems(1,3) by (intro runs_to_step) (simp add: exec_send_def)
  have "\<forall>i < length ks. goroutines ?r ! (ks ! i) = Replied (ch1 ! i)"
  proof (intro allI impI)
    fix i assume "i < length ks"
    then have "k \<noteq> ks ! i" using Cons.prems(2) by auto
    then show "goroutines ?r ! (ks ! i) = Replied (ch1 ! i)"
      using Cons.prems(5) ch \<open>i < length ks\<close> by (auto simp: send_grant_def dest!: spec[of _ "Suc i"])
  qed
  then obtain gs where gs: "runs_to srv init ds (map (Send p) ks) p S st ?r st (?r\<lparr>goroutines := gs, chan := chan ?r @ ch1\<rparr>)"
    "length gs = length (restClnts ds)" "\<forall>k \<in> set ks. gs ! k = Sent" "\<forall>k'. k' \<notin> set ks \<longrightarrow> gs ! k' = goroutines ?r ! k'"
    using Cons.IH[of ch1 ?r] Cons.prems ch by (auto simp: send_grant_def)
  have "gs ! k = Sent" using gs(4) Cons.prems by (auto simp: send_grant_def)
  then show ?case using runs_to_trans[OF c gs(1)] gs ch
    by (intro exI[of _ gs]) (auto simp: send_grant_def)
qed

subsection \<open>The collector\<close>

lemma release_runs:
  assumes "p < length (runs S)" and "run_phase r = Releasing k" and "k \<le> nat (dNodeCount ds)"
    and "fold (releaseAll_body (srv e) ds (run_name r) (run_read r)) [k..<nat (dNodeCount ds)] (run_locks r, st) = (locks', st')"
  shows "\<exists>as. runs_to srv init ds as p S st r st' (r\<lparr>run_locks := locks', run_phase := Deciding\<rparr>)"
  using assms(2-)
proof (induction "nat (dNodeCount ds) - k" arbitrary: k r st)
  case 0
  then have "runs_to srv init ds [ReleaseEnd p] p S st r st (r\<lparr>run_phase := Deciding\<rparr>)"
    using assms(1) by (intro runs_to_step) (simp add: exec_release_end_def)
  moreover have "locks' = run_locks r" "st' = st" using 0 by auto
  ultimately show ?case by (intro exI[of _ "[ReleaseEnd p]"]) simp
next
  case (Suc d)
  then have k: "k < nat (dNodeCount ds)" and d: "d = nat (dNodeCount ds) - Suc k" by simp_all
  obtain r1 st1 where r1: "runs_to srv init ds [Release p Delivered e] p S st r st1 r1"
    and b: "releaseAll_body (srv e) ds (run_name r) (run_read r) k (run_locks r, st) = (run_locks r1, st1)"
    and f: "run_phase r1 = Releasing (Suc k)" "r1 = r\<lparr>run_locks := run_locks r1, run_phase := Releasing (Suc k)\<rparr>"
  proof (cases "isLocked (run_locks r ! k)")
    case True
    let ?c = "restClnts ds ! k"
    let ?s = "snd (srv e (release_method (run_read r)) (release_args (run_name r) (run_locks r ! k)) (st ?c))"
    have "runs_to srv init ds [Release p Delivered e] p S st r (st(?c := ?s)) (released_one k r)"
      using Suc.prems(1) k True assms(1) by (intro runs_to_step) (simp add: exec_release_def Let_def)
    with True show ?thesis
      by (intro that[of "st(?c := ?s)" "released_one k r"])
         (simp_all add: releaseAll_body_def released_one_def sendRelease_eq rel_node_def release_args_def)
  next
    case False
    let ?r1 = "r\<lparr>run_phase := Releasing (Suc k)\<rparr>"
    have "runs_to srv init ds [Release p Delivered e] p S st r st ?r1"
      using Suc.prems(1) k False assms(1) by (intro runs_to_step) (simp add: exec_release_def Let_def)
    with False show ?thesis by (intro that[of st ?r1]) (simp_all add: releaseAll_body_def)
  qed
  have n: "run_name r1 = run_name r" "run_read r1 = run_read r" by (subst f(2), simp)+
  have "fold (releaseAll_body (srv e) ds (run_name r1) (run_read r1)) [Suc k..<nat (dNodeCount ds)] (run_locks r1, st1) = (locks', st')"
    using Suc.prems(3) b k n by (simp add: upt_conv_Cons)
  then obtain as where "runs_to srv init ds as p S st1 r1 st' (r1\<lparr>run_locks := locks', run_phase := Deciding\<rparr>)"
    using Suc.hyps(1)[of "Suc k" r1 st1, OF _ f(1)] d k by auto
  then have "runs_to srv init ds as p S st1 r1 st' (r\<lparr>run_locks := locks', run_phase := Deciding\<rparr>)"
    by (subst (asm) (2) f(2)) simp
  then show ?case using runs_to_trans[OF r1] by blast
qed

text \<open>The loop of the collector, to the point at which the quorum is counted.\<close>

lemma collect_timeout_runs:
  assumes "p < length (runs S)" and "run_phase r = Collecting" and "run_i r < dNodeCount ds"
    and "collect_timeout (srv e) ds (run_name r) (run_read r) (run_locks r) st = (locks', st')"
  shows "\<exists>as. runs_to srv init ds as p S st r st' (r\<lparr>run_locks := locks', run_phase := Deciding\<rparr>)"
proof -
  have t: "runs_to srv init ds [Timeout p] p S st r st (timer_fires ds r)"
    using assms(1-3) by (intro runs_to_step) simp
  show ?thesis
  proof (cases "quorumMet (run_locks r) (run_read r) (dquorum ds) (dquorumReads ds)")
    case True
    then show ?thesis using t assms(4)
      by (intro exI[of _ "[Timeout p]"]) (auto simp: timer_fires_def collect_timeout_def)
  next
    case False
    then have f: "timer_fires ds r = r\<lparr>run_phase := Releasing 0\<rparr>" by (simp add: timer_fires_def)
    have "\<exists>as. runs_to srv init ds as p S st (r\<lparr>run_phase := Releasing 0\<rparr>) st'
      ((r\<lparr>run_phase := Releasing 0\<rparr>)\<lparr>run_locks := locks', run_phase := Deciding\<rparr>)"
      using assms(1,4) False by (intro release_runs) (simp_all add: collect_timeout_def releaseAll_def)
    then show ?thesis using runs_to_trans[OF t[unfolded f]] by fastforce
  qed
qed

lemma collect_runs:
  assumes "p < length (runs S)" and "run_phase r = Collecting" 
    and "collect_loop (srv e) ds (run_name r) (run_read r) timer (chan r) (run_i r) (run_failed r) (run_locks r) st =
      (i', ch', locks', st')"
  shows "\<exists>as f'. runs_to srv init ds as p S st r st'
      (r\<lparr>chan := ch', run_i := i', run_failed := f', run_locks := locks', run_phase := Deciding\<rparr>) \<and>
    run_i r + int (length (chan r)) = i' + int (length ch')"
  using assms(2-)
proof (induction "chan r" arbitrary: r timer)
  case Nil
  show ?case
  proof (cases "run_i r < dNodeCount ds")
    case True
    then have "ch' = chan r" "i' = run_i r" "collect_timeout (srv e) ds (run_name r) (run_read r) (run_locks r) st = (locks', st')"
      using Nil by auto
    moreover from this(3) obtain as where "runs_to srv init ds as p S st r st' (r\<lparr>run_locks := locks', run_phase := Deciding\<rparr>)"
      using collect_timeout_runs[OF assms(1) Nil.prems(1) True, where srv = srv and e = e and init = init] by blast
    ultimately show ?thesis by (intro exI[of _ as] exI[of _ "run_failed r"]) simp
  next
    case False
    then have "ch' = chan r" "i' = run_i r" "locks' = run_locks r" "st' = st" using Nil by auto
    moreover have "runs_to srv init ds [LoopEnd p] p S st r st (r\<lparr>run_phase := Deciding\<rparr>)"
      using assms(1) Nil.prems(1) False by (intro runs_to_step) simp
    ultimately show ?thesis by (intro exI[of _ "[LoopEnd p]"] exI[of _ "run_failed r"]) simp
  qed
next
  case (Cons g ch)
  note chan = Cons.hyps(2)[symmetric]
  consider (ended) "\<not> run_i r < dNodeCount ds" | (timer) "run_i r < dNodeCount ds" "timer = Some 0"
    | (recv) "run_i r < dNodeCount ds" "timer \<noteq> Some 0" by blast
  then show ?case
  proof cases
    case ended
    then have "ch' = chan r" "i' = run_i r" "locks' = run_locks r" "st' = st" using Cons.prems chan by auto
    moreover have "runs_to srv init ds [LoopEnd p] p S st r st (r\<lparr>run_phase := Deciding\<rparr>)"
      using assms(1) Cons.prems(1) ended by (intro runs_to_step) simp
    ultimately show ?thesis by (intro exI[of _ "[LoopEnd p]"] exI[of _ "run_failed r"]) simp
  next
    case timer
    then have "ch' = chan r" "i' = run_i r" "collect_timeout (srv e) ds (run_name r) (run_read r) (run_locks r) st = (locks', st')"
      using Cons.prems chan by auto
    moreover from this(3) obtain as where "runs_to srv init ds as p S st r st' (r\<lparr>run_locks := locks', run_phase := Deciding\<rparr>)"
      using collect_timeout_runs[OF assms(1) Cons.prems(1) timer(1), where srv = srv and e = e and init = init] by blast
    ultimately show ?thesis by (intro exI[of _ as] exI[of _ "run_failed r"]) simp
  next
    case recv
    let ?r = "recv_grant ds g ch r"
    have c: "runs_to srv init ds [Recv p] p S st r st ?r"
      using assms(1) Cons.prems(1) recv chan by (intro runs_to_step) (simp add: exec_recv_def)
    show ?thesis
    proof (cases "\<not> Granted_isLocked g \<and> too_many_failed ds (run_read r) (run_failed r + 1)")
      case True
      then have l: "releaseAll (srv e) ds (run_locks r) (run_name r) (run_read r) st = (locks', st')" "ch' = ch" "i' = run_i r + 1"
        using Cons.prems(2) recv chan by auto
      have f: "?r = r\<lparr>chan := ch, run_i := run_i r + 1, run_failed := run_failed r + 1, run_phase := Releasing 0\<rparr>"
        using True by (simp add: recv_grant_def)
      have "\<exists>as. runs_to srv init ds as p S st ?r st' (?r\<lparr>run_locks := locks', run_phase := Deciding\<rparr>)"
        using assms(1) l(1) by (intro release_runs) (simp_all add: f releaseAll_def)
      then show ?thesis using runs_to_trans[OF c] l chan by (fastforce simp: f)
    next
      case False
      have "collect_loop (srv e) ds (run_name ?r) (run_read ?r) (map_option (\<lambda>t. t - 1) timer) (chan ?r) (run_i ?r)
          (run_failed ?r) (run_locks ?r) st = (i', ch', locks', st')" "ch = chan ?r" "run_phase ?r = Collecting"
        using Cons.prems recv chan False by (auto simp: recv_grant_def)
      from Cons.hyps(1)[OF this(2,3,1)] obtain as f' where
        "runs_to srv init ds as p S st ?r st' (?r\<lparr>chan := ch', run_i := i', run_failed := f', run_locks := locks', run_phase := Deciding\<rparr>)"
        "run_i ?r + int (length (chan ?r)) = i' + int (length ch')" by blast
      moreover from this(1) have "runs_to srv init ds as p S st ?r st'
          (r\<lparr>chan := ch', run_i := i', run_failed := f', run_locks := locks', run_phase := Deciding\<rparr>)"
        using False by (auto simp: recv_grant_def split: if_splits)
      ultimately show ?thesis using runs_to_trans[OF c, of as] chan False by (fastforce simp: recv_grant_def split: if_splits)
    qed
  qed
qed

lemma drain_runs:
  assumes "p < length (runs S)" and "run_phase r = Draining" and "run_i r + int (length (chan r)) = dNodeCount ds"
    and "drain_loop (srv e) ds (run_name r) (run_read r) (chan r) (run_i r) st = st'"
  shows "\<exists>as i'. runs_to srv init ds as p S st r st' (r\<lparr>chan := [], run_i := i'\<rparr>)"
  using assms(2-)
proof (induction "chan r" arbitrary: r st)
  case Nil
  then have "st' = st" "r = r\<lparr>chan := [], run_i := run_i r\<rparr>" by (metis drain_loop.simps(1), cases r, simp)
  then show ?case using runs_to_Nil by metis
next
  case (Cons g ch)
  note chan = Cons.hyps(2)[symmetric]
  let ?r = "drained_one ch r"
  let ?st = "if Granted_isLocked g then sendRelease (srv e) (restClnts ds ! index g) (run_name r) (lockUID g) (run_read r) st else st"
  have i: "run_i r < dNodeCount ds" using Cons.prems(2) chan by auto
  have c: "runs_to srv init ds [Drain p Delivered e] p S st r ?st ?r"
    using assms(1) Cons.prems(1) i chan
    by (intro runs_to_step) (simp add: exec_drain_def Let_def sendRelease_eq rel_node_def release_args_def)
  obtain as i' where "runs_to srv init ds as p S ?st ?r st' (?r\<lparr>chan := [], run_i := i'\<rparr>)"
    using Cons.hyps(1)[of ?r ?st] Cons.prems i chan by (auto simp: drained_one_def)
  then show ?case using runs_to_trans[OF c] by (fastforce simp: drained_one_def)
qed

subsection \<open>A whole attempt, a whole blocking call\<close>

lemma attempt_is_schedule:
  assumes ds: "dsync_ok ds" and j: "j < length (mutexes S)" and ks: "distinct ks" "set ks = {..<length (restClnts ds)}"
    and lock: "lock (srv e) ds (replicate (nat (dNodeCount ds)) []) (Name (mutexes S ! j)) ident source rd ks timer (servers S)
      = (b, locks', st')"
  shows "\<exists>as r. exec_all srv init ds as S = Some (S\<lparr>servers := st', runs := runs S @ [r],
      mutexes := (if b then (mutexes S)[j := store_locks rd locks' (mutexes S ! j)] else mutexes S)\<rparr>)"
proof -
  let ?n = "length (restClnts ds)"
  let ?p = "length (runs S)"
  let ?r0 = "start_run ds j (Name (mutexes S ! j)) ident source rd"
  let ?S = "S\<lparr>runs := runs S @ [?r0]\<rparr>"
  have p: "?p < length (runs ?S)" by simp
  have start: "exec_all srv init ds [Start j ident source rd] S = Some (att_state ?p (servers S) ?r0 ?S)"
    using j by (simp add: att_state_def)
  have n: "dNodeCount ds = int ?n" using dsync_okD[OF ds] by simp
  have len: "length ks = ?n" using distinct_card[OF ks(1)] ks(2) by simp
  obtain ch st1 where b1: "broadcast (srv e) ds (run_name ?r0) (run_id ?r0) (run_source ?r0) (run_read ?r0) ks (servers S) = (ch, st1)"
    by fastforce
  obtain i ch' st2 where c1: "collect_loop (srv e) ds (Name (mutexes S ! j)) rd timer ch 0 0 (replicate (nat (dNodeCount ds)) []) st1
      = (i, ch', locks', st2)"
    and d1: "drain_loop (srv e) ds (Name (mutexes S ! j)) rd ch' i st2 = st'"
    and q: "b = quorumMet locks' rd (dquorum ds) (dquorumReads ds)"
    using lock b1 by (auto simp: lock_def start_run_def Let_def split: prod.splits)
  obtain gs where g: "runs_to srv init ds (map (\<lambda>k. Call ?p k Delivered e) ks) ?p ?S (servers S) ?r0 st1 (?r0\<lparr>goroutines := gs\<rparr>)"
    "length gs = ?n" "length ch = length ks" "\<forall>i < length ks. gs ! (ks ! i) = Replied (ch ! i)"
    using broadcast_runs[OF p, of ks ds ?r0 srv e "servers S" ch st1 init] ks b1 by (auto simp: start_run_def)
  let ?r1 = "?r0\<lparr>goroutines := gs\<rparr>"
  obtain gs2 where s: "runs_to srv init ds (map (Send ?p) ks) ?p ?S st1 ?r1 st1 (?r1\<lparr>goroutines := gs2, chan := chan ?r1 @ ch\<rparr>)"
    "length gs2 = ?n" "\<forall>k \<in> set ks. gs2 ! k = Sent"
    using send_runs[OF p ks(1) _ g(3), of ds ?r1 srv init st1] g ks by auto
  let ?r2 = "?r0\<lparr>goroutines := gs2, chan := ch\<rparr>"
  have s': "runs_to srv init ds (map (Send ?p) ks) ?p ?S st1 ?r1 st1 ?r2" using s(1) by (simp add: start_run_def)
  obtain as1 f' where c: "runs_to srv init ds as1 ?p ?S st1 ?r2 st2
      (?r2\<lparr>chan := ch', run_i := i, run_failed := f', run_locks := locks', run_phase := Deciding\<rparr>)"
    "0 + int (length ch) = i + int (length ch')"
    using collect_runs[OF p, of ?r2 srv e ds timer st1 i ch' locks' st2 init] c1 by (auto simp: start_run_def)
  let ?r3 = "?r2\<lparr>chan := ch', run_i := i, run_failed := f', run_locks := locks', run_phase := Deciding\<rparr>"
  let ?r4 = "decide ds ?r3"
  have r4: "run_phase ?r4 = Draining" "run_i ?r4 = i" "chan ?r4 = ch'" "run_name ?r4 = Name (mutexes S ! j)" "run_read ?r4 = rd"
    "goroutines ?r4 = gs2" "run_quorum ?r4 = Some b" "run_locks ?r4 = locks'" "\<not> run_returned ?r4" "run_dm ?r4 = j"
    by (simp_all add: decide_def start_run_def q)
  have d: "runs_to srv init ds [Decide ?p] ?p ?S st2 ?r3 st2 ?r4" using p by (intro runs_to_step) simp
  obtain as2 i' where e: "runs_to srv init ds as2 ?p ?S st2 ?r4 st' (?r4\<lparr>chan := [], run_i := i'\<rparr>)"
    using drain_runs[OF p r4(1), of ds srv e st2 st' init] r4 d1 c(2) g(3) len n by auto
  let ?r5 = "?r4\<lparr>chan := [], run_i := i'\<rparr>"
  have sent: "\<forall>x \<in> set (goroutines ?r5). x = Sent"
    using s(2,3) ks(2) r4(6) by (auto simp: in_set_conv_nth)
  have final: "exec srv init ds (Return ?p) (att_state ?p st' ?r5 ?S) = Some (S\<lparr>servers := st',
      runs := runs S @ [?r5\<lparr>run_returned := True\<rparr>],
      mutexes := (if b then (mutexes S)[j := store_locks rd locks' (mutexes S ! j)] else mutexes S)\<rparr>)"
    using sent r4 by (simp add: exec_return_def att_state_def Let_def)
  let ?as = "map (\<lambda>k. Call ?p k Delivered e) ks @ map (Send ?p) ks @ as1 @ [Decide ?p] @ as2"
  have "runs_to srv init ds ?as ?p ?S (servers S) ?r0 st' ?r5"
    using g(1) s' c(1) d e by (blast intro: runs_to_trans)
  then have "exec_all srv init ds ([Start j ident source rd] @ ?as @ [Return ?p]) S = Some (S\<lparr>servers := st',
      runs := runs S @ [?r5\<lparr>run_returned := True\<rparr>],
      mutexes := (if b then (mutexes S)[j := store_locks rd locks' (mutexes S ! j)] else mutexes S)\<rparr>)"
    using start final by (simp only: exec_all_append runs_to_def option.case) simp
  then show ?thesis by blast
qed

text \<open>(C13) Every result of a blocking call, with any number of attempts, is the result of a schedule of the
  transition system: the same store of servers, the same mutex, no other mutex and no release
  changed.\<close>

theorem blocking_call_is_schedule:
  assumes "dsync_ok ds" and "j < length (mutexes S)" and "clnt (mutexes S ! j) = ds"
    and "\<forall>a \<in> set rounds. all_replies ds (att_arrivals a)"
    and "lockBlocking (srv e) timeout ident source rd rounds (mutexes S ! j) (servers S) = (res, dm', st')"
  shows "\<exists>as rs. exec_all srv init ds as S = Some (S\<lparr>servers := st', runs := runs S @ rs, mutexes := (mutexes S)[j := dm']\<rparr>)"
  using assms(2-)
proof (induction rounds arbitrary: S)
  case Nil
  then have "S = S\<lparr>servers := st', runs := runs S @ [], mutexes := (mutexes S)[j := dm']\<rparr>" by auto
  then show ?case by (metis exec_all.simps(1))
next
  case (Cons a rounds)
  let ?dm = "mutexes S ! j"
  obtain b locks' st1 where l: "lock (srv e) ds (replicate (nat (dNodeCount ds)) []) (Name ?dm) ident source rd (att_arrivals a)
      (att_timer a) (servers S) = (b, locks', st1)" by (metis prod_cases3)
  have "distinct (att_arrivals a)" "set (att_arrivals a) = {..<length (restClnts ds)}"
    using Cons.prems(3) by simp_all
  from attempt_is_schedule[where srv = srv and e = e, OF assms(1) Cons.prems(1) this l, of init] obtain as r where
    as: "exec_all srv init ds as S = Some (S\<lparr>servers := st1, runs := runs S @ [r],
      mutexes := (if b then (mutexes S)[j := store_locks rd locks' ?dm] else mutexes S)\<rparr>)" by blast
  show ?case
  proof (cases "b \<or> timeout \<le> att_elapsed a")
    case True
    then have "st' = st1" "dm' = (if b then store_locks rd locks' ?dm else ?dm)"
      using Cons.prems(2,4) l by (auto simp: Let_def split: if_splits)
    then show ?thesis using as by (cases b) (force simp: list_update_id)+
  next
    case False
    let ?S = "S\<lparr>servers := st1, runs := runs S @ [r]\<rparr>"
    have a1: "exec_all srv init ds as S = Some ?S" using as False by simp
    have "lockBlocking (srv e) timeout ident source rd rounds (mutexes ?S ! j) (servers ?S) = (res, dm', st')"
      using Cons.prems(2,4) l False by (simp add: Let_def)
    from Cons.IH[OF _ _ _ this] Cons.prems(1-3) obtain as' rs where
      "exec_all srv init ds as' ?S = Some (?S\<lparr>servers := st', runs := runs ?S @ rs, mutexes := (mutexes ?S)[j := dm']\<rparr>)" by auto
    then have "exec_all srv init ds (as @ as') S =
        Some (S\<lparr>servers := st', runs := runs S @ (r # rs), mutexes := (mutexes S)[j := dm']\<rparr>)"
      using a1 by (simp add: exec_all_append)
    then show ?thesis by blast
  qed
qed

text \<open>Likewise for an unlock: the critical section, then one message per entry of the array.\<close>

definition rel_at :: "'s store \<Rightarrow> release_run \<Rightarrow> 's sys \<Rightarrow> 's sys" where
  "rel_at st x S = S\<lparr>servers := st, releases := releases S @ [x]\<rparr>"

lemma unlock_send_runs:
  assumes "k \<le> length (restClnts ds)" and "rel_next x = k"
    and "fold (unlock_body (srv e) (rel_locks x) (rel_name x) (rel_read x)) (enumerate k (drop k (restClnts ds))) st = st'"
  shows "\<exists>as. exec_all srv init ds as (rel_at st x S) = Some (rel_at st' (x\<lparr>rel_next := length (restClnts ds)\<rparr>) S)"
  using assms
proof (induction "length (restClnts ds) - k" arbitrary: k x st)
  case 0
  then have "k = length (restClnts ds)" "st' = st" "x = x\<lparr>rel_next := length (restClnts ds)\<rparr>" by auto
  then show ?case by (metis exec_all.simps(1))
next
  case (Suc d)
  then have k: "k < length (restClnts ds)" and d: "d = length (restClnts ds) - Suc k" by simp_all
  let ?x = "x\<lparr>rel_next := Suc k\<rparr>"
  let ?st = "unlock_body (srv e) (rel_locks x) (rel_name x) (rel_read x) (k, restClnts ds ! k) st"
  have step: "exec srv init ds (UnlockSend (length (releases S)) Delivered e) (rel_at st x S) = Some (rel_at ?st ?x S)"
    using k Suc.prems(2)
    by (simp add: exec_unlock_send_def Let_def rel_at_def unlock_body_def sendRelease_eq rel_node_def release_args_def nth_append)
  have "fold (unlock_body (srv e) (rel_locks ?x) (rel_name ?x) (rel_read ?x)) (enumerate (Suc k) (drop (Suc k) (restClnts ds))) ?st = st'"
    using Suc.prems(3) k by (simp add: Cons_nth_drop_Suc[symmetric])
  then obtain as where "exec_all srv init ds as (rel_at ?st ?x S) = Some (rel_at st' (?x\<lparr>rel_next := length (restClnts ds)\<rparr>) S)"
    using Suc.hyps(1)[of "Suc k" ?x ?st] d k by auto
  then have "exec_all srv init ds (UnlockSend (length (releases S)) Delivered e # as) (rel_at st x S) =
      Some (rel_at st' (x\<lparr>rel_next := length (restClnts ds)\<rparr>) S)"
    using step by simp
  then show ?case by blast
qed

lemma unlock_schedule:
  assumes "j < length (mutexes S)" and "clnt (mutexes S ! j) = ds"
    and "(if rd then DRWMutex_RUnlock (srv e) (mutexes S ! j) (servers S) else DRWMutex_Unlock (srv e) (mutexes S ! j) (servers S)) = Inr (dm', st')"
  shows "\<exists>as x. exec_all srv init ds as S = Some (S\<lparr>servers := st', releases := releases S @ [x], mutexes := (mutexes S)[j := dm']\<rparr>)"
proof -
  let ?dm = "mutexes S ! j"
  obtain locks where take: "(if rd then take_reader_locks ?dm else take_write_locks ?dm) = Inr (locks, dm')"
    and st': "unlock (srv e) ds locks (Name ?dm) rd (servers S) = st'"
    using assms(2,3) by (auto simp: DRWMutex_RUnlock_def DRWMutex_Unlock_def split: if_splits sum.splits)
  let ?x = "\<lparr>rel_name = Name ?dm, rel_read = rd, rel_locks = locks, rel_next = 0\<rparr>"
  let ?S = "S\<lparr>mutexes := (mutexes S)[j := dm']\<rparr>"
  let ?a = "if rd then UnlockR j else UnlockW j"
  have step: "exec srv init ds ?a S = Some (rel_at (servers S) ?x ?S)"
    using assms(1) take by (auto simp: exec_unlock_def Let_def rel_at_def)
  obtain as where "exec_all srv init ds as (rel_at (servers S) ?x ?S) = Some (rel_at st' (?x\<lparr>rel_next := length (restClnts ds)\<rparr>) ?S)"
    using unlock_send_runs[of 0 ds ?x srv e "servers S" st' init ?S] st' by (auto simp: unlock_def)
  then have "exec_all srv init ds (?a # as) S =
      Some (S\<lparr>servers := st', releases := releases S @ [?x\<lparr>rel_next := length (restClnts ds)\<rparr>], mutexes := (mutexes S)[j := dm']\<rparr>)"
    using step by (simp add: rel_at_def)
  then show ?thesis by blast
qed

subsection \<open>A concrete run\<close>

abbreviation one_mutex :: "chaos_lockServer sys" where
  "one_mutex \<equiv> sys_init chaos_init ds_two [''r'']"

theorem blocking_call_is_schedule_witness:
  "\<exists>as dm' st' S'. DRWMutex_Lock (chaos_server (\<lambda>_. 9)) ''u'' [] [round_at 3] dm2 (\<lambda>_. chaos_init) = (Some True, dm', st') \<and>
     exec_all chaos_server chaos_init ds_two as one_mutex = Some S' \<and> servers S' = st' \<and> mutexes S' = [dm']"
proof -
  obtain res dm' st' where run: "DRWMutex_Lock (chaos_server (\<lambda>_. 9)) ''u'' [] [round_at 3] dm2 (\<lambda>_. chaos_init)
      = (res, dm', st')" by (metis prod_cases3)
  have "fst (DRWMutex_Lock (chaos_server (\<lambda>_. 9)) ''u'' [] [round_at 3] dm2 (\<lambda>_. chaos_init)) = Some True"
    by code_simp
  with run have res: "res = Some True" by simp
  have m: "mutexes one_mutex = [dm2]" "servers one_mutex = (\<lambda>_. chaos_init)" by (simp_all add: sys_init_def dm2_def)
  have "\<exists>as rs. exec_all chaos_server chaos_init ds_two as one_mutex =
      Some (one_mutex\<lparr>servers := st', runs := runs one_mutex @ rs, mutexes := (mutexes one_mutex)[0 := dm']\<rparr>)"
    by (rule blocking_call_is_schedule[where j = 0 and e = "\<lambda>_. 9" and rounds = "[round_at 3]" and ident = "''u''"
          and source = "[]" and rd = False and timeout = drwMutexInfinite])
       (use run m ds_two_ok round_at_arrivals in \<open>auto simp: DRWMutex_Lock_def\<close>)
  then show ?thesis using run res m(1) by fastforce
qed

end
