(* ===== verification/Server_Equivalence.thy ===== *)
theory Server_Equivalence
  imports Chaos_Server Performance_Server
begin

section \<open>The counting server is the recording server without its records\<close>

text \<open>
  \<^verbatim>\<open>performance/performance-server.go\<close> is the optimised lock server: a counter in place of the array of
  requesters that \<^verbatim>\<open>chaos/lock-rpc-server.go\<close> keeps. Here the two are compared as programs: as long as
  no client releases a lock under a UID that does not hold it, they give the same reply to every
  request, error messages included, and the counters are the lengths of the arrays.
\<close>

text \<open>The replies to a sequence of requests.\<close>

fun replies :: "('e, 's) server \<Rightarrow> ('e \<times> NetLocker_method \<times> LockArgs) list \<Rightarrow> 's \<Rightarrow> result list" where
  "replies srv [] s = []"
| "replies srv ((e, m, args) # calls) s = fst (srv e m args s) # replies srv calls (snd (srv e m args s))"

text \<open>The complaint of the recording server about a UID that holds no lock.\<close>

definition no_such_uid :: "result \<Rightarrow> bool" where
  "no_such_uid rep \<longleftrightarrow> (\<exists>u. snd rep = Some (UnlockNoUID u) \<or> snd rep = Some (RUnlockNoUID u))"

text \<open>What the counting server would have in place of the entries.\<close>

definition count_of :: "chaos_lockServer \<Rightarrow> perf_lockServer" where
  "count_of l = \<lparr>perf_lockMap = (\<lambda>nm. map_option (\<lambda>ls. if isWriteLock ls then WriteLock else int (length ls)) (lockMap l nm))\<rparr>"

lemma count_of_at:
  "perf_lockMap (count_of l) nm = (case lockMap l nm of None \<Rightarrow> None
     | Some ls \<Rightarrow> Some (if isWriteLock ls then -1 else int (length ls)))"
  by (simp add: count_of_def WriteLock_def split: option.split)

lemma count_of_upd:
  "count_of (l\<lparr>lockMap := (lockMap l)(nm \<mapsto> ls)\<rparr>) =
    (count_of l)\<lparr>perf_lockMap := (perf_lockMap (count_of l))(nm \<mapsto> if isWriteLock ls then WriteLock else int (length ls))\<rparr>"
  "count_of (l\<lparr>lockMap := (lockMap l)(nm := None)\<rparr>) =
    (count_of l)\<lparr>perf_lockMap := (perf_lockMap (count_of l))(nm := None)\<rparr>"
  by (simp_all add: count_of_def fun_eq_iff)

lemma count_of_init: "count_of chaos_init = perf_init"
  by (simp add: count_of_def chaos_init_def perf_init_def)

text \<open>A removal that succeeds lowers the counter by one, and drops it with the last entry.\<close>

lemma count_of_removeEntry:
  assumes ls: "lockMap l nm = Some ls" and ok: "entries_ok ls" and rm: "removeEntry nm u ls l = (True, l')"
  shows "count_of l' = (count_of l)\<lparr>perf_lockMap :=
    (if length ls = 1 then (perf_lockMap (count_of l))(nm := None)
     else (perf_lockMap (count_of l))(nm \<mapsto> int (length ls) - 1))\<rparr>"
proof (cases rule: removeEntry_cases[of ls u nm l])
  case absent
  with rm show ?thesis by simp
next
  case (removed j)
  show ?thesis
  proof (cases "length ls = 1")
    case True
    with removed(4) rm show ?thesis by (simp add: count_of_upd)
  next
    case False
    then have "\<not> isWriteLock (remove_at j ls)"
      using ok set_remove_at[of j ls] by (auto simp: entries_ok_def isWriteLock_iff)
    moreover have "int (length (remove_at j ls)) = int (length ls) - 1"
      using remove_at_length[OF removed(1)] removed(1) by simp
    ultimately show ?thesis using removed(4) rm False by (auto simp: count_of_upd)
  qed
qed

text \<open>One request.\<close>

lemma same_reply:
  assumes inv: "chaos_inv l" and uid: "\<not> no_such_uid (fst (chaos_server now m args l))"
  shows "perf_server e m args (count_of l) = (fst (chaos_server now m args l), count_of (snd (chaos_server now m args l)))"
proof (cases "lockMap l (Resource args)")
  case None
  then show ?thesis
    by (cases m) (simp_all add: handler_defs count_of_at count_of_upd isWriteLock_def)
next
  case (Some ls)
  then have ok: "entries_ok ls" using inv by (simp add: chaos_inv_def)
  then have one: "isWriteLock ls \<Longrightarrow> length ls = 1" "length ls \<noteq> 1 \<Longrightarrow> Suc 0 < length ls"
    by (auto simp: entries_ok_def isWriteLock_def) (cases ls; simp)
  have app: "\<not> isWriteLock (ls @ [x])" for x using ok by (auto simp: entries_ok_def isWriteLock_def)
  obtain removed l' where rm: "removeEntry (Resource args) (UID args) ls l = (removed, l')" by fastforce
  note rem = count_of_removeEntry[OF Some ok, of "UID args" l']
  show ?thesis
  proof (cases m)
    case Unlock
    with Some rm one rem uid show ?thesis
      by (cases "isWriteLock ls"; cases removed; cases "length ls = 1")
         (simp_all add: handler_defs count_of_at no_such_uid_def)
  next
    case RUnlock
    with Some rm one rem uid show ?thesis
      by (cases "isWriteLock ls"; cases removed; cases "length ls = 1")
         (simp_all add: handler_defs count_of_at no_such_uid_def)
  qed (use Some one app in \<open>auto simp: handler_defs count_of_at count_of_upd Let_def ac_simps\<close>)
qed

text \<open>Any sequence of requests.\<close>

lemma same_replies:
  assumes "chaos_inv l" and "\<forall>rep \<in> set (replies chaos_server calls l). \<not> no_such_uid rep"
  shows "replies perf_server (map (\<lambda>(e, m, args). ((), m, args)) calls) (count_of l) = replies chaos_server calls l \<and>
    serve_all perf_server (map (\<lambda>(e, m, args). ((), m, args)) calls) (count_of l) = count_of (serve_all chaos_server calls l)"
  using assms
proof (induction calls arbitrary: l)
  case Nil
  then show ?case by simp
next
  case (Cons x calls)
  obtain e m args where x: "x = (e, m, args)" by (cases x)
  with Cons.prems(2) have uid: "\<not> no_such_uid (fst (chaos_server e m args l))" by simp
  show ?case
    using Cons.IH[OF chaos_inv_step[OF Cons.prems(1), of e m args]] Cons.prems(2) same_reply[OF Cons.prems(1) uid, of "()"]
    by (simp add: x)
qed

text \<open>(C15) From the start the server that counts and the server that records give the same replies,
  error messages included, to every sequence of requests in which the latter never complains about a
  UID without a lock; afterwards the counter of every resource is the number of recorded readers,
  \<open>-1\<close> for a recorded writer.\<close>

theorem counting_server_equivalent:
  assumes "\<forall>rep \<in> set (replies chaos_server calls chaos_init). \<not> no_such_uid rep"
  shows "replies perf_server (map (\<lambda>(e, m, args). ((), m, args)) calls) perf_init = replies chaos_server calls chaos_init \<and>
    perf_lockMap (serve_all perf_server (map (\<lambda>(e, m, args). ((), m, args)) calls) perf_init) nm =
      map_option (\<lambda>ls. if isWriteLock ls then WriteLock else int (length ls)) (lockMap (serve_all chaos_server calls chaos_init) nm)"
  using same_replies[OF chaos_inv_init assms] by (simp add: count_of_init) (simp add: count_of_def)

theorem counting_server_equivalent_witness:
  "let a = \<lparr>UID = ''u'', Resource = ''r'', Source = []\<rparr>; b = a\<lparr>UID := ''v''\<rparr>;
       calls = [((), RLock, a), ((), RLock, b), ((), Lock, a), ((), Unlock, b), ((), RUnlock, a)]
   in replies perf_server calls perf_init = [(True, None), (True, None), (False, None),
        (False, Some (UnlockReadLocked ''r'' 2)), (True, None)] \<and>
      perf_lockMap (serve_all perf_server calls perf_init) ''r'' = Some 1"
proof -
  let ?a = "\<lparr>UID = ''u'', Resource = ''r'', Source = []\<rparr>"
  let ?b = "?a\<lparr>UID := ''v''\<rparr>"
  let ?calls = "[(\<lambda>_. 9, RLock, ?a), (\<lambda>_. 9, RLock, ?b), (\<lambda>_. 9, Lock, ?a), (\<lambda>_. 9, Unlock, ?b), (\<lambda>_. 9, RUnlock, ?a)]"
  have r: "replies chaos_server ?calls chaos_init = [(True, None), (True, None), (False, None),
        (False, Some (UnlockReadLocked ''r'' 2)), (True, None)]" by code_simp
  have m: "map_option (\<lambda>ls. if isWriteLock ls then WriteLock else int (length ls))
      (lockMap (serve_all chaos_server ?calls chaos_init) ''r'') = Some 1" by code_simp
  show ?thesis using counting_server_equivalent[of ?calls "''r''"] r m by (simp add: no_such_uid_def)
qed

end
