(* ===== verification/Performance_Driver.thy ===== *)
theory Performance_Driver
  imports Mutex_Cycle Net_Rpc Go_Float Go_Text "HOL-Library.Signed_Division"
begin

section \<open>The performance program (performance/performance.go)\<close>

text \<open>
  The program that measures the rate of locks: the cluster of eight servers it sets up, the loop that
  each of its five goroutines runs on a resource of its own, and the evaluation of the delays. The
  readings of the clock, the flag that Ctrl-C sets and the rounds of every \<open>Lock\<close> are arguments of the
  loop, one \<open>lap\<close> per turn.
\<close>

subsection \<open>The cluster\<close>

definition perf_servers :: "string list" where
  "perf_servers =
     [''10.x0.y0.z0:12345'', ''10.x1.y1.z1:12346'', ''10.x2.y2.z2:12347'', ''10.x3.y3.z3:12348'',
      ''10.x4.y4.z4:12349'', ''10.x5.y5.z5:12350'', ''10.x6.y6.z6:12351'', ''10.x7.y7.z7:12352'']"

definition perf_rpcPath :: string where
  "perf_rpcPath = ''/dsync''"

definition perf_resources :: "string list" where
  "perf_resources = map (\<lambda>i. perf_rpcPath @ ''-'' @ Itoa i) [0..<length perf_servers]"

definition perf_clnts :: "ReconnectRPCClient list" where
  "perf_clnts = map (\<lambda>i. newClient (perf_servers ! i) (perf_resources ! i)) [0..<length perf_servers]"

subsection \<open>The loop of a goroutine\<close>

text \<open>\<^verbatim>\<open>Duration.Seconds\<close>.\<close>

definition Seconds :: "duration \<Rightarrow> rat" where
  "Seconds d = f64 (f64 (of_int (d sdiv 1000000000)) + f64 (f64 (of_int (d smod 1000000000)) / 1000000000))"

text \<open>One turn: the flag read by the loop condition, the rounds of \<open>Lock\<close>, the two readings of the clock in
  the first turn, the reading behind \<^verbatim>\<open>time.Since\<close> and the last one.\<close>

record lap =
  lap_done :: bool
  lap_rounds :: "attempt list"
  lap_start :: time
  lap_begin :: time
  lap_since :: time
  lap_last :: time

record loop_vars =
  timeStart :: time
  timeLast :: time
  delayMax :: rat
  dots :: nat

definition lap_times :: "nat \<Rightarrow> lap \<Rightarrow> loop_vars \<Rightarrow> loop_vars" where
  "lap_times run l v =
     (let v1 = (if run = 1 then v\<lparr>timeStart := lap_start l, timeLast := lap_begin l\<rparr> else v);
          duration = lap_since l - timeLast v1;
          v2 = (if delayMax v1 < Seconds duration \<or> run mod 100 = 0
                then (if delayMax v1 < Seconds duration then v1\<lparr>delayMax := Seconds duration\<rparr> else v1)\<lparr>dots := Suc (dots v1)\<rparr>
                else v1)
      in v2\<lparr>timeLast := lap_last l\<rparr>)"

text \<open>The value of the loop is \<open>None\<close> while a \<open>Lock\<close> has not returned or the laps end before the loop does. The
  result of \<open>Lock\<close> is not looked at.\<close>

fun lockLoop_from :: "'c NetLocker \<Rightarrow> string \<Rightarrow> nat \<Rightarrow> lap list \<Rightarrow> nat \<Rightarrow> DRWMutex \<Rightarrow> loop_vars \<Rightarrow> 'c store
    \<Rightarrow> (panic + (nat \<times> DRWMutex \<times> loop_vars \<times> 'c store)) option" where
  "lockLoop_from nl source nruns [] run dm v st = (if run \<le> nruns then None else Some (Inr (run, dm, v, st)))"
| "lockLoop_from nl source nruns (l # laps) run dm v st =
     (if \<not> lap_done l \<and> run \<le> nruns
      then case DRWMutex_Lock nl ''test'' source (lap_rounds l) dm st of
             (None, dm1, st1) \<Rightarrow> None
           | (Some _, dm1, st1) \<Rightarrow>
               (let v1 = lap_times run l v
                in case DRWMutex_Unlock nl dm1 st1 of
                     Inl p \<Rightarrow> Some (Inl p)
                   | Inr (dm3, st2) \<Rightarrow> lockLoop_from nl source nruns laps (Suc run) dm3 v1 st2)
      else Some (Inr (run, dm, v, st)))"

definition lockLoop :: "'c NetLocker \<Rightarrow> Dsync \<Rightarrow> caller \<Rightarrow> nat \<Rightarrow> nat \<Rightarrow> nat \<Rightarrow> time \<Rightarrow> time \<Rightarrow> lap list \<Rightarrow> 'c store
    \<Rightarrow> (panic + (nat \<times> DRWMutex \<times> loop_vars \<times> 'c store)) option" where
  "lockLoop nl ds site nruns port nr start t0 laps st =
     lockLoop_from nl (getSource site) nruns laps 1 (NewDRWMutex (''chaos-'' @ Itoa port @ ''-'' @ Itoa nr) ds)
       \<lparr>timeStart = start, timeLast = t0, delayMax = 0, dots = 0\<rparr> st"

text \<open>The evaluation in \<^verbatim>\<open>main\<close>: the largest of the delays on the channel.\<close>

fun worst_delay :: "rat list \<Rightarrow> rat \<Rightarrow> rat" where
  "worst_delay [] dmax = dmax"
| "worst_delay (c # ch) dmax = worst_delay ch (if dmax < c then c else dmax)"

subsection \<open>The cluster is a valid one\<close>

lemma New_perf_clnts:
  "New [0..<length perf_clnts] = Inr \<lparr>dNodeCount = 8, restClnts = [0..<8], dquorum = 5, dquorumReads = 4\<rparr>"
  by (simp add: New_Inr_iff perf_clnts_def perf_servers_def upt_conv_Cons)

text \<open>The loops use different resources.\<close>

lemma lockLoop_names_differ:
  "''chaos-'' @ Itoa port @ ''-'' @ Itoa nr = ''chaos-'' @ Itoa port @ ''-'' @ Itoa nr' \<Longrightarrow> nr = nr'"
  by (simp add: Itoa_inj)

subsection \<open>What the loop does\<close>

text \<open>The durations that the turns measure, the first one from \<open>t\<close> on.\<close>

fun lap_durations :: "time \<Rightarrow> lap list \<Rightarrow> duration list" where
  "lap_durations t [] = []"
| "lap_durations t (l # laps) = (lap_since l - t) # lap_durations (lap_last l) laps"

definition loop_durations :: "nat \<Rightarrow> time \<Rightarrow> lap list \<Rightarrow> duration list" where
  "loop_durations run t laps = (case laps of [] \<Rightarrow> [] | l # ls \<Rightarrow> lap_durations (if run = 1 then lap_begin l else t) laps)"

lemma loop_durations_Cons:
  "loop_durations run t (l # laps) =
    (lap_since l - (if run = 1 then lap_begin l else t)) # loop_durations (Suc run) (lap_last l) laps" if "0 < run"
  using that by (cases laps) (simp_all add: loop_durations_def)

lemma loop_durations_Nil [simp]: "loop_durations run t [] = []"
  by (simp add: loop_durations_def)

lemma lap_times_fields:
  "delayMax (lap_times run l v) = max (delayMax v) (Seconds (lap_since l - (if run = 1 then lap_begin l else timeLast v)))"
  "timeLast (lap_times run l v) = lap_last l"
  by (auto simp: lap_times_def Let_def max_def)

lemma perf_lock_unlock:
  assumes "dsync_ok ds" and "\<forall>a \<in> set rounds. all_replies ds (att_arrivals a) \<and> att_elapsed a < drwMutexInfinite"
    and "\<forall>c \<in> set (restClnts ds). perf_inv (st c)"
    and "DRWMutex_Lock (perf_server e) ''test'' source rounds (NewDRWMutex nm ds) st = (Some b, dm1, st1)"
  shows "DRWMutex_Unlock (perf_server e) dm1 st1 = Inr (NewDRWMutex nm ds, st)"
proof -
  let ?dm = "NewDRWMutex nm ds"
  have dm: "clnt ?dm = ds" "dm_wf (clnt ?dm) ?dm" "\<not> active (writeLocks ?dm)" "readersLocks ?dm = []"
    using dsync_okD(1)[OF assms(1)] by (simp_all add: NewDRWMutex_def dm_wf_def)
  have run: "lockBlocking (perf_server e) drwMutexInfinite ''test'' source False rounds ?dm st = (Some b, dm1, st1)"
    using assms(4) by (simp add: DRWMutex_Lock_def)
  have b: b
  proof (rule ccontr)
    assume "\<not> b"
    with assms(2) run show False
    proof (induction rounds arbitrary: st)
      case (Cons a rounds)
      then show ?case by (auto simp: Let_def split: prod.splits if_splits)
    qed simp
  qed
  show ?thesis
    using perf_cycle.acquire_release[of ?dm "''test''" rounds st e drwMutexInfinite source False dm1 st1 e] assms run b dm by simp
qed

lemma lockLoop_from_result:
  assumes ok: "dsync_ok ds" and inv: "\<forall>c \<in> set (restClnts ds). perf_inv (st c)"
    and "\<forall>l \<in> set laps. \<forall>a \<in> set (lap_rounds l). all_replies ds (att_arrivals a) \<and> att_elapsed a < drwMutexInfinite"
    and "lockLoop_from (perf_server e) source nruns laps run (NewDRWMutex nm ds) v st = Some res" and "0 < run" and "run \<le> Suc nruns"
  shows "\<exists>run' v'. res = Inr (run', NewDRWMutex nm ds, v', st) \<and> run \<le> run' \<and> run' \<le> Suc nruns \<and>
    (run' = Suc nruns \<or> run' - run < length laps \<and> lap_done (laps ! (run' - run))) \<and>
    delayMax v' = fold (\<lambda>d m. max m (Seconds d)) (loop_durations run (timeLast v) (take (run' - run) laps)) (delayMax v)"
  using assms(3-)
proof (induction laps arbitrary: run v)
  case Nil
  then show ?case by (auto split: if_splits)
next
  case (Cons l laps)
  show ?case
  proof (cases "\<not> lap_done l \<and> run \<le> nruns")
    case False
    with Cons.prems show ?thesis by (auto split: if_splits)
  next
    case True
    obtain b dm1 st1 where L: "DRWMutex_Lock (perf_server e) ''test'' source (lap_rounds l) (NewDRWMutex nm ds) st = (Some b, dm1, st1)"
      using Cons.prems(2) True by (auto split: prod.splits option.splits)
    have U: "DRWMutex_Unlock (perf_server e) dm1 st1 = Inr (NewDRWMutex nm ds, st)"
      using Cons.prems(1) by (intro perf_lock_unlock[OF ok _ inv L]) simp
    have rest: "lockLoop_from (perf_server e) source nruns laps (Suc run) (NewDRWMutex nm ds) (lap_times run l v) st = Some res"
      using Cons.prems(2) True L U by simp
    from Cons.IH[OF _ rest] Cons.prems(1) True obtain run' v' where R: "res = Inr (run', NewDRWMutex nm ds, v', st)"
      "Suc run \<le> run'" "run' \<le> Suc nruns" "run' = Suc nruns \<or> run' - Suc run < length laps \<and> lap_done (laps ! (run' - Suc run))"
      "delayMax v' = fold (\<lambda>d m. max m (Seconds d)) (loop_durations (Suc run) (timeLast (lap_times run l v)) (take (run' - Suc run) laps))
        (delayMax (lap_times run l v))" by auto
    have d: "run' - run = Suc (run' - Suc run)" using R(2) by simp
    show ?thesis
      using R loop_durations_Cons[OF Cons.prems(3)] by (intro exI[of _ run'] exI[of _ v']) (auto simp: d lap_times_fields)
  qed
qed

text \<open>(C31) Over performance servers a loop of the performance program never panics. When it ends, it has
  made all its runs or has seen the flag of Ctrl-C; its mutex is as new, every server is in the state
  it had at the start, and the delay it reports is the largest of the durations of its turns.\<close>

theorem lockLoop_leaves_no_lock:
  assumes "dsync_ok ds" and "\<forall>c \<in> set (restClnts ds). perf_inv (st c)"
    and "\<forall>l \<in> set laps. \<forall>a \<in> set (lap_rounds l). distinct (att_arrivals a) \<and>
      set (att_arrivals a) = {..<length (restClnts ds)} \<and> att_elapsed a < drwMutexInfinite"
    and "lockLoop (perf_server e) ds site nruns port nr start t0 laps st = Some res"
  shows "\<exists>run v. res = Inr (run, NewDRWMutex (''chaos-'' @ Itoa port @ ''-'' @ Itoa nr) ds, v, st) \<and>
    (run = Suc nruns \<or> run \<le> nruns \<and> run - 1 < length laps \<and> lap_done (laps ! (run - 1))) \<and>
    delayMax v = fold (\<lambda>d m. max m (Seconds d)) (loop_durations 1 t0 (take (run - 1) laps)) 0"
proof -
  from lockLoop_from_result[OF assms(1,2) _ assms(4)[unfolded lockLoop_def]] assms(3) obtain run v where
    "res = Inr (run, NewDRWMutex (''chaos-'' @ Itoa port @ ''-'' @ Itoa nr) ds, v, st)" "run \<le> Suc nruns"
    "run = Suc nruns \<or> run - 1 < length laps \<and> lap_done (laps ! (run - 1))"
    "delayMax v = fold (\<lambda>d m. max m (Seconds d)) (loop_durations 1 t0 (take (run - 1) laps)) 0" by auto
  then show ?thesis by (intro exI[of _ run] exI[of _ v]) auto
qed

subsection \<open>A concrete run\<close>

definition lap_at :: "bool \<Rightarrow> time \<Rightarrow> lap" where
  "lap_at stop t = \<lparr>lap_done = stop, lap_rounds = [round_at 1], lap_start = t, lap_begin = t, lap_since = t + 500000000, lap_last = t + 500000000\<rparr>"

theorem lockLoop_leaves_no_lock_witness:
  "\<exists>dm v. lockLoop (perf_server ()) ds_two None 5 7 0 0 0 [lap_at False 0, lap_at False 0, lap_at True 0] (\<lambda>_. perf_init)
      = Some (Inr (3, dm, v, \<lambda>_. perf_init)) \<and> delayMax v = 1 / 2"
proof -
  let ?laps = "[lap_at False 0, lap_at False 0, lap_at True 0]"
  let ?run = "lockLoop (perf_server ()) ds_two None 5 7 0 0 0 ?laps (\<lambda>_. perf_init)"
  let ?dm = "NewDRWMutex (''chaos-'' @ Itoa 7 @ ''-'' @ Itoa 0) ds_two"
  let ?lock = "DRWMutex_Lock (perf_server ()) ''test'' (getSource None) [round_at 1] ?dm (\<lambda>_. perf_init)"
  have inv: "\<forall>c \<in> set (restClnts ds_two). perf_inv perf_init" by (simp add: perf_inv_def perf_init_def)
  have "fst ?lock = Some True" by code_simp
  then obtain dm1 st1 where L: "?lock = (Some True, dm1, st1)" by (cases ?lock) auto
  have U: "DRWMutex_Unlock (perf_server ()) dm1 st1 = Inr (?dm, \<lambda>_. perf_init)"
    using round_at_arrivals by (intro perf_lock_unlock[OF ds_two_ok _ inv L]) (simp add: round_at_def drwMutexInfinite_def)
  obtain v where run: "?run = Some (Inr (3, ?dm, v, \<lambda>_. perf_init))"
    using L U by (auto simp: lockLoop_def lap_at_def)
  have d: "fold (\<lambda>d m. max m (Seconds d)) (loop_durations 1 0 (take 2 ?laps)) 0 = 1 / 2" by code_simp
  from lockLoop_leaves_no_lock[OF ds_two_ok inv _ run] round_at_arrivals d run show ?thesis
    by (auto simp: lap_at_def round_at_def drwMutexInfinite_def)
qed

end
