(* ===== verification/Performance_Program.thy ===== *)
theory Performance_Program
  imports Driver_Frame Exact_Accounting Performance_Driver
begin

section \<open>The goroutines of the performance program (performance/performance.go)\<close>

text \<open>
  \<^verbatim>\<open>main\<close> of the performance program as a program of \<open>Driver\<close>: it starts one goroutine per loop, each locking
  a mutex of its own in turns, and waits for all of them. Whether Ctrl-C sets the flag, and after how
  many turns each goroutine sees it, are arguments. Here the loops run against each other over
  the same servers; what one of them measures is in \<open>Performance_Driver\<close>.
\<close>

subsection \<open>The program\<close>

definition perf_runs :: nat where
  "perf_runs = 40000"

definition perf_parallel :: nat where
  "perf_parallel = 5"

text \<open>A loop makes \<^verbatim>\<open>runs\<close> turns, and fewer when it sees the flag after \<open>k\<close> of them.\<close>

definition loop_turns :: "bool \<Rightarrow> nat \<Rightarrow> nat" where
  "loop_turns stopped k = (if stopped then min k perf_runs else perf_runs)"

text \<open>The turns of the loop of mutex \<open>j\<close>, then the delay on the channel and the deferred \<^verbatim>\<open>w.Done()\<close>.\<close>

fun loop_prog :: "nat \<Rightarrow> nat \<Rightarrow> stmt list" where
  "loop_prog j 0 = [SendCh, WgDone]"
| "loop_prog j (Suc k) = MLock j ''test'' # MUnlock j # loop_prog j k"

definition perf_tail :: "bool \<Rightarrow> stmt list" where
  "perf_tail stopped = (if stopped then [] else [Sleep (10000 * millisecond)]) @ [Passed]"

definition perf_main :: "bool \<Rightarrow> nat list \<Rightarrow> stmt list" where
  "perf_main stopped turns =
     WgAdd (int perf_parallel) # map (\<lambda>j. Go (loop_prog j (loop_turns stopped (turns ! j)))) [0..<perf_parallel] @ WgWait # perf_tail stopped"

definition perf_names :: "nat \<Rightarrow> string list" where
  "perf_names port = map (\<lambda>nr. ''chaos-'' @ Itoa port @ ''-'' @ Itoa nr) [0..<perf_parallel]"

subsection \<open>A mutex and the goroutine that uses it\<close>

text \<open>Every attempt on mutex \<open>j\<close> has returned or is the one the goroutine waits for; the mutex holds its write
  lock exactly when the goroutine is about to unlock it, or will be once it sees that its attempt succeeded.\<close>

definition mutex_ok :: "'s sys \<Rightarrow> nat \<Rightarrow> stmt list \<Rightarrow> bool" where
  "mutex_ok S j b \<longleftrightarrow>
     (\<forall>p < length (runs S). run_dm (runs S ! p) = j \<longrightarrow> \<not> run_read (runs S ! p) \<and> (run_returned (runs S ! p) \<or> awaits b p)) \<and>
     (\<forall>p. awaits b p \<longrightarrow> p < length (runs S) \<and> run_dm (runs S ! p) = j) \<and> readersLocks (mutexes S ! j) = [] \<and>
     (active (writeLocks (mutexes S ! j)) \<longleftrightarrow>
        (\<exists>rest. b = MUnlock j # rest) \<or> (\<exists>p. awaits b p \<and> run_returned (runs S ! p) \<and> run_quorum (runs S ! p) = Some True))"

lemma awaits_simps [simp]:
  "\<not> awaits [] p" "awaits (Awaiting q j ident rd # rest) p \<longleftrightarrow> p = q" "\<not> awaits (MLock i ident # rest) p"
  "\<not> awaits (MUnlock i # rest) p" "\<not> awaits (SendCh # rest) p" "\<not> awaits (WgDone # rest) p"
  by (auto simp: awaits_def)

lemma mutex_ok_net:
  assumes wf: "sys_wf ds names (sys W)" and ok: "dsync_ok ds" and b: "action_ok ds W b" "exec srv init ds b (sys W) = Some S"
    and m: "mutex_ok (sys W) j body'" and j: "j < length (mutexes (sys W))"
  shows "mutex_ok S j body'"
proof (cases "\<exists>p. b = Return p")
  case False
  then have same: "mutexes S = mutexes (sys W)" "\<And>p. p < length (runs S) \<Longrightarrow> run_returned (runs S ! p) = run_returned (runs (sys W) ! p)"
    using net_not_return[OF b] by auto
  have r: "length (runs S) = length (runs (sys W))" "\<And>p. p < length (runs S) \<Longrightarrow> run_dm (runs S ! p) = run_dm (runs (sys W) ! p)"
    "\<And>p. p < length (runs S) \<Longrightarrow> run_read (runs S ! p) = run_read (runs (sys W) ! p)"
    using net_runs[OF b] by auto
  have q: "run_quorum (runs S ! p) = run_quorum (runs (sys W) ! p)" if "p < length (runs S)" "run_returned (runs S ! p)" for p
    using net_quorum_returned[OF wf b that] False by blast
  show ?thesis using m r same q unfolding mutex_ok_def by (metis (no_types, lifting))
next
  case True
  then obtain p q where p: "p < length (runs (sys W))" "\<not> run_returned (runs (sys W) ! p)" "run_quorum (runs (sys W) ! p) = Some q"
    and S: "S = (sys W)\<lparr>runs := (runs (sys W))[p := (runs (sys W) ! p)\<lparr>run_returned := True\<rparr>],
      mutexes := (if q then (mutexes (sys W))[run_dm (runs (sys W) ! p) := store_locks (run_read (runs (sys W) ! p))
       (run_locks (runs (sys W) ! p)) (mutexes (sys W) ! run_dm (runs (sys W) ! p))] else mutexes (sys W))\<rparr>"
    using b(2) by (auto simp: exec_return_def Let_def split: if_splits option.splits)
  let ?r = "runs (sys W) ! p"
  have wr: "run_wf ds names ?r" using sys_wf_run[OF wf p(1)] .
  have run: "runs S ! p' = (if p' = p then ?r\<lparr>run_returned := True\<rparr> else runs (sys W) ! p')" if "p' < length (runs S)" for p'
    using that by (simp add: S nth_update_if eq_commute)
  show ?thesis
  proof (cases "run_dm ?r = j")
    case False
    then have mut: "mutexes S ! j = mutexes (sys W) ! j" by (simp add: S)
    have "\<not> awaits body' p" using m False by (auto simp: mutex_ok_def)
    then show ?thesis using m run mut unfolding mutex_ok_def by (auto simp: S nth_update_if split: if_splits)
  next
    case True
    then have aw: "awaits body' p" "\<not> run_read ?r" using m p(1,2) by (auto simp: mutex_ok_def)
    then have only: "awaits body' p' \<longleftrightarrow> p' = p" "body' \<noteq> MUnlock j # rest" for p' rest by (auto simp: awaits_def)
    have inactive: "\<not> active (writeLocks (mutexes (sys W) ! j))" using m p(2) only by (auto simp: mutex_ok_def)
    have "active (writeLocks (mutexes S ! j)) \<longleftrightarrow> q"
    proof (cases q)
      case True
      with p(3) have "run_quorum ?r = Some True" by simp
      then have "quorumMet (run_locks ?r) (run_read ?r) (dquorum ds) (dquorumReads ds)" using wr unfolding run_wf_def by blast
      then have "active (run_locks ?r)" by (rule quorum_active[OF ok])
      moreover have "length (writeLocks (mutexes (sys W) ! j)) = length (run_locks ?r)"
        using wf wr j by (simp add: sys_wf_def dm_wf_def run_wf_def)
      ultimately show ?thesis using True j aw(2) \<open>run_dm ?r = j\<close> by (simp add: S store_locks_def go_copy_same)
    next
      case False
      then show ?thesis using inactive by (simp add: S)
    qed
    moreover have "readersLocks (mutexes S ! j) = []"
      using m j aw(2) \<open>run_dm ?r = j\<close> by (simp add: S mutex_ok_def store_locks_def)
    ultimately show ?thesis using m run only p(1,3) unfolding mutex_ok_def by (auto simp: S nth_update_if split: if_splits)
  qed
qed

text \<open>The goroutine moves on without touching the mutex, starts an attempt, or unlocks.\<close>

lemma mutex_ok_idle:
  assumes "mutex_ok S j b" and "\<And>p. \<not> awaits b p" and "\<And>rest. b \<noteq> MUnlock j # rest"
    and "\<And>p. \<not> awaits b' p" and "\<And>rest. b' \<noteq> MUnlock j # rest"
  shows "mutex_ok S j b'"
  using assms by (simp add: mutex_ok_def)

lemma mutex_ok_attempt:
  assumes "mutex_ok S j b" and "\<And>p. awaits b p \<Longrightarrow> run_returned (runs S ! p) \<and> run_quorum (runs S ! p) \<noteq> Some True"
    and "\<And>rest. b \<noteq> MUnlock j # rest" and "run_dm r = j" and "\<not> run_read r" and "\<not> run_returned r"
  shows "mutex_ok (S\<lparr>runs := runs S @ [r]\<rparr>) j (Awaiting (length (runs S)) j ident False # rest)"
  using assms unfolding mutex_ok_def by (auto simp: nth_append less_Suc_eq)

lemma mutex_ok_granted:
  assumes "mutex_ok S j b" and "awaits b p" and "\<And>p'. awaits b p' \<Longrightarrow> p' = p" and "run_returned (runs S ! p)"
    and "run_quorum (runs S ! p) = Some True"
  shows "mutex_ok S j (MUnlock j # rest)"
proof -
  have "\<not> run_read (runs S ! q) \<and> run_returned (runs S ! q)" if "q < length (runs S)" "run_dm (runs S ! q) = j" for q
    using assms(1,3,4) that unfolding mutex_ok_def by metis
  moreover have "active (writeLocks (mutexes S ! j))" "readersLocks (mutexes S ! j) = []"
    using assms(1,2,4,5) unfolding mutex_ok_def by blast+
  ultimately show ?thesis by (simp add: mutex_ok_def)
qed

lemma mutex_ok_unlock:
  assumes "mutex_ok S j (MUnlock j # rest)" and "j < length (mutexes S)" and "\<And>p. \<not> awaits rest p" and "\<And>r. rest \<noteq> MUnlock j # r"
  shows "\<exists>S'. exec_unlock False j S = Some S' \<and> mutex_ok S' j rest \<and> runs S' = runs S \<and>
    (\<forall>i. i \<noteq> j \<longrightarrow> mutexes S' ! i = mutexes S ! i) \<and> length (mutexes S') = length (mutexes S)"
proof -
  have "active (writeLocks (mutexes S ! j))" using assms(1) by (simp add: mutex_ok_def)
  then have "\<exists>u \<in> set (writeLocks (mutexes S ! j)). isLocked u" by (simp add: active_def)
  with assms show ?thesis by (auto simp: exec_unlock_def Let_def take_write_locks_def mutex_ok_def)
qed

text \<open>The steps of the goroutine of another mutex.\<close>

lemma mutex_ok_other:
  assumes "mutex_ok S j b" and "runs S' = runs S \<or> (\<exists>r. runs S' = runs S @ [r] \<and> run_dm r \<noteq> j)" and "mutexes S' ! j = mutexes S ! j"
  shows "mutex_ok S' j b"
  using assms(2)
proof (elim disjE exE conjE)
  assume "runs S' = runs S"
  then show ?thesis using assms(1,3) by (simp add: mutex_ok_def)
next
  fix r assume r: "runs S' = runs S @ [r]" "run_dm r \<noteq> j"
  have old: "p < length (runs S)" if "awaits b p" for p using assms(1) that by (simp add: mutex_ok_def)
  then have nth: "runs S' ! p = runs S ! p" if "awaits b p" for p using that by (simp add: r nth_append)
  have "\<not> run_read (runs S' ! p) \<and> (run_returned (runs S' ! p) \<or> awaits b p)" if "p < length (runs S')" "run_dm (runs S' ! p) = j" for p
    using that assms(1) r by (auto simp: mutex_ok_def nth_append less_Suc_eq split: if_splits)
  moreover have "p < length (runs S') \<and> run_dm (runs S' ! p) = j" if "awaits b p" for p
    using assms(1) that old[OF that] nth[OF that] r(1) by (simp add: mutex_ok_def less_SucI)
  ultimately show ?thesis using assms(1,3) nth by (simp add: mutex_ok_def cong: conj_cong)
qed

subsection \<open>The invariant of the program\<close>

definition loop_body :: "nat \<Rightarrow> stmt list \<Rightarrow> bool" where
  "loop_body j b \<longleftrightarrow> b = [] \<or> b = [WgDone] \<or>
     (\<exists>k. b = loop_prog j k \<or> b = MUnlock j # loop_prog j k \<or> (\<exists>p. b = Awaiting p j ''test'' False # MUnlock j # loop_prog j k))"

definition body_at :: "thread list \<Rightarrow> nat \<Rightarrow> stmt list" where
  "body_at ths j = (if Suc j < length ths then body (ths ! Suc j) else [])"

text \<open>The loops that are done, and those that have reported their delay.\<close>

definition loops_done :: "thread list \<Rightarrow> nat set" where
  "loops_done ths = {j. Suc j < length ths \<and> body (ths ! Suc j) = []}"

definition loops_sent :: "thread list \<Rightarrow> nat set" where
  "loops_sent ths = {j. Suc j < length ths \<and> (body (ths ! Suc j) = [] \<or> body (ths ! Suc j) = [WgDone])}"

definition main_ok :: "bool \<Rightarrow> nat list \<Rightarrow> thread list \<Rightarrow> int \<Rightarrow> bool" where
  "main_ok stopped turns ths wc \<longleftrightarrow>
     (length ths = 1 \<and> body (ths ! 0) = perf_main stopped turns \<and> wc = 0) \<or>
     (\<exists>m \<le> perf_parallel. length ths = Suc m \<and> wc = int perf_parallel - int (card (loops_done ths)) \<and>
        body (ths ! 0) = map (\<lambda>j. Go (loop_prog j (loop_turns stopped (turns ! j)))) [m..<perf_parallel] @ WgWait # perf_tail stopped) \<or>
     (length ths = Suc perf_parallel \<and> loops_done ths = {..<perf_parallel} \<and> wc = 0 \<and>
        (body (ths ! 0) = perf_tail stopped \<or> body (ths ! 0) = [Passed] \<or> body (ths ! 0) = [] \<or>
         (\<exists>d. body (ths ! 0) = [Until d, Passed])))"

definition perf_ok :: "bool \<Rightarrow> nat list \<Rightarrow> 's world \<Rightarrow> bool" where
  "perf_ok stopped turns W \<longleftrightarrow> main_ok stopped turns (threads W) (wait_count W) \<and>
     (\<forall>j. loop_body j (body_at (threads W) j)) \<and> (\<forall>j < perf_parallel. mutex_ok (sys W) j (body_at (threads W) j)) \<and>
     signals W = card (loops_sent (threads W)) \<and> (outcome W = Running \<or> outcome W = HasPassed) \<and>
     (outcome W = HasPassed \<longrightarrow> body (threads W ! 0) = [])"

lemma loop_prog_simps [simp]:
  "loop_prog j k \<noteq> []" "loop_prog j k \<noteq> [WgDone]" "\<not> awaits (loop_prog j k) p" "loop_prog j k \<noteq> MUnlock i # rest"
  by (cases k; simp)+

lemma loop_body_simps [simp]: "loop_body j []" "loop_body j [WgDone]" "loop_body j (loop_prog j k)"
  by (auto simp: loop_body_def)

lemma perf_ok_init: "perf_ok stopped turns (world_init init ds (perf_names port) (perf_main stopped turns))"
  by (auto simp: perf_ok_def main_ok_def world_init_def body_at_def loops_sent_def mutex_ok_def sys_init_def NewDRWMutex_def
      perf_names_def active_def awaits_def)

lemma finite_loops [simp]: "finite (loops_done ths)" "finite (loops_sent ths)"
  by (rule finite_subset[of _ "{..<length ths}"]; auto simp: loops_done_def loops_sent_def)+

lemma loops_update:
  assumes "Suc j < length ths" and "body (ths ! Suc j) \<noteq> []" and "b = [] \<longleftrightarrow> body (ths ! Suc j) = [WgDone]"
  shows "loops_done (ths[Suc j := th\<lparr>body := b\<rparr>]) = (if b = [] then insert j (loops_done ths) else loops_done ths)"
    and "loops_sent (ths[Suc j := th\<lparr>body := b\<rparr>]) = (if b = [WgDone] then insert j (loops_sent ths) else loops_sent ths)"
    and "j \<notin> loops_done ths" and "b = [WgDone] \<Longrightarrow> j \<notin> loops_sent ths"
  using assms by (auto simp: loops_done_def loops_sent_def nth_list_update)

lemma body_at_update:
  assumes "Suc j < length ths"
  shows "body_at (ths[Suc j := th\<lparr>body := b\<rparr>]) i = (if i = j then b else body_at ths i)"
  using assms by (auto simp: body_at_def nth_list_update)

text \<open>A step of the goroutine of mutex \<open>j\<close>.\<close>

lemma main_ok_loop:
  assumes "main_ok stopped turns ths wc" and "Suc j < length ths" and "body (ths ! Suc j) \<noteq> []"
    and "b = [] \<longleftrightarrow> body (ths ! Suc j) = [WgDone]"
  shows "main_ok stopped turns (ths[Suc j := th\<lparr>body := b\<rparr>]) (wc - (if b = [] then 1 else 0))"
proof -
  note u = loops_update[OF assms(2-4)]
  have "loops_done ths \<noteq> {..<perf_parallel}" if "length ths = Suc perf_parallel" using u(3) assms(2) that by auto
  then show ?thesis using assms(1,2) u(1,3) unfolding main_ok_def by auto
qed

lemma perf_ok_loop:
  assumes "perf_ok stopped turns W" and j: "Suc j < length (threads W)" "body (threads W ! Suc j) \<noteq> []"
      "b = [] \<longleftrightarrow> body (threads W ! Suc j) = [WgDone]"
    and "threads W' = (threads W)[Suc j := (threads W ! Suc j)\<lparr>body := b\<rparr>]" and "outcome W' = outcome W"
    and "wait_count W' = wait_count W - (if b = [] then 1 else 0)" and "signals W' = signals W + (if b = [WgDone] then 1 else 0)"
    and "loop_body j b" and "mutex_ok (sys W') j b"
    and "\<And>i. i \<noteq> j \<Longrightarrow> i < perf_parallel \<Longrightarrow> mutex_ok (sys W') i (body_at (threads W) i)"
  shows "perf_ok stopped turns W'"
proof -
  note u = loops_update[OF j]
  have "main_ok stopped turns (threads W') (wait_count W')"
    using main_ok_loop[OF _ j, of stopped turns "wait_count W"] assms(1,5,7) by (simp add: perf_ok_def)
  moreover have "signals W' = card (loops_sent (threads W'))"
    using assms(1,5,8) u(2,4) by (simp add: perf_ok_def)
  ultimately show ?thesis using assms by (simp add: perf_ok_def body_at_update)
qed

lemma begin_attempt_run:
  assumes "begin_attempt srv init ds t j ident rd rest W = Some W'"
  obtains r where "W' = set_body t (Awaiting (length (runs (sys W))) j ident rd # rest) (W\<lparr>sys := (sys W)\<lparr>runs := runs (sys W) @ [r]\<rparr>\<rparr>)"
    and "run_dm r = j" and "run_read r = rd" and "\<not> run_returned r"
  using assms by (auto simp: begin_attempt_def split: if_splits)

lemma perf_ok_attempt:
  assumes "perf_ok stopped turns W" and j: "Suc j < length (threads W)" "body (threads W ! Suc j) = s # MUnlock j # loop_prog j k"
    and s: "s = MLock j ''test'' \<or> (\<exists>p. s = Awaiting p j ''test'' False \<and> run_returned (runs (sys W) ! p) \<and> run_quorum (runs (sys W) ! p) \<noteq> Some True)"
    and step: "begin_attempt srv init ds (Suc j) j ''test'' False (MUnlock j # loop_prog j k) W = Some W'" and "j < perf_parallel"
  shows "perf_ok stopped turns W'"
proof -
  obtain r where r: "W' = set_body (Suc j) (Awaiting (length (runs (sys W))) j ''test'' False # MUnlock j # loop_prog j k)
      (W\<lparr>sys := (sys W)\<lparr>runs := runs (sys W) @ [r]\<rparr>\<rparr>)" "run_dm r = j" "\<not> run_read r" "\<not> run_returned r"
    using begin_attempt_run[OF step] by blast
  have m: "mutex_ok (sys W) i (body_at (threads W) i)" if "i < perf_parallel" for i using assms(1) that by (simp add: perf_ok_def)
  have "mutex_ok (sys W) j (s # MUnlock j # loop_prog j k)" using m[OF assms(6)] j by (simp add: body_at_def)
  then have "mutex_ok (sys W') j (Awaiting (length (runs (sys W))) j ''test'' False # MUnlock j # loop_prog j k)"
    unfolding r(1) sys_set_body using s r by (auto intro!: mutex_ok_attempt)
  moreover have "mutex_ok (sys W') i (body_at (threads W) i)" if "i \<noteq> j" "i < perf_parallel" for i
  proof (rule mutex_ok_other[OF m[OF that(2)]])
    show "runs (sys W') = runs (sys W) \<or> (\<exists>r. runs (sys W') = runs (sys W) @ [r] \<and> run_dm r \<noteq> i)"
      using that(1) r(2) by (auto simp: r(1))
  qed (simp add: r(1))
  moreover have "loop_body j (Awaiting (length (runs (sys W))) j ''test'' False # MUnlock j # loop_prog j k)"
    by (auto simp: loop_body_def)
  moreover have "threads W' = (threads W)[Suc j := (threads W ! Suc j)\<lparr>body := Awaiting (length (runs (sys W))) j ''test'' False # MUnlock j # loop_prog j k\<rparr>]"
    "outcome W' = outcome W" "wait_count W' = wait_count W" "signals W' = signals W"
    by (simp_all add: r(1) set_body_def)
  ultimately show ?thesis using j(2) s by (intro perf_ok_loop[OF assms(1) j(1)]) simp_all
qed

lemma loop_body_cases:
  assumes "loop_body j (s # rest)"
  obtains (ended) "s = WgDone" and "rest = []" | (send) "s = SendCh" and "rest = [WgDone]"
    | (lock) k where "s = MLock j ''test''" and "rest = MUnlock j # loop_prog j k"
    | (unlock) k where "s = MUnlock j" and "rest = loop_prog j k"
    | (wait) p k where "s = Awaiting p j ''test'' False" and "rest = MUnlock j # loop_prog j k"
proof -
  consider "s # rest = [WgDone]" | k where "s # rest = loop_prog j k" | k where "s # rest = MUnlock j # loop_prog j k"
    | p k where "s # rest = Awaiting p j ''test'' False # MUnlock j # loop_prog j k"
    using assms by (auto simp: loop_body_def)
  then show ?thesis
  proof cases
    case (2 k)
    then show ?thesis using that(2,3) by (cases k) auto
  qed (use that in auto)
qed

lemma perf_ok_loop_step:
  assumes "perf_ok stopped turns W" and j: "Suc j < length (threads W)" "body (threads W ! Suc j) = s # rest"
    and step: "run_stmt srv init ds (Suc j) s rest W = Some W'" and len: "length (mutexes (sys W)) = perf_parallel"
  shows "perf_ok stopped turns W'"
proof -
  have p: "j < perf_parallel" using assms(1) j(1) by (auto simp: perf_ok_def main_ok_def)
  have at: "body_at (threads W) j = s # rest" using j by (simp add: body_at_def)
  have m: "mutex_ok (sys W) i (body_at (threads W) i)" if "i < perf_parallel" for i using assms(1) that by (simp add: perf_ok_def)
  have "loop_body j (s # rest)" using assms(1) at by (metis perf_ok_def)
  then show ?thesis
  proof (cases rule: loop_body_cases)
    case ended
    have "mutex_ok (sys W) j []" using m[OF p] at ended by (auto intro: mutex_ok_idle)
    then show ?thesis using j step ended m by (intro perf_ok_loop[OF assms(1) j(1), of "[]"]) (auto simp: set_body_def)
  next
    case send
    have "mutex_ok (sys W) j [WgDone]" using m[OF p] at send by (auto intro: mutex_ok_idle)
    then show ?thesis using j step send m by (intro perf_ok_loop[OF assms(1) j(1), of "[WgDone]"]) (auto simp: set_body_def)
  next
    case (lock k)
    then show ?thesis using perf_ok_attempt[OF assms(1) j(1), of s k srv init ds W'] j(2) step p by simp
  next
    case (wait q k)
    show ?thesis
    proof (cases "run_quorum (runs (sys W) ! q) = Some True")
      case True
      with step wait have W': "W' = set_body (Suc j) (MUnlock j # loop_prog j k) W" "run_returned (runs (sys W) ! q)"
        by (simp_all add: Let_def split: if_splits)
      have "mutex_ok (sys W) j (MUnlock j # loop_prog j k)"
        using m[OF p] at wait W'(2) True by (auto intro!: mutex_ok_granted[of "sys W" j "s # rest" q])
      moreover have "loop_body j (MUnlock j # loop_prog j k)" by (auto simp: loop_body_def)
      ultimately show ?thesis using j wait m
        by (intro perf_ok_loop[OF assms(1) j(1), of "MUnlock j # loop_prog j k"]) (auto simp: W'(1) set_body_def)
    next
      case False
      with step wait show ?thesis using perf_ok_attempt[OF assms(1) j(1), of s k srv init ds W'] j(2) p
        by (auto simp: Let_def split: if_splits)
    qed
  next
    case (unlock k)
    have "mutex_ok (sys W) j (MUnlock j # loop_prog j k)" using m[OF p] at unlock by simp
    from mutex_ok_unlock[OF this] p len obtain S where S: "exec_unlock False j (sys W) = Some S" "mutex_ok S j (loop_prog j k)"
      "runs S = runs (sys W)" "\<And>i. i \<noteq> j \<Longrightarrow> mutexes S ! i = mutexes (sys W) ! i" by auto
    then have W': "W' = set_body (Suc j) (loop_prog j k) (W\<lparr>sys := S\<rparr>)"
      using step unlock p len by (simp add: release_mutex_def)
    have "mutex_ok S i (body_at (threads W) i)" if "i \<noteq> j" "i < perf_parallel" for i
      using that S by (intro mutex_ok_other[OF m[OF that(2)]]) auto
    then show ?thesis using j unlock S(2)
      by (intro perf_ok_loop[OF assms(1) j(1), of "loop_prog j k"]) (auto simp: W' set_body_def)
  qed
qed

text \<open>A step of \<^verbatim>\<open>main\<close>: the bodies of the loops stay, or one more loop is started.\<close>

lemma body_at_0 [simp]: "body_at (ths[0 := th]) i = body_at ths i"
  by (simp add: body_at_def)

lemma loops_0 [simp]: "loops_done (ths[0 := th]) = loops_done ths" "loops_sent (ths[0 := th]) = loops_sent ths"
  by (simp_all add: loops_done_def loops_sent_def)

lemma body_at_append: "ths \<noteq> [] \<Longrightarrow> body_at (ths @ [th]) i = (if i = length ths - 1 then body th else body_at ths i)"
  by (auto simp: body_at_def nth_append)

lemma loops_append:
  assumes "body th \<noteq> []" and "body th \<noteq> [WgDone]"
  shows "loops_done (ths @ [th]) = loops_done ths" and "loops_sent (ths @ [th]) = loops_sent ths"
  using assms by (auto simp: loops_done_def loops_sent_def nth_append less_Suc_eq split: if_splits)

lemma main_ok_spawned:
  assumes "m \<le> perf_parallel" and "length ths = Suc m" and "wc = int perf_parallel - int (card (loops_done ths))"
    and "body (ths ! 0) = map (\<lambda>j. Go (loop_prog j (loop_turns stopped (turns ! j)))) [m..<perf_parallel] @ WgWait # perf_tail stopped"
  shows "main_ok stopped turns ths wc"
  using assms by (auto simp: main_ok_def)

lemma main_ok_tail:
  assumes "length ths = Suc perf_parallel" and "loops_done ths = {..<perf_parallel}" and "wc = 0"
    and "body (ths ! 0) = perf_tail stopped \<or> body (ths ! 0) = [Passed] \<or> body (ths ! 0) = [] \<or> (\<exists>d. body (ths ! 0) = [Until d, Passed])"
  shows "main_ok stopped turns ths wc"
  using assms by (simp add: main_ok_def)

lemma perf_ok_main_step:
  assumes "perf_ok stopped turns W" and t: "body (threads W ! 0) = s # rest" and step: "run_stmt srv init ds 0 s rest W = Some W'"
  shows "perf_ok stopped turns W'"
proof -
  have main: "main_ok stopped turns (threads W) (wait_count W)" and mx: "\<And>j. j < perf_parallel \<Longrightarrow> mutex_ok (sys W) j (body_at (threads W) j)"
    using assms(1) by (simp_all add: perf_ok_def)
  have "length (threads W) \<noteq> 0" using main unfolding main_ok_def by (elim disjE exE conjE) simp_all
  then have ne: "threads W \<noteq> []" by simp
  have keep: "perf_ok stopped turns W'"
    if "threads W' = (threads W)[0 := (threads W ! 0)\<lparr>body := rest'\<rparr>]" "sys W' = sys W" "signals W' = signals W"
      "main_ok stopped turns (threads W') (wait_count W')" "outcome W' = outcome W \<or> outcome W' = HasPassed \<and> rest' = []" for rest'
    using assms(1) t that ne by (auto simp: perf_ok_def)
  from main[unfolded main_ok_def] consider (start) "length (threads W) = 1" "body (threads W ! 0) = perf_main stopped turns" "wait_count W = 0"
    | (spawn) m where "m < perf_parallel" "length (threads W) = Suc m" "wait_count W = int perf_parallel - int (card (loops_done (threads W)))"
        "body (threads W ! 0) = map (\<lambda>j. Go (loop_prog j (loop_turns stopped (turns ! j)))) [m..<perf_parallel] @ WgWait # perf_tail stopped"
    | (await) "length (threads W) = Suc perf_parallel" "wait_count W = int perf_parallel - int (card (loops_done (threads W)))"
        "body (threads W ! 0) = WgWait # perf_tail stopped"
    | (tail) "length (threads W) = Suc perf_parallel" "loops_done (threads W) = {..<perf_parallel}" "wait_count W = 0"
        "body (threads W ! 0) = perf_tail stopped \<or> body (threads W ! 0) = [Passed] \<or> (\<exists>d. body (threads W ! 0) = [Until d, Passed])"
    using t by (auto simp: le_less)
  then show ?thesis
  proof cases
    case start
    then have none: "loops_done (threads W) = {}" by (auto simp: loops_done_def)
    from start t have s: "s = WgAdd (int perf_parallel)" "rest = map (\<lambda>j. Go (loop_prog j (loop_turns stopped (turns ! j)))) [0..<perf_parallel] @ WgWait # perf_tail stopped"
      by (simp_all add: perf_main_def)
    with step have W': "threads W' = (threads W)[0 := (threads W ! 0)\<lparr>body := rest\<rparr>]" "sys W' = sys W" "signals W' = signals W"
      "wait_count W' = int perf_parallel" "outcome W' = outcome W"
      using start(3) by (auto simp: set_body_def)
    have "main_ok stopped turns (threads W') (wait_count W')"
      by (rule main_ok_spawned[of 0]) (use start(1) none s(2) ne in \<open>simp_all add: W'\<close>)
    then show ?thesis using W' by (intro keep[of rest]) simp_all
  next
    case (spawn m)
    then have s: "s = Go (loop_prog m (loop_turns stopped (turns ! m)))"
      "rest = map (\<lambda>j. Go (loop_prog j (loop_turns stopped (turns ! j)))) [Suc m..<perf_parallel] @ WgWait # perf_tail stopped"
      using t by (simp_all add: upt_conv_Cons)
    let ?th = "\<lparr>proc = proc (threads W ! 0), body = loop_prog m (loop_turns stopped (turns ! m))\<rparr>"
    have W': "W' = W\<lparr>threads := (threads W)[0 := (threads W ! 0)\<lparr>body := rest\<rparr>] @ [?th]\<rparr>"
      using step s by (simp add: set_body_def)
    have at: "body_at (threads W') i = (if i = m then loop_prog m (loop_turns stopped (turns ! m)) else body_at (threads W) i)" for i
      using body_at_append[of "(threads W)[0 := (threads W ! 0)\<lparr>body := rest\<rparr>]" ?th i] spawn(2) ne by (simp add: W')
    have l: "loops_done (threads W') = loops_done (threads W)" "loops_sent (threads W') = loops_sent (threads W)"
      by (simp_all add: W' loops_append)
    have "body_at (threads W) m = []" using spawn(2) by (simp add: body_at_def)
    then have "mutex_ok (sys W) m (loop_prog m (loop_turns stopped (turns ! m)))" using mx[OF spawn(1)] by (auto intro: mutex_ok_idle)
    moreover have "wait_count W' = int perf_parallel - int (card (loops_done (threads W')))" unfolding l using spawn(3) by (simp add: W')
    then have "main_ok stopped turns (threads W') (wait_count W')"
      by (intro main_ok_spawned[of "Suc m"]) (use spawn(1,2) s(2) ne in \<open>simp_all add: W' nth_append\<close>)
    moreover have "sys W' = sys W" "signals W' = signals W" "outcome W' = outcome W" by (simp_all add: W')
    moreover from this assms(1) t have "outcome W' = Running" by (auto simp: perf_ok_def)
    ultimately show ?thesis using assms(1) by (simp add: perf_ok_def at l)
  next
    case await
    have "loops_done (threads W) \<subseteq> {..<perf_parallel}" using await(1) by (auto simp: loops_done_def)
    moreover from await step t have "wait_count W = 0" by (auto split: if_splits)
    ultimately have "loops_done (threads W) = {..<perf_parallel}" using await(2) by (intro card_subset_eq) simp_all
    moreover from await(3) t have s: "s = WgWait" "rest = perf_tail stopped" by simp_all
    moreover have W': "W' = set_body 0 rest W" using step s(1) \<open>wait_count W = 0\<close> by simp
    ultimately have "main_ok stopped turns (threads W') (wait_count W')"
      by (intro main_ok_tail) (use await(1) \<open>wait_count W = 0\<close> ne in \<open>simp_all add: set_body_def\<close>)
    then show ?thesis using W' by (intro keep[of rest]) (simp_all add: set_body_def)
  next
    case tail
    have moved: "perf_ok stopped turns W'"
      if "W' = set_body 0 b W \<or> W' = (set_body 0 b W)\<lparr>outcome := HasPassed\<rparr> \<and> b = []" "b = [Passed] \<or> b = [] \<or> (\<exists>d. b = [Until d, Passed])" for b
    proof -
      have W': "threads W' = (threads W)[0 := (threads W ! 0)\<lparr>body := b\<rparr>]" "sys W' = sys W" "signals W' = signals W" "wait_count W' = 0"
        "outcome W' = outcome W \<or> outcome W' = HasPassed \<and> b = []"
        using that(1) tail(3) by (auto simp: set_body_def)
      have "main_ok stopped turns (threads W') (wait_count W')"
        by (rule main_ok_tail) (use tail(1,2) that(2) ne in \<open>simp_all add: W'\<close>)
      then show ?thesis using W' by (intro keep[of b]) simp_all
    qed
    have "(s = Passed \<and> rest = []) \<or> (s = Sleep (10000 * millisecond) \<and> rest = [Passed]) \<or> (\<exists>d. s = Until d \<and> rest = [Passed])"
      using tail(4) t by (auto simp: perf_tail_def split: if_splits)
    then show ?thesis
    proof (elim disjE exE conjE)
      assume "s = Passed" "rest = []"
      with step show ?thesis by (intro moved[of "[]"]) auto
    next
      assume "s = Sleep (10000 * millisecond)" "rest = [Passed]"
      with step show ?thesis by (intro moved[of "[Until (now W + 10000 * millisecond), Passed]"]) auto
    next
      fix d assume "s = Until d" "rest = [Passed]"
      with step show ?thesis by (intro moved[of "[Passed]"]) (auto split: if_splits)
    qed
  qed
qed

lemma perf_wf:
  assumes "world_reach srv init ds (perf_names port) (perf_main stopped turns) W" and "dsync_ok ds"
  shows "sys_wf ds (perf_names port) (sys W)" and "length (mutexes (sys W)) = perf_parallel"
proof -
  show wf: "sys_wf ds (perf_names port) (sys W)"
    using world_reach_sys[OF assms] reachable_wf[OF _ assms(2), where srv = srv and init = init] by blast
  then have "map Name (mutexes (sys W)) = perf_names port" by (simp add: sys_wf_def)
  from arg_cong[OF this, of length] show "length (mutexes (sys W)) = perf_parallel" by (simp add: perf_names_def)
qed

lemma perf_ok_reach:
  assumes "world_reach srv init ds (perf_names port) (perf_main stopped turns) W" and ok: "dsync_ok ds"
  shows "perf_ok stopped turns W"
proof (rule driver_invariant.reach[OF _ assms(1)], unfold_locales)
  let ?reach = "world_reach srv init ds (perf_names port) (perf_main stopped turns)"
  show "perf_ok stopped turns (world_init init ds (perf_names port) (perf_main stopped turns))" by (rule perf_ok_init)
  show "perf_ok stopped turns (W\<lparr>sys := S, used := u\<rparr>)"
    if "?reach W" "perf_ok stopped turns W" "action_ok ds W b" "exec srv init ds b (sys W) = Some S" for W b S u
    using that(2) mutex_ok_net[OF perf_wf(1)[OF that(1) ok] ok that(3,4)] perf_wf(2)[OF that(1) ok] by (simp add: perf_ok_def)
  show "perf_ok stopped turns W'"
    if "?reach W" "perf_ok stopped turns W" "t < length (threads W)" "body (threads W ! t) = s # rest" "run_stmt srv init ds t s rest W = Some W'"
    for W t s rest W'
  proof (cases t)
    case 0
    show ?thesis by (rule perf_ok_main_step[OF that(2) that(4,5)[unfolded 0]])
  next
    case (Suc j)
    show ?thesis by (rule perf_ok_loop_step[OF that(2) that(3-5)[unfolded Suc] perf_wf(2)[OF that(1) ok]])
  qed
  show "perf_ok stopped turns (set_body t (b2 @ rest) W)"
    if "perf_ok stopped turns W" "t < length (threads W)" "body (threads W ! t) = SelectUntil d b1 b2 # rest" for W t d b1 b2 rest
  proof (cases t)
    case 0
    with that(1,3) show ?thesis
      by (auto simp: perf_ok_def main_ok_def perf_main_def perf_tail_def map_eq_append_conv Cons_eq_append_conv Cons_eq_map_conv split: if_splits)
  next
    case (Suc j)
    with that have "loop_body j (SelectUntil d b1 b2 # rest)" by (metis body_at_def perf_ok_def)
    then show ?thesis by (cases rule: loop_body_cases) simp_all
  qed
qed (simp_all add: perf_ok_def)

lemma perf_ok_passed:
  assumes "world_reach srv init ds (perf_names port) (perf_main stopped turns) W" and "dsync_ok ds" and "outcome W = HasPassed"
  shows "wait_count W = 0 \<and> signals W = perf_parallel \<and> (\<forall>r \<in> set (runs (sys W)). run_returned r) \<and>
    (\<forall>dm \<in> set (mutexes (sys W)). \<not> active (writeLocks dm) \<and> readersLocks dm = [])"
proof -
  note inv = perf_ok_reach[OF assms(1,2)] and wf = perf_wf[OF assms(1,2)]
  then have main: "main_ok stopped turns (threads W) (wait_count W)" and "body (threads W ! 0) = []"
    using assms(3) by (simp_all add: perf_ok_def)
  then have "length (threads W) = Suc perf_parallel \<and> loops_done (threads W) = {..<perf_parallel} \<and> wait_count W = 0"
    unfolding main_ok_def by (elim disjE exE conjE) (simp_all add: perf_main_def)
  then have t: "length (threads W) = Suc perf_parallel" "loops_done (threads W) = {..<perf_parallel}" "wait_count W = 0" by simp_all
  have "loops_done (threads W) \<subseteq> loops_sent (threads W)" by (auto simp: loops_done_def loops_sent_def)
  moreover have "loops_sent (threads W) \<subseteq> {..<perf_parallel}" using t(1) by (auto simp: loops_sent_def)
  ultimately have "loops_sent (threads W) = {..<perf_parallel}" using t(2) by simp
  then have sig: "signals W = perf_parallel" using inv by (simp add: perf_ok_def)
  have "body_at (threads W) j = []" if "j < perf_parallel" for j
  proof -
    have "j \<in> loops_done (threads W)" using that t(2) by simp
    then show ?thesis by (simp add: body_at_def loops_done_def)
  qed
  moreover have "mutex_ok (sys W) j (body_at (threads W) j)" if "j < perf_parallel" for j using inv that by (simp add: perf_ok_def)
  ultimately have m: "mutex_ok (sys W) j []" if "j < perf_parallel" for j using that by simp
  have "run_returned r" if "r \<in> set (runs (sys W))" for r
  proof -
    obtain p where p: "p < length (runs (sys W))" "r = runs (sys W) ! p" using \<open>r \<in> _\<close> by (auto simp: in_set_conv_nth)
    have "run_dm r < perf_parallel" using sys_wf_run[OF wf(1) p(1)] p(2) by (simp add: run_wf_def perf_names_def)
    from m[OF this] p show ?thesis by (simp add: mutex_ok_def)
  qed
  moreover have "\<not> active (writeLocks dm) \<and> readersLocks dm = []" if "dm \<in> set (mutexes (sys W))" for dm
  proof -
    obtain j where "j < perf_parallel" "dm = mutexes (sys W) ! j" using \<open>dm \<in> _\<close> wf(2) by (auto simp: in_set_conv_nth)
    with m[of j] show ?thesis by (simp add: mutex_ok_def)
  qed
  ultimately show ?thesis using t(3) sig by blast
qed

subsection \<open>No panic, and all locks are given back\<close>

text \<open>(C23) The five loops run against each other over any cluster and with any losses of messages: no
  \<open>Unlock\<close> panics, and when the program has ended every loop has reported its delay, every attempt has returned
  and no mutex holds a lock.\<close>

theorem perf_main_never_panics:
  assumes "world_reach srv init ds (perf_names port) (perf_main stopped turns) W" and "dsync_ok ds"
  shows "(outcome W = Running \<or> outcome W = HasPassed) \<and>
    (outcome W = HasPassed \<longrightarrow> wait_count W = 0 \<and> signals W = perf_parallel \<and> (\<forall>r \<in> set (runs (sys W)). run_returned r) \<and>
       (\<forall>dm \<in> set (mutexes (sys W)). \<not> active (writeLocks dm) \<and> readersLocks dm = []))"
  using perf_ok_reach[OF assms] perf_ok_passed[OF assms] by (simp add: perf_ok_def)

subsection \<open>No lock stays on a server\<close>

text \<open>Programs that kill nobody and give every lock a UID, and events that lose no message.\<close>

fun orderly :: "stmt \<Rightarrow> bool" where
  "orderly (KillAt k) = False"
| "orderly (KillDownTo k) = False"
| "orderly KillLast = False"
| "orderly (LaunchWithLocks js w) = False"
| "orderly (MLock j ident) = (ident \<noteq> [])"
| "orderly (MRLock j ident) = (ident \<noteq> [])"
| "orderly (Awaiting p j ident rd) = (ident \<noteq> [])"
| "orderly (Go b) = list_all orderly b"
| "orderly (Select d b1 b2) = (list_all orderly b1 \<and> list_all orderly b2)"
| "orderly (SelectUntil d b1 b2) = (list_all orderly b1 \<and> list_all orderly b2)"
| "orderly (IfSince d b1 b2) = (list_all orderly b1 \<and> list_all orderly b2)"
| "orderly _ = True"

fun delivered :: "'e event \<Rightarrow> bool" where
  "delivered (Net a) = reliable_action a"
| "delivered _ = True"

interpretation orderly: stmt_shape orderly
  by unfold_locales auto

lemma begin_attempt_exec:
  "begin_attempt srv init ds t j ident rd rest W = Some W' \<Longrightarrow> exec srv init ds (Start j ident [] rd) (sys W) = Some (sys W')"
  by (auto simp: begin_attempt_def split: option.splits if_splits)

lemma release_mutex_exec:
  "release_mutex srv init ds t j rd rest W = Some W' \<Longrightarrow>
     sys W' = sys W \<or> exec srv init ds (if rd then UnlockR j else UnlockW j) (sys W) = Some (sys W')"
  by (auto simp: release_mutex_def split: if_splits option.splits)

lemma orderly_stmt:
  assumes "run_stmt srv init ds t s rest W = Some W'" and "orderly s"
  shows "sys W' = sys W \<or> (\<exists>a :: 'e action. reliable_action a \<and> exec (srv :: ('e, 's) server) init ds a (sys W) = Some (sys W'))"
proof -
  define moves where "moves \<longleftrightarrow> sys W' = sys W \<or> (\<exists>a :: 'e action. reliable_action a \<and> exec srv init ds a (sys W) = Some (sys W'))"
  have att: moves if "begin_attempt srv init ds t j ident rd rest W = Some W'" "ident \<noteq> []" for j ident rd
    unfolding moves_def using begin_attempt_exec[OF that(1)] that(2) by (intro disjI2 exI[of _ "Start j ident [] rd"]) simp
  have rel: moves if "release_mutex srv init ds t j rd rest W = Some W'" for j rd
    unfolding moves_def using release_mutex_exec[OF that] by (cases rd) (auto intro: exI[of _ "UnlockR j"] exI[of _ "UnlockW j"])
  have same: moves if "sys W' = sys W" using that by (simp add: moves_def)
  have moves using assms by (cases s) (auto simp: Let_def intro: att rel same split: if_splits)
  then show ?thesis by (simp only: moves_def)
qed

lemma delivered_sys:
  assumes "world_exec srv init ds a W = Some W'" and "delivered a" and "orderly.shaped W"
  shows "sys W' = sys W \<or> (\<exists>a. reliable_action a \<and> exec srv init ds a (sys W) = Some (sys W'))"
proof (cases a)
  case (Net b)
  then show ?thesis using assms by (auto simp del: exec.simps split: if_splits option.splits)
next
  case (Step t)
  then obtain s rest where "t < length (threads W)" "body (threads W ! t) = s # rest" "run_stmt srv init ds t s rest W = Some W'"
    using assms(1) by (auto split: if_splits list.splits)
  moreover from this assms(3) have "list_all orderly (s # rest)" by (metis nth_mem orderly.shaped_def)
  then have "orderly s" by simp
  ultimately show ?thesis using orderly_stmt[where srv = srv and init = init] by blast
qed (use assms in \<open>auto split: if_splits list.splits stmt.splits\<close>)

lemma delivered_reliable:
  assumes "world_all srv init ds as W = Some W'" and "list_all delivered as" and "orderly.shaped W" and "reliable srv init ds names (sys W)"
  shows "reliable srv init ds names (sys W')"
  using assms
proof (induction as arbitrary: W)
  case (Cons a as)
  then obtain W1 where W1: "world_exec srv init ds a W = Some W1" "world_all srv init ds as W1 = Some W'"
    by (auto split: option.splits)
  have "reliable srv init ds names (sys W1)"
    using delivered_sys[OF W1(1)] Cons.prems reliable.action by fastforce
  with Cons.IH[OF W1(2)] Cons.prems orderly.world_exec_shaped[OF W1(1)] show ?case by simp
qed simp

lemma perf_main_orderly: "orderly.shaped (world_init init ds (perf_names port) (perf_main stopped turns))"
proof -
  have "list_all orderly (loop_prog j k)" for j k by (induction j k rule: loop_prog.induct) simp_all
  then show ?thesis by (auto simp: orderly.shaped_def world_init_def perf_main_def perf_tail_def list_all_iff)
qed

text \<open>(C17) The performance program leaves nothing behind: when it has ended, every message of the run was
  delivered and the ones of the last unlocks are out (what the sleep at the end is for), every lock map is empty.\<close>

theorem perf_main_leaves_no_locks:
  assumes "world_all perf_server perf_init ds as (world_init perf_init ds (perf_names port) (perf_main stopped turns)) = Some W"
    and "list_all delivered as" and "dsync_ok ds" and "outcome W = HasPassed"
    and "\<forall>r \<in> set (runs (sys W)). finished ds r" and "\<forall>x \<in> set (releases (sys W)). rel_next x = length (restClnts ds)"
    and "k < length (restClnts ds)"
  shows "perf_lockMap (servers (sys W) (restClnts ds ! k)) = Map.empty"
proof
  fix nm
  let ?s = "servers (sys W) (restClnts ds ! k)"
  have reach: "world_reach perf_server perf_init ds (perf_names port) (perf_main stopped turns) W"
    using world_scenario[where f = "\<lambda>W. W", of perf_server perf_init ds as] assms(1) by simp
  have rel: "reliable perf_server perf_init ds (perf_names port) (sys W)"
    by (rule delivered_reliable[OF assms(1,2) perf_main_orderly]) (simp add: world_init_def reliable.initial)
  then have bal: "balanced perf_inv perf_tok (\<lambda>_. ()) ds (sys W)" using perf.reliable_balanced assms(3) by blast
  have "quiescent ds (sys W)" using perf_ok_passed[OF reach assms(3,4)] assms(5,6) by (simp add: quiescent_def)
  then have "cred (\<lambda>_. ()) nm rd () k (sys W) = 0" for rd
    by (rule quiescent_cred[OF perf_wf(1)[OF reach assms(3)] _ assms(7)])
  then have "perf_tok ?s nm rd u = 0" for rd u using bal assms(7) by (simp add: balanced_def)
  then have tok: "perf_tok ?s nm True () = 0" "perf_tok ?s nm False () = 0" by blast+
  have inv: "perf_inv ?s" using bal assms(7) by (simp add: balanced_def)
  show "perf_lockMap ?s nm = None"
  proof (cases "perf_lockMap ?s nm")
    case (Some c)
    with inv have "c = -1 \<or> 1 \<le> c" by (auto simp: perf_inv_def WriteLock_def)
    with tok Some show ?thesis by (auto simp: perf_tok_at)
  qed
qed

text \<open>A run that Ctrl-C ends after one turn of the first loop.\<close>

definition one_turn :: "unit event list" where
  "one_turn =
     replicate 6 (Step 0) @ [Step 1] @ map (\<lambda>k. Net (Call 0 k Delivered ())) [0, 1] @ map (\<lambda>k. Net (Send 0 k)) [0, 1] @
     replicate 2 (Net (Recv 0)) @ [Net (LoopEnd 0), Net (Decide 0), Net (Return 0)] @ replicate 2 (Step 1) @
     replicate 2 (Net (UnlockSend 0 Delivered ())) @ concat (map (\<lambda>t. replicate 2 (Step t)) [1, 2, 3, 4, 5]) @ replicate 2 (Step 0)"

definition perf_run :: "perf_lockServer world option" where
  "perf_run = world_all perf_server perf_init ds_two one_turn
     (world_init perf_init ds_two (perf_names 12345) (perf_main True [1, 0, 0, 0, 0]))"

lemma perf_run_result:
  "map_option (\<lambda>W. (outcome W, map (finished ds_two) (runs (sys W)), map rel_next (releases (sys W)))) perf_run = Some (HasPassed, [True], [2])"
proof -
  have "perf_main True [1, 0, 0, 0, 0] =
    [WgAdd 5, Go (loop_prog 0 1), Go (loop_prog 1 0), Go (loop_prog 2 0), Go (loop_prog 3 0), Go (loop_prog 4 0), WgWait, Passed]"
    by (simp add: perf_main_def perf_parallel_def perf_tail_def loop_turns_def perf_runs_def upt_rec)
  moreover have "perf_names 12345 = map (\<lambda>i. ''chaos-12345-'' @ i) [''0'', ''1'', ''2'', ''3'', ''4'']"
    by (simp add: perf_names_def perf_parallel_def upt_rec Itoa.simps digit_def)
  ultimately have run: "perf_run = world_all perf_server perf_init ds_two one_turn (world_init perf_init ds_two
      (map (\<lambda>i. ''chaos-12345-'' @ i) [''0'', ''1'', ''2'', ''3'', ''4''])
      [WgAdd 5, Go (loop_prog 0 1), Go (loop_prog 1 0), Go (loop_prog 2 0), Go (loop_prog 3 0), Go (loop_prog 4 0), WgWait, Passed])"
    by (simp add: perf_run_def)
  show ?thesis unfolding run by code_simp
qed

theorem perf_main_leaves_no_locks_witness:
  "\<exists>W. perf_run = Some W \<and> length (runs (sys W)) = 1 \<and> perf_lockMap (servers (sys W) 1) = Map.empty"
proof -
  obtain W where W: "perf_run = Some W" "outcome W = HasPassed" "length (runs (sys W)) = 1"
    "\<forall>r \<in> set (runs (sys W)). finished ds_two r" "\<forall>x \<in> set (releases (sys W)). rel_next x = 2"
    using perf_run_result by (auto simp: in_set_conv_nth)
  have "list_all delivered one_turn" by (simp add: one_turn_def eval_nat_numeral)
  from perf_main_leaves_no_locks[OF W(1)[unfolded perf_run_def] this ds_two_ok W(2,4), of 1] W(5)
  have "perf_lockMap (servers (sys W) 1) = Map.empty" by (simp add: ds_two_def)
  with W show ?thesis by blast
qed

theorem perf_main_never_panics_witness:
  "\<exists>W. world_reach perf_server perf_init ds_two (perf_names 12345) (perf_main True [1, 0, 0, 0, 0]) W \<and>
     signals W = 5 \<and> length (runs (sys W)) = 1 \<and> (\<forall>dm \<in> set (mutexes (sys W)). \<not> active (writeLocks dm))"
proof -
  from world_scenario[OF perf_run_result[unfolded perf_run_def]] obtain W
    where W: "world_reach perf_server perf_init ds_two (perf_names 12345) (perf_main True [1, 0, 0, 0, 0]) W" "outcome W = HasPassed"
      "length (runs (sys W)) = 1" by auto
  with perf_main_never_panics[OF W(1) ds_two_ok] show ?thesis by (auto simp: perf_parallel_def)
qed

end
