(* ===== verification/Client_Cluster.thy ===== *)
theory Client_Cluster
  imports Net_Rpc Mutual_Exclusion
begin

section \<open>The cluster behind reconnecting clients\<close>

text \<open>
  \<open>Lock_System\<close> lets a request be delivered, lose its reply or get lost. Here the transition system is
  run over the real clients of \<^verbatim>\<open>net-rpc-client.go\<close>: a node is a server, its connections and the client
  objects of any number of processes that talk to it. A crash empties the server and leaves the clients
  with their connections. Projecting the clients away gives a run of \<open>Lock_System\<close> over the bare
  servers, so all its safety theorems hold for the cluster behind the clients.
\<close>

subsection \<open>A node and its clients\<close>

record 's node =
  client_at :: "nat \<Rightarrow> ReconnectRPCClient"
  link :: "'s net"

text \<open>A request of process \<open>i\<close>, with what the network does to the two calls it may make. The reply of a
  call that would dereference nil does not matter: it never happens (\<open>node_call\<close>).\<close>

definition client_server :: "('e, 's) server \<Rightarrow> (nat \<times> net_event \<times> net_event \<times> 'e, 's node) server" where
  "client_server srv ev m args nd =
     (case ev of (i, ev1, ev2, e) \<Rightarrow>
        (case Client_method (dsync_service (srv e)) ev1 ev2 m args (client_at nd i) (link nd) of
           None \<Rightarrow> ((False, None), nd)
         | Some (r, rc, w) \<Rightarrow> (r, nd\<lparr>client_at := (client_at nd)(i := rc), link := w\<rparr>)))"

definition node_init :: "(nat \<Rightarrow> ReconnectRPCClient) \<Rightarrow> 's \<Rightarrow> 's node" where
  "node_init clients s = \<lparr>client_at = clients, link = \<lparr>remote = s, conn_open = []\<rparr>\<rparr>"

text \<open>The clients as \<open>newClient\<close> makes them, and a server that crashes.\<close>

definition fresh_clients :: "string \<Rightarrow> string \<Rightarrow> nat \<Rightarrow> ReconnectRPCClient" where
  "fresh_clients ad ep i = newClient ad ep"

definition node_crash :: "'s \<Rightarrow> 's node \<Rightarrow> 's node" where
  "node_crash init nd = nd\<lparr>link := (link nd)\<lparr>remote := init\<rparr>\<rparr>"

text \<open>The runs of the cluster: the actions of \<open>Schedule\<close> over the clients, and crashes of their own.\<close>

inductive cluster_reach :: "('e, 's) server \<Rightarrow> 's \<Rightarrow> string \<Rightarrow> string \<Rightarrow> Dsync \<Rightarrow> string list \<Rightarrow> 's node sys \<Rightarrow> bool"
  for srv init ad ep ds names where
  start: "cluster_reach srv init ad ep ds names (sys_init (node_init (fresh_clients ad ep) init) ds names)"
| act: "cluster_reach srv init ad ep ds names S \<Longrightarrow> \<forall>c. a \<noteq> Crash c \<Longrightarrow>
    exec (client_server srv) (node_init (fresh_clients ad ep) init) ds a S = Some S' \<Longrightarrow> cluster_reach srv init ad ep ds names S'"
| crash: "cluster_reach srv init ad ep ds names S \<Longrightarrow> c \<in> set (restClnts ds) \<Longrightarrow>
    cluster_reach srv init ad ep ds names
      (S\<lparr>servers := (servers S)(c := node_crash init (servers S c)), crashed := insert c (crashed S)\<rparr>)"

subsection \<open>One call\<close>

definition node_ok :: "'s node \<Rightarrow> bool" where
  "node_ok nd \<longleftrightarrow> (\<forall>i. client_ok (client_at nd i) (link nd))"

lemma node_ok_init: "node_ok (node_init (fresh_clients ad ep) s)"
  by (simp add: node_ok_def node_init_def fresh_clients_def newClient_def client_ok_def)

lemma node_ok_crash: "node_ok nd \<Longrightarrow> node_ok (node_crash init nd)"
  by (simp add: node_ok_def node_crash_def client_ok_def cong: option.case_cong)

text \<open>A call never drops a connection from the list, so the other clients stay linked.\<close>

lemma dialCall_conns: "dialCall h ev nm args rc w = (r, rc', w') \<Longrightarrow> length (conn_open w) \<le> length (conn_open w')"
  by (auto simp: dialCall_def rpc_DialHTTPPath_def rpc_Call_def rpc_request_def
      split: option.splits prod.splits if_splits call_fate.splits)

lemma Client_Call_conns:
  assumes "Client_Call h ev1 ev2 nm args rc w = Some (r, rc', w')"
  shows "length (conn_open w) \<le> length (conn_open w')"
proof -
  obtain r1 rc1 w1 where d1: "dialCall h ev1 nm args rc w = (r1, rc1, w1)" by (metis prod_cases3)
  have close: "length (conn_open (snd (rpc_Close c w1))) = length (conn_open w1)" for c by (simp add: rpc_Close_def)
  show ?thesis
  proof (cases "snd r1 = Some ErrShutdown")
    case True
    then obtain c where d2: "dialCall h ev2 nm args (rc1\<lparr>rpc_client := None\<rparr>) (snd (rpc_Close c w1)) = (r, rc', w')"
      using assms d1 by (auto simp: Client_Call_def split: option.splits)
    show ?thesis using dialCall_conns[OF d1] dialCall_conns[OF d2] close[of c] by simp
  next
    case False
    then show ?thesis using assms d1 dialCall_conns[OF d1] by (simp add: Client_Call_def)
  qed
qed

lemma client_ok_mono: "client_ok rc w \<Longrightarrow> length (conn_open w) \<le> length (conn_open w') \<Longrightarrow> client_ok rc w'"
  by (auto simp: client_ok_def split: option.splits)

text \<open>A reply without an error is the handler's, with the request handled once; with an error the reply is false
  and the request has been handled once or not at all.\<close>

lemma dialCall_error_false:
  "dialCall h ev nm args rc w = (r, rc', w') \<Longrightarrow> snd r \<noteq> None \<Longrightarrow> \<not> fst r"
  by (auto simp: dialCall_def rpc_DialHTTPPath_def rpc_Call_def rpc_request_def
      split: option.splits prod.splits if_splits call_fate.splits)

lemma Client_Call_error_false:
  "Client_Call h ev1 ev2 nm args rc w = Some (r, rc', w') \<Longrightarrow> snd r \<noteq> None \<Longrightarrow> \<not> fst r"
  by (auto simp: Client_Call_def split: if_splits option.splits prod.splits dest: dialCall_error_false)

text \<open>So a request through a client does to the server what \<open>rpc\<close> does with one of the three faults.\<close>

lemma node_call:
  assumes ok: "node_ok nd" and srv: "\<And>s. snd (fst (srv e m args s)) \<noteq> Some ErrShutdown"
    and call: "client_server srv (i, ev1, ev2, e) m args nd = (r, nd')"
  shows "node_ok nd' \<and> (\<exists>f. remote (link nd') = snd (rpc srv f e m args (remote (link nd))) \<and>
    fst r = fst (fst (rpc srv f e m args (remote (link nd)))))"
proof -
  have ok_i: "client_ok (client_at nd i) (link nd)" using ok by (simp add: node_ok_def)
  let ?h = "dsync_service (srv e)"
  have "\<And>s. snd (fst (?h (service_name m) args s)) \<noteq> Some ErrShutdown" using srv by simp
  from Client_Call_at_most_once[where h = ?h and nm = "service_name m" and args = args, OF ok_i this, of ev1 ev2] obtain r' rc w where
    C: "Client_Call ?h ev1 ev2 (service_name m) args (client_at nd i) (link nd) = Some (r', rc, w)" "client_ok rc w"
    "remote w = remote (link nd) \<or> remote w = snd (srv e m args (remote (link nd)))"
    "snd r' = None \<Longrightarrow> remote w = snd (srv e m args (remote (link nd))) \<and> r' = fst (srv e m args (remote (link nd)))" by auto
  have nd': "nd' = nd\<lparr>client_at := (client_at nd)(i := rc), link := w\<rparr>" "r = r'"
    using call C(1) by (simp_all add: client_server_def Client_method_def)
  have "node_ok nd'"
    using ok C(2) client_ok_mono[OF _ Client_Call_conns[OF C(1)]] by (simp add: node_ok_def nd')
  moreover have "\<exists>f. remote w = snd (rpc srv f e m args (remote (link nd))) \<and>
    fst r' = fst (fst (rpc srv f e m args (remote (link nd))))"
  proof (cases "snd r' = None")
    case True
    then show ?thesis using C(4) by (intro exI[of _ Delivered]) (simp add: rpc_def)
  next
    case False
    then have "\<not> fst r'" using Client_Call_error_false[OF C(1)] by blast
    from C(3) consider "remote w = remote (link nd)" | "remote w = snd (srv e m args (remote (link nd)))" by blast
    then show ?thesis
    proof cases
      case 1
      with \<open>\<not> fst r'\<close> show ?thesis by (intro exI[of _ RequestLost]) (simp add: rpc_def)
    next
      case 2
      with \<open>\<not> fst r'\<close> show ?thesis by (intro exI[of _ ReplyLost]) (simp add: rpc_def)
    qed
  qed
  ultimately show ?thesis by (simp add: nd')
qed

text \<open>With the faults of the schedule on top.\<close>

lemma rpc_node:
  assumes "node_ok nd" and "\<And>e s. snd (fst (srv e m args s)) \<noteq> Some ErrShutdown"
  obtains f' e' where "node_ok (snd (rpc (client_server srv) f ev m args nd))"
    and "remote (link (snd (rpc (client_server srv) f ev m args nd))) = snd (rpc srv f' e' m args (remote (link nd)))"
    and "fst (fst (rpc (client_server srv) f ev m args nd)) = fst (fst (rpc srv f' e' m args (remote (link nd))))"
proof -
  obtain i ev1 ev2 e where ev: "ev = (i, ev1, ev2, e)" by (cases ev)
  obtain r nd' where call: "client_server srv ev m args nd = (r, nd')" by fastforce
  from node_call[OF assms(1) assms(2) call[unfolded ev]] obtain g where
    g: "node_ok nd'" "remote (link nd') = snd (rpc srv g e m args (remote (link nd)))"
    "fst r = fst (fst (rpc srv g e m args (remote (link nd))))" by blast
  show ?thesis
  proof (cases f)
    case Delivered
    then show ?thesis using that[of g e] g call by (simp add: rpc_def)
  next
    case ReplyLost
    have "snd (rpc srv g e m args (remote (link nd))) = snd (rpc srv (if g = RequestLost then RequestLost else ReplyLost) e m args (remote (link nd)))"
      by (cases g) (simp_all add: rpc_def)
    then show ?thesis using that[of "if g = RequestLost then RequestLost else ReplyLost" e] g call ReplyLost by (simp add: rpc_def)
  next
    case RequestLost
    then show ?thesis using that[of RequestLost e] assms(1) by (simp add: rpc_def)
  qed
qed

subsection \<open>The projection to the bare servers\<close>

definition bare :: "'s node sys \<Rightarrow> 's sys" where
  "bare S = \<lparr>servers = (\<lambda>c. remote (link (servers S c))), mutexes = mutexes S, runs = runs S, releases = releases S,
     crashed = crashed S\<rparr>"

lemma bare_simps [simp]:
  "servers (bare S) c = remote (link (servers S c))" "mutexes (bare S) = mutexes S" "runs (bare S) = runs S"
  "releases (bare S) = releases S" "crashed (bare S) = crashed S"
  "bare (S\<lparr>runs := x\<rparr>) = (bare S)\<lparr>runs := x\<rparr>" "bare (S\<lparr>mutexes := y\<rparr>) = (bare S)\<lparr>mutexes := y\<rparr>"
  "bare (S\<lparr>releases := z\<rparr>) = (bare S)\<lparr>releases := z\<rparr>" "bare (S\<lparr>crashed := K\<rparr>) = (bare S)\<lparr>crashed := K\<rparr>"
  "bare (S\<lparr>servers := (servers S)(c := nd)\<rparr>) = (bare S)\<lparr>servers := (servers (bare S))(c := remote (link nd))\<rparr>"
  by (simp_all add: bare_def fun_upd_def fun_eq_iff)

text \<open>An action that sends no request does the same over the bare servers.\<close>

fun sends :: "'e action \<Rightarrow> bool" where
  "sends (Call p k f e) = True"
| "sends (Release p f e) = True"
| "sends (Drain p f e) = True"
| "sends (UnlockSend p f e) = True"
| "sends (Crash c) = True"
| "sends _ = False"

lemma exec_local:
  assumes "\<not> sends a" and "exec srv' init' ds a S = Some S'"
  shows "servers S' = servers S \<and> exec srv init ds (map_action g a) (bare S) = Some (bare S')"
  using assms
  by (cases a) (auto simp: exec_defs exec_return_def Let_def split: exec_splits)

text \<open>A message of a release.\<close>

lemma release_bare:
  assumes "\<forall>c. node_ok (servers S c)" and "\<And>e m args s. snd (fst (srv e m args s)) \<noteq> Some ErrShutdown"
  obtains f' e' where "\<forall>c'. node_ok (((servers S)(c := snd (rpc (client_server srv) f ev m args (servers S c)))) c')"
    and "remote (link (snd (rpc (client_server srv) f ev m args (servers S c)))) = snd (rpc srv f' e' m args (servers (bare S) c))"
proof -
  from assms(1) have "node_ok (servers S c)" ..
  from rpc_node[where srv = srv and f = f and ev = ev and m = m and args = args, OF this assms(2)] obtain f' e' where
    "node_ok (snd (rpc (client_server srv) f ev m args (servers S c)))"
    "remote (link (snd (rpc (client_server srv) f ev m args (servers S c)))) = snd (rpc srv f' e' m args (remote (link (servers S c))))"
    by metis
  then show ?thesis using that[of f' e'] assms(1) by simp
qed

lemma exec_message:
  assumes ex: "exec (client_server srv) nd0 ds a S = Some S'" and nocrash: "\<forall>c. a \<noteq> Crash c"
    and ok: "\<forall>c. node_ok (servers S c)" and srv: "\<And>e m args s. snd (fst (srv e m args s)) \<noteq> Some ErrShutdown"
    and sends: "sends a"
  shows "(\<forall>c. node_ok (servers S' c)) \<and> (\<exists>a'. exec srv init ds a' (bare S) = Some (bare S'))"
proof (cases a)
  case (Call p k f ev)
  let ?r = "runs S ! p" and ?c = "restClnts ds ! k"
  let ?rpc = "rpc (client_server srv) f ev (lock_method (run_read ?r)) (run_args ?r) (servers S ?c)"
  from ok have "node_ok (servers S ?c)" ..
  from rpc_node[where srv = srv and f = f and ev = ev and m = "lock_method (run_read ?r)" and args = "run_args ?r", OF this srv]
  obtain f' e' where R: "node_ok (snd ?rpc)"
    "remote (link (snd ?rpc)) = snd (rpc srv f' e' (lock_method (run_read ?r)) (run_args ?r) (remote (link (servers S ?c))))"
    "fst (fst ?rpc) = fst (fst (rpc srv f' e' (lock_method (run_read ?r)) (run_args ?r) (remote (link (servers S ?c)))))" by metis
  have "exec srv init ds (Call p k f' e') (bare S) = Some (bare S')"
    using ex R by (auto simp: Call exec_call_def Let_def case_prod_unfold split: if_splits)
  moreover have "\<forall>c. node_ok (servers S' c)"
    using ex R(1) ok by (auto simp: Call exec_call_def Let_def case_prod_unfold split: if_splits)
  ultimately show ?thesis by blast
next
  case (Release p f ev)
  let ?r = "runs S ! p"
  obtain k where k: "run_phase ?r = Releasing k" "p < length (runs S)" "k < nat (dNodeCount ds)"
    using ex by (auto simp: Release exec_release_def Let_def split: if_splits phase.splits)
  let ?m = "release_method (run_read ?r)" and ?args = "release_args (run_name ?r) (run_locks ?r ! k)" and ?c = "restClnts ds ! k"
  from release_bare[where f = f and ev = ev and m = ?m and args = ?args and c = ?c, OF ok srv] obtain f' e' where
    R: "\<forall>c'. node_ok (((servers S)(?c := snd (rpc (client_server srv) f ev ?m ?args (servers S ?c)))) c')"
    "remote (link (snd (rpc (client_server srv) f ev ?m ?args (servers S ?c)))) = snd (rpc srv f' e' ?m ?args (servers (bare S) ?c))" .
  have "exec srv init ds (Release p f' e') (bare S) = Some (bare S')" "\<forall>c. node_ok (servers S' c)"
    using ex R k ok by (auto simp: Release exec_release_def upd_run_def Let_def split: if_splits)
  then show ?thesis by blast
next
  case (Drain p f ev)
  let ?r = "runs S ! p"
  obtain g ch where k: "run_phase ?r = Draining" "p < length (runs S)" "run_i ?r < dNodeCount ds" "chan ?r = g # ch"
    using ex by (auto simp: Drain exec_drain_def Let_def split: if_splits list.splits)
  let ?m = "release_method (run_read ?r)" and ?args = "release_args (run_name ?r) (lockUID g)" and ?c = "restClnts ds ! index g"
  from release_bare[where f = f and ev = ev and m = ?m and args = ?args and c = ?c, OF ok srv] obtain f' e' where
    R: "\<forall>c'. node_ok (((servers S)(?c := snd (rpc (client_server srv) f ev ?m ?args (servers S ?c)))) c')"
    "remote (link (snd (rpc (client_server srv) f ev ?m ?args (servers S ?c)))) = snd (rpc srv f' e' ?m ?args (servers (bare S) ?c))" .
  have "exec srv init ds (Drain p f' e') (bare S) = Some (bare S')" "\<forall>c. node_ok (servers S' c)"
    using ex R k ok by (auto simp: Drain exec_drain_def upd_run_def Let_def split: if_splits)
  then show ?thesis by blast
next
  case (UnlockSend p f ev)
  let ?x = "releases S ! p"
  have k: "p < length (releases S)" "rel_next ?x < length (restClnts ds)"
    using ex by (auto simp: UnlockSend exec_unlock_send_def Let_def split: if_splits)
  let ?m = "release_method (rel_read ?x)" and ?args = "release_args (rel_name ?x) (rel_locks ?x ! rel_next ?x)"
    and ?c = "restClnts ds ! rel_next ?x"
  from release_bare[where f = f and ev = ev and m = ?m and args = ?args and c = ?c, OF ok srv] obtain f' e' where
    R: "\<forall>c'. node_ok (((servers S)(?c := snd (rpc (client_server srv) f ev ?m ?args (servers S ?c)))) c')"
    "remote (link (snd (rpc (client_server srv) f ev ?m ?args (servers S ?c)))) = snd (rpc srv f' e' ?m ?args (servers (bare S) ?c))" .
  have "exec srv init ds (UnlockSend p f' e') (bare S) = Some (bare S')" "\<forall>c. node_ok (servers S' c)"
    using ex R k ok by (auto simp: UnlockSend exec_unlock_send_def Let_def split: if_splits)
  then show ?thesis by blast
qed (use sends nocrash in simp_all)

lemma exec_bare:
  assumes ex: "exec (client_server srv) nd0 ds a S = Some S'" and nocrash: "\<forall>c. a \<noteq> Crash c"
    and ok: "\<forall>c. node_ok (servers S c)" and srv: "\<And>e m args s. snd (fst (srv e m args s)) \<noteq> Some ErrShutdown"
  shows "(\<forall>c. node_ok (servers S' c)) \<and> (\<exists>a'. exec srv init ds a' (bare S) = Some (bare S'))"
proof (cases "sends a")
  case True
  from exec_message[OF ex nocrash ok srv True] show ?thesis .
next
  case False
  from exec_local[OF False ex, of srv init "\<lambda>(_, _, _, e). e"] have "servers S' = servers S"
    "\<exists>a'. exec srv init ds a' (bare S) = Some (bare S')" by blast+
  with ok show ?thesis by simp
qed

lemma bare_init: "bare (sys_init (node_init clients init) ds names) = sys_init init ds names"
  by (simp add: bare_def sys_init_def node_init_def)

text \<open>Whatever the cluster behind the clients reaches is, without the clients, a reachable state of \<open>Lock_System\<close>.\<close>

lemma cluster_refines:
  assumes "cluster_reach srv init ad ep ds names S" and srv: "\<And>e m args s. snd (fst (srv e m args s)) \<noteq> Some ErrShutdown"
  shows "reachable srv init ds names (bare S) \<and> (\<forall>c. node_ok (servers S c))"
  using assms(1)
proof induction
  case start
  then show ?case
    using reachable.initial[of srv init ds names] by (simp add: bare_init) (simp add: sys_init_def node_ok_init)
next
  case (act S a S')
  from exec_bare[OF act(3,2) _ srv, of init] act.IH obtain a' where "\<forall>c. node_ok (servers S' c)"
    "exec srv init ds a' (bare S) = Some (bare S')" by blast
  with act.IH exec_sound reachable.step show ?case by metis
next
  case (crash S c)
  have "bare (S\<lparr>servers := (servers S)(c := node_crash init (servers S c)), crashed := insert c (crashed S)\<rparr>) =
    (bare S)\<lparr>servers := (servers (bare S))(c := init), crashed := insert c (crashed (bare S))\<rparr>"
    by (simp add: node_crash_def)
  moreover have "sys_step srv init ds (bare S) ((bare S)\<lparr>servers := (servers (bare S))(c := init), crashed := insert c (crashed (bare S))\<rparr>)"
    using crash(2) by (rule sys_step.crash)
  ultimately have "reachable srv init ds names (bare (S\<lparr>servers := (servers S)(c := node_crash init (servers S c)), crashed := insert c (crashed S)\<rparr>))"
    using crash.IH reachable.step by metis
  then show ?case using crash.IH by (simp add: node_ok_crash)
qed

lemma held_bare: "held (bare S) nm rd = held S nm rd"
  by (simp add: held_def)

lemma chaos_replies_no_shutdown: "snd (fst (chaos_server now m args s)) \<noteq> Some ErrShutdown"
  using chaos_no_shutdown[of now m args s] by simp

subsection \<open>The property\<close>

text \<open>(C14) A cluster of chaos servers behind reconnecting clients refines \<open>Lock_System\<close>: in every state that any
  number of processes reach, over connections that break, are dialled anew and outlive the crash of a
  server, the servers, mutexes, attempts and releases form a reachable state of the transition system. So
  there is at most one writer while fewer than \<open>2 * dquorum - dNodeCount\<close> servers have crashed.\<close>

theorem cluster_behind_clients_refines:
  assumes "cluster_reach chaos_server chaos_init ad ep ds names S"
  shows "reachable chaos_server chaos_init ds names (bare S) \<and>
    (dsync_ok ds \<and> int (card (crashed S)) < 2 * dquorum ds - dNodeCount ds \<longrightarrow> writers S nm \<le> 1)"
proof -
  have r: "reachable chaos_server chaos_init ds names (bare S)"
    using cluster_refines[OF assms chaos_replies_no_shutdown] by blast
  have "writers S nm = writers (bare S) nm" by (simp add: writers_def held_bare)
  then show ?thesis using r chaos.at_most_one_writer[OF r, of nm] by simp
qed

subsection \<open>A concrete run\<close>

lemma cluster_all:
  assumes "cluster_reach srv init ad ep ds names S" and "list_all (\<lambda>a. \<forall>c. a \<noteq> Crash c) as"
    and "exec_all (client_server srv) (node_init (fresh_clients ad ep) init) ds as S = Some S'"
  shows "cluster_reach srv init ad ep ds names S'"
  using assms by (induction as arbitrary: S) (auto split: option.splits intro: cluster_reach.act)

text \<open>Process 7 takes the lock, one of its connections breaking under the first request.\<close>

definition through_clients :: "net_event \<Rightarrow> (nat \<times> net_event \<times> net_event \<times> clock)" where
  "through_clients ev = (7, ev, all_well, \<lambda>_. 5)"

definition cluster_schedule :: "(nat \<times> net_event \<times> net_event \<times> clock) action list" where
  "cluster_schedule =
     [Start 0 ''u'' [] False, Call 0 0 Delivered (through_clients (all_well\<lparr>fate := Breaks True\<rparr>))] @
     map (\<lambda>k. Call 0 k Delivered (through_clients all_well)) [1, 2, 3] @ map (Send 0) [0, 1, 2, 3] @
     [Recv 0, Recv 0, Recv 0, Recv 0, LoopEnd 0, Decide 0, Return 0]"

theorem cluster_behind_clients_refines_witness:
  "\<exists>S. cluster_reach chaos_server chaos_init ''host'' ''/dsync'' ds_four [''r''] S \<and> writers S ''r'' = 1 \<and>
     conn_open (link (servers S 0)) = [False] \<and> reachable chaos_server chaos_init ds_four [''r''] (bare S)"
proof -
  have "map_option (\<lambda>S. (writers S ''r'', conn_open (link (servers S 0))))
     (exec_all (client_server chaos_server) (node_init (fresh_clients ''host'' ''/dsync'') chaos_init) ds_four cluster_schedule
       (sys_init (node_init (fresh_clients ''host'' ''/dsync'') chaos_init) ds_four [''r''])) = Some (1, [False])"
    by code_simp
  then obtain S where S: "exec_all (client_server chaos_server) (node_init (fresh_clients ''host'' ''/dsync'') chaos_init) ds_four
      cluster_schedule (sys_init (node_init (fresh_clients ''host'' ''/dsync'') chaos_init) ds_four [''r'']) = Some S"
    "writers S ''r'' = 1" "conn_open (link (servers S 0)) = [False]" by (auto simp: map_option_case split: option.splits)
  have "list_all (\<lambda>a. \<forall>c. a \<noteq> Crash c) cluster_schedule" by (simp add: cluster_schedule_def)
  from cluster_all[OF cluster_reach.start this S(1)] cluster_behind_clients_refines S(2,3) show ?thesis by blast
qed

end
