(* ===== verification/Empty_Uid.thy ===== *)
theory Empty_Uid
  imports Lock_Properties
begin

section \<open>A lock request without a UID\<close>

text \<open>
  \<^verbatim>\<open>Granted.isLocked\<close> takes a non-empty UID for a granted lock, and nothing checks the identifier a caller
  passes to \<^verbatim>\<open>Lock\<close>. With the empty identifier every grant looks like a refusal: the attempt fails, yet the
  servers have recorded the lock and are never sent its release.
\<close>

text \<open>(C27) A write lock with the empty identifier on a free resource fails, for every order of the replies and
  every timer, although every chaos server grants it; and it is never released: afterwards every blocking
  write or read call by a client with an identifier, through any mutex on the resource, is refused in all its attempts.\<close>

theorem empty_uid_locks_out_everybody:
  assumes "dsync_ok ds" and "distinct ks" and "set ks = {..<length (restClnts ds)}"
    and "\<forall>c \<in> set (restClnts ds). lockMap (st c) nm = None"
    and "lock (chaos_server now) ds (replicate (length (restClnts ds)) []) nm [] source False ks timer st = (b, locks', st')"
    and "clnt dm = ds" and "Name dm = nm" and "ident \<noteq> []"
    and "\<forall>a \<in> set rounds. distinct (att_arrivals a) \<and> set (att_arrivals a) = {..<length (restClnts ds)} \<and> att_elapsed a < timeout"
  shows "\<not> b \<and> (\<forall>c \<in> set (restClnts ds). \<exists>e. lockMap (st' c) nm = Some [e] \<and> writer e \<and> uid e = []) \<and>
    fst (lockBlocking (chaos_server now') timeout ident source' rd rounds dm st') = None"
proof -
  let ?n = "length (restClnts ds)"
  have lock: "\<not> b" "st' = fold (node_step (restClnts ds) (after_lock (chaos_server now) nm [] source False)) ks st"
    using lock_empty_uid[OF assms(1), of ks "chaos_server now" nm source False timer st] assms(2,3,5) by simp_all
  have at: "\<exists>e. lockMap (st' (restClnts ds ! k)) nm = Some [e] \<and> writer e \<and> uid e = []" if "k < ?n" for k
  proof -
    have "st' (restClnts ds ! k) = after_lock (chaos_server now) nm [] source False k (st (restClnts ds ! k))"
      using fold_node_step_at[OF dsync_okD(6)[OF assms(1)] assms(2), of k "after_lock (chaos_server now) nm [] source False" st]
        assms(3) that by (simp add: lock(2))
    moreover have "lockMap (st (restClnts ds ! k)) nm = None" using assms(4) that by simp
    ultimately show ?thesis by (simp add: after_lock_def lock_method_def handler_defs)
  qed
  define P where "P c = (\<exists>e. lockMap c nm = Some [e] \<and> writer e)" for c :: chaos_lockServer
  have "\<not> fst (fst (chaos_server now' (lock_method rd) \<lparr>UID = ident, Resource = Name dm, Source = source'\<rparr> c)) \<and>
      P (snd (chaos_server now' (lock_method rd) \<lparr>UID = ident, Resource = Name dm, Source = source'\<rparr> c))" if "P c" for c
    using that assms(7) by (auto simp: P_def lock_method_def handler_defs isWriteLock_def)
  moreover have "\<forall>k < length (restClnts (clnt dm)). P (st' (restClnts (clnt dm) ! k))"
    using at assms(6) unfolding P_def by blast
  ultimately have "\<exists>st''. lockBlocking (chaos_server now') timeout ident source' rd rounds dm st' = (None, dm, st'') \<and>
      (\<forall>k < length (restClnts (clnt dm)). P (st'' (restClnts (clnt dm) ! k)))"
    using assms(1,6,8,9) by (intro lockBlocking_refused) simp_all
  then have "fst (lockBlocking (chaos_server now') timeout ident source' rd rounds dm st') = None" by auto
  moreover have "\<forall>c \<in> set (restClnts ds). \<exists>e. lockMap (st' c) nm = Some [e] \<and> writer e \<and> uid e = []"
    using at by (auto simp: in_set_conv_nth)
  ultimately show ?thesis using lock(1) by blast
qed

theorem empty_uid_locks_out_everybody_witness:
  "\<exists>st'. lock (chaos_server (\<lambda>_. 3)) ds_two [[], []] ''r'' [] [] False [1, 0] None (\<lambda>_. chaos_init) = (False, [[], []], st') \<and>
     fst (GetLock (chaos_server (\<lambda>_. 8)) ''u'' [] 9 [\<lparr>ctxDone = False, att_arrivals = [0, 1], att_timer = None, att_elapsed = 4\<rparr>]
       (NewDRWMutex ''r'' ds_two) st') = None"
proof -
  let ?rounds = "[\<lparr>ctxDone = False, att_arrivals = [0, 1], att_timer = None, att_elapsed = 4\<rparr>]"
  obtain b locks' st' where run: "lock (chaos_server (\<lambda>_. 3)) ds_two [[], []] ''r'' [] [] False [1, 0] None (\<lambda>_. chaos_init)
      = (b, locks', st')" by (metis prod_cases3)
  have two: "length (restClnts ds_two) = 2" "{..<2::nat} = {0, 1}"
    by (auto simp: ds_two_def numeral_2_eq_2)
  have dm: "clnt (NewDRWMutex ''r'' ds_two) = ds_two" "Name (NewDRWMutex ''r'' ds_two) = ''r''" by (simp_all add: NewDRWMutex_def)
  have run': "lock (chaos_server (\<lambda>_. 3)) ds_two (replicate (length (restClnts ds_two)) []) ''r'' [] [] False [1, 0] None (\<lambda>_. chaos_init)
      = (b, locks', st')" using run by (simp add: two(1) numeral_2_eq_2)
  have "\<not> b \<and> fst (lockBlocking (chaos_server (\<lambda>_. 8)) 9 ''u'' [] False ?rounds (NewDRWMutex ''r'' ds_two) st') = None"
    using empty_uid_locks_out_everybody[OF ds_two_ok _ _ _ run' dm, of "''u''" ?rounds 9 "\<lambda>_. 8" "[]" False] two
    by (simp add: chaos_init_def insert_commute)
  moreover have "locks' = [[], []]"
    using lock_empty_uid[OF ds_two_ok, of "[1, 0]" "chaos_server (\<lambda>_. 3)" "''r''" "[]" False None "\<lambda>_. chaos_init"] run' two
    by (simp add: insert_commute numeral_2_eq_2)
  ultimately show ?thesis using run by (simp add: GetLock_def)
qed

end
