(* ===== verification/Spec2Isabelle.thy ===== *)
theory Spec2Isabelle
  imports Mutual_Exclusion Attempt_Progress Exact_Accounting Scenario_Runs Mutex_Cycle Retry Auth_Example Chaos_Maintenance
    Attempt_Equivalence Server_Equivalence Performance_Program Client_Cluster Empty_Uid
begin

text \<open>
  \<^bold>\<open>A verification of dsync.\<close> The package implements a distributed readers-writer mutex without a
  master: a client sends a lock request to each of \<open>n\<close> lock servers (2 to 32) and holds the lock when
  a quorum grants it. The repository also holds two programs that exercise the package, each with
  its own lock server and an RPC client, and an example with a server that knows sessions.

  \<^bold>\<open>Parts of the program and the theories that model them.\<close>

  \<^item> \<open>Dsync_Prelude\<close>: names of types, collections of rewrite rules, lemmas on lists, sums and
    cardinalities.
  \<^item> \<open>Rpc_Interface\<close> (\<^verbatim>\<open>rpc-client-interface.go\<close>): \<open>LockArgs\<close>, the methods of \<^verbatim>\<open>NetLocker\<close> as a
    datatype, errors as values. An interface value is a method table and a reference into a store
    of objects. The locale \<open>lock_server\<close> is the contract a lock server owes to the protocol, counted
    in tokens; \<open>lock_server_live\<close> adds that free resources are granted and held ones released.
  \<^item> \<open>Chaos_Server\<close>, \<open>Chaos_Maintenance\<close> (\<^verbatim>\<open>chaos/lock-rpc-server.go\<close>, \<^verbatim>\<open>chaos/chaos-server.go\<close>): the server
    that records the requesters of a lock, its handlers and its maintenance operations.
  \<^item> \<open>Performance_Server\<close> (\<^verbatim>\<open>performance/performance-server.go\<close>): the server that only counts.
    Both servers interpret \<open>lock_server_live\<close>.
    \<open>Server_Equivalence\<close> compares the two.
  \<^item> \<open>Go_Float\<close>, \<open>Dsync_Core\<close> (\<^verbatim>\<open>dsync.go\<close>): the rounding of \<^verbatim>\<open>float64\<close> on rationals, the \<open>Dsync\<close> object and
    \<open>New\<close> with the two quorums. \<open>Go_Text\<close>: numbers, paths and \<open>getSource\<close>.
  \<^item> \<open>DRWMutex\<close> (\<^verbatim>\<open>drwmutex.go\<close>): every function of the file, sequentially. The parallelism inside one
    attempt of \<open>lock\<close> is in two arguments: the order in which the replies arrive and the point at
    which the acquire timer fires; all lemmas hold for every choice. \<open>lockBlocking\<close> runs over the
    list of rounds that the retry timer provides and returns \<open>None\<close> where that list ends first.
  \<^item> \<open>Lock_Attempt\<close>, \<open>Lock_Properties\<close>, \<open>Mutex_Cycle\<close>: what an attempt does at every node, and what the
    blocking operations and the unlocks leave behind; the locale \<open>undoable_server\<close> is what these
    need of a server, and both servers interpret it. \<open>Empty_Uid\<close>: a lock request without an identifier.
  \<^item> \<open>Lock_System\<close>: the same code as a transition system, with any number of mutexes and attempts in
    parallel. One step is one action of one goroutine: an RPC, a channel operation, a round of a
    loop of the collector, a critical section. A request or a reply may be lost, and a server may
    crash and restart empty. \<open>Schedule\<close> makes the relation executable: a schedule is a list of
    actions, and whatever it reaches is reachable.
  \<^item> \<open>System_Invariant\<close>, \<open>System_Safety\<close>, \<open>Rw_Spec\<close>, \<open>Mutual_Exclusion\<close>, \<open>Attempt_Progress\<close>,
    \<open>Exact_Accounting\<close>: the invariants of the transition system and the theorems on it.
    \<open>Attempt_Equivalence\<close>: the sequential calls of \<open>DRWMutex\<close> are runs of the transition system.
  \<^item> \<open>Driver\<close>, \<open>Driver_Frame\<close> (\<^verbatim>\<open>chaos/chaos.go\<close>): processes that are killed and launched, goroutines as lists of
    statements, channels, wait groups and time, on top of the transition system; every run of such a
    world is a run of the transition system. The locales \<open>driver_invariant\<close> and \<open>stmt_shape\<close> reduce an invariant of
    a program to its steps.
  \<^item> \<open>Chaos_Scenarios\<close>: the tests of \<^verbatim>\<open>chaos/chaos.go\<close> as such programs. \<open>Stale_Locks\<close>, \<open>Acquired_Locks\<close>, \<open>Quorum_Blocks\<close>,
    \<open>No_Starvation\<close>, \<open>Scenario_Runs\<close>: what the tests rely on, for every run, and how each of them can end.
  \<^item> \<open>Performance_Driver\<close>, \<open>Performance_Program\<close> (\<^verbatim>\<open>performance/performance.go\<close>): the cluster and the measuring loop;
    the goroutines of the program as a program of \<open>Driver\<close>.
  \<^item> \<open>Retry\<close> (\<^verbatim>\<open>retry.go\<close>): the back-off on 64-bit durations with the floating-point jitter, and the
    goroutine of the timer as a state machine, the locked random source.
  \<^item> \<open>Net_Rpc\<close> (\<^verbatim>\<open>chaos/net-rpc-client.go\<close>, the same file under \<^verbatim>\<open>performance/\<close>): the client that
    reconnects, over a model of the part of \<^verbatim>\<open>net/rpc\<close> that is used. \<open>Client_Cluster\<close>: the transition system with
    every request going through such a client.
  \<^item> \<open>Auth_Server\<close>, \<open>Auth_Client\<close>, \<open>Auth_Example\<close> (\<^verbatim>\<open>examples/auth-locker\<close>): server, client and main program of the
    example.

  \<^bold>\<open>What is shown.\<close>

  \<^item> Safety of the whole system, over the chaos and the performance server: at most one writer while
    fewer than \<open>2 * dquorum - dNodeCount\<close> servers have crashed, never a writer beside a reader while
    none has, and a refinement of an abstract readers-writer lock. The argument counts, at every
    node, the locks the clients still rely on (credits) against the tokens of the server. Two
    schedules show that the bounds are tight: two crashes give two writers (the deficiency the
    README knows), one crash gives a writer and a reader. When no message is lost, no server crashes and no
    attempt has the empty identifier, the tokens of every server are exactly the locks that clients hold or are about to release: no lock leaks.
    The cluster behind the reconnecting clients refines the transition system, so all this holds for it too.
  \<^item> Progress: an attempt takes at most \<open>4 * n + 5\<close> actions under every schedule and is never stuck;
    the channel is never full, nobody sends on it after it is closed, no index is out of range.
  \<^item> The chaos tests: with a single server down there is one writer at a time; without a quorum of
    listening servers no lock is granted; the stale locks of a dead client block the others for ever,
    so the tests that wait for a lock maintenance time out; the tests before maintenance fail only when the lock was acquired; the guarded mutex lets no reader in while a
    writer waits. The performance program: no unlock of its goroutines panics, and no lock is left behind.
  \<^item> One attempt: it succeeds exactly with a non-empty identifier and a quorum of the replies it waited for; what it does not
    keep it releases. Lock and unlock cancel out and a call that times out leaves no trace, under an identifier new to the servers; an unlock
    panics exactly when nothing is held, readers are released in order. With an empty identifier a lock is
    recorded by the servers, reported as refused and never released.
  \<^item> Servers: exclusion after any requests, release only by the owner, bounds of the counters, round
    trips, soundness and completeness of the search for stale locks under a moving clock.
  \<^item> Retry timer: bounds of the wait, order of the attempts, for which units the wait overflows. RPC client:
    at most one handling per call, reconnection. Session server: guards, counters, sessions; the
    example grants every writer, and its client can never log in, so its main program never gets its lock.
  \<^item> Equivalences: every sequential call is a schedule of the transition system; the counting server
    replies like the recording server as long as nobody releases a lock of somebody else.

  \<^bold>\<open>Bounds and conventions.\<close> No fuel is used: all loops are structural or bounded by the number of
  nodes, except the redraw of \<open>rand_Float64\<close>, which is a partial function. Go's \<^verbatim>\<open>int\<close> is an \<open>int\<close> where the values are bounded by the number of nodes or of requests
  (\<open>perf_count_bounds\<close> for the counter of the performance server); durations wrap explicitly. The
  transition system lets an unlock give up the mutex before its release messages are sent, while
  the code holds the inner lock until they are; this allows more interleavings. A request whose
  client has seen an error is not handled by the server at a later time. Distinct nodes are
  distinct objects (\<open>dsync_ok\<close>).

  \<^bold>\<open>Not modelled.\<close> Logging, the set-up of listeners, flag parsing, the search for left-over processes with
  \<^verbatim>\<open>pgrep\<close>, the printed rates of the performance program. The sequence of the tests in \<^verbatim>\<open>main\<close> of the chaos program: every
  test has a channel, a start time and mutexes of its own, of which a world of \<open>Driver\<close> has one set, so each test is
  taken on a cluster as \<^verbatim>\<open>main\<close> starts it; in a sequence the fifth test would end the program whenever its client held
  its lock (\<open>stale_lock_blocks_test\<close>). When Ctrl-C sets the flag of the performance program is an argument.
  \<^verbatim>\<open>performance/net-rpc-client.go\<close> has the text of the chaos client and no definitions of its own. What
  \<^verbatim>\<open>runtime.Caller\<close> finds and the generator behind \<^verbatim>\<open>rand.NewSource\<close> are arguments. In \<open>Client_Cluster\<close> a crash leaves the
  connections of the clients as they are, until the network breaks them in a call.
\<close>

end
